(* ===== verification/KV_Prelude.thy ===== *)
theory KV_Prelude
  imports Main "HOL-Library.Word" "HOL-Library.Char_ord" "HOL-Library.List_Lexorder"
begin

text \<open>
  Shared vocabulary of the development: the C++ machine types, little-endian
  encoding of integers as raw bytes, reading from a byte stream, \<open>std::map\<close> as a
  strictly sorted association list, the binary searches of \<open><algorithm>\<close>, and the
  contract of an encoder/decoder pair as a locale.

  A byte is a \<^typ>\<open>char\<close> (both have 256 values), so \<open>std::string\<close>, a read or
  write buffer and the content of a file all have type \<^typ>\<open>char list\<close>.  The
  order on strings is the one of \<open>std::string::compare\<close>: lexicographic on
  unsigned bytes, which is what \<open>Char_ord\<close> and \<open>List_Lexorder\<close> give.
  Integers are written by the sources through \<open>reinterpret_cast\<close>; the model is that
  of a little-endian host, which is what every supported build target is.
\<close>

named_theorems codec_simps \<open>round trips of the byte encoders\<close>
named_theorems smap_simps \<open>lookup and order of sorted association lists\<close>

type_synonym bytes = "char list"
type_synonym uint64 = "64 word"
type_synonym uint32 = "32 word"

section \<open>Errors as values\<close>

text \<open>
  An exception of the sources, or a step whose behaviour C++ leaves undefined
  (reading an indeterminate value, indexing outside a buffer), is a value of this type.
\<close>

datatype kv_error =
    UndefinedBehaviour
  | RuntimeError string
  | InvalidArgument
  | OutOfRange

primrec sum_bind :: "'e + 'a \<Rightarrow> ('a \<Rightarrow> 'e + 'b) \<Rightarrow> 'e + 'b" where
  "sum_bind (Inl e) f = Inl e"
| "sum_bind (Inr x) f = f x"

lemma sum_bind_Inr_conv:
  "sum_bind m f = Inr y \<longleftrightarrow> (\<exists>x. m = Inr x \<and> f x = Inr y)"
  by (cases m) auto

section \<open>Counters\<close>

lemma unat_Suc_of_less: "a < (b :: 'a::len word) \<Longrightarrow> unat (a + 1) = unat a + 1"
proof -
  assume "a < b"
  then have "\<not> b \<le> a" by simp
  then have "a \<noteq> - 1" by auto
  then have "a + 1 \<noteq> 0" by (simp add: add_eq_0_iff2)
  then show ?thesis using unatSuc [of a] by (simp add: add.commute)
qed

section \<open>Little-endian integers\<close>

primrec le_bytes :: "nat \<Rightarrow> nat \<Rightarrow> bytes" where
  "le_bytes 0 n = []"
| "le_bytes (Suc k) n = char_of n # le_bytes k (n div 256)"

primrec le_value :: "bytes \<Rightarrow> nat" where
  "le_value [] = 0"
| "le_value (c # cs) = of_char c + 256 * le_value cs"

lemma length_le_bytes [simp]: "length (le_bytes k n) = k"
  by (induction k arbitrary: n) auto

lemma le_value_le_bytes: "le_value (le_bytes k n) = n mod 256 ^ k"
proof (induction k arbitrary: n)
  case (Suc k)
  have "of_char (char_of n :: char) = n mod 256"
    by (simp add: of_char_of)
  then show ?case
    using Suc.IH [of "n div 256"] by (simp add: mod_mult2_eq)
qed simp

lemma le_value_bound: "le_value bs < 256 ^ length bs"
proof (induction bs)
  case (Cons c cs)
  have "of_char c < (256::nat)" by simp
  moreover have "le_value cs + 1 \<le> 256 ^ length cs" using Cons by simp
  ultimately have "of_char c + 256 * le_value cs < 256 * 256 ^ length cs" by linarith
  then show ?case by simp
qed simp

definition put_u32 :: "uint32 \<Rightarrow> bytes" where
  "put_u32 w = le_bytes 4 (unat w)"

definition put_u64 :: "uint64 \<Rightarrow> bytes" where
  "put_u64 w = le_bytes 8 (unat w)"

text \<open>
  Reading an integer fails when the stream has too few bytes left; the variable the
  sources read into is then not (fully) written.
\<close>

definition get_u32 :: "bytes \<Rightarrow> (uint32 \<times> bytes) option" where
  "get_u32 bs = (if length bs < 4 then None
     else Some (word_of_nat (le_value (take 4 bs)), drop 4 bs))"

definition get_u64 :: "bytes \<Rightarrow> (uint64 \<times> bytes) option" where
  "get_u64 bs = (if length bs < 8 then None
     else Some (word_of_nat (le_value (take 8 bs)), drop 8 bs))"

definition get_u8 :: "bytes \<Rightarrow> (char \<times> bytes) option" where
  "get_u8 bs = (case bs of [] \<Rightarrow> None | c # cs \<Rightarrow> Some (c, cs))"

text \<open>
  \<open>stream.read(buf, n)\<close> into a zero-filled buffer: a short read leaves the rest of
  the buffer as it was and exhausts the stream.
\<close>

definition read_chars :: "nat \<Rightarrow> bytes \<Rightarrow> bytes \<times> bytes" where
  "read_chars n bs = (take n bs @ replicate (n - length bs) (CHR 0x00), drop n bs)"

lemma length_put_u32 [simp]: "length (put_u32 w) = 4"
  by (simp add: put_u32_def)

lemma length_put_u64 [simp]: "length (put_u64 w) = 8"
  by (simp add: put_u64_def)

lemma get_put_u32 [simp, codec_simps]: "get_u32 (put_u32 w @ bs) = Some (w, bs)"
proof -
  have "unat w < 256 ^ 4" using unsigned_less [of w, where ?'a = nat] by simp
  then show ?thesis
    by (simp add: get_u32_def put_u32_def le_value_le_bytes)
qed

lemma get_put_u64 [simp, codec_simps]: "get_u64 (put_u64 w @ bs) = Some (w, bs)"
proof -
  have "unat w < 256 ^ 8" using unsigned_less [of w, where ?'a = nat] by simp
  then show ?thesis
    by (simp add: get_u64_def put_u64_def le_value_le_bytes)
qed

lemma get_u8_Cons [simp, codec_simps]: "get_u8 (c # cs) = Some (c, cs)"
  by (simp add: get_u8_def)

lemma read_chars_append [codec_simps]: "length s = n \<Longrightarrow> read_chars n (s @ bs) = (s, bs)"
  by (simp add: read_chars_def)

lemma length_read_chars [simp]: "length (fst (read_chars n bs)) = n"
  by (simp add: read_chars_def)

lemma snd_read_chars: "snd (read_chars n bs) = drop n bs"
  by (simp add: read_chars_def)

lemma get_u32_length: "get_u32 bs = Some (w, cs) \<Longrightarrow> length cs + 4 = length bs"
  by (auto simp: get_u32_def split: if_splits)

lemma get_u64_length: "get_u64 bs = Some (w, cs) \<Longrightarrow> length cs + 8 = length bs"
  by (auto simp: get_u64_def split: if_splits)

lemma get_u8_length: "get_u8 bs = Some (c, cs) \<Longrightarrow> length cs + 1 = length bs"
  by (auto simp: get_u8_def split: list.splits)

lemma unat_u64_bound [simp]: "unat (w :: uint64) < 18446744073709551616"
  using unsigned_less [of w, where ?'a = nat] by simp

lemma unat_u32_bound [simp]: "unat (w :: uint32) < 4294967296"
  using unsigned_less [of w, where ?'a = nat] by simp

lemma unat_of_length32 [simp]:
  "n < 2 ^ 32 \<Longrightarrow> unat (word_of_nat n :: uint32) = n"
  by (simp add: of_nat_inverse)

lemma unat_of_length64 [simp]:
  "n < 2 ^ 64 \<Longrightarrow> unat (word_of_nat n :: uint64) = n"
  by (simp add: of_nat_inverse)

section \<open>The contract of an encoder and its decoder\<close>

text \<open>Reading \<open>n\<close> items one after the other, as the counted loops of the sources do.\<close>

fun dec_many :: "(bytes \<Rightarrow> ('a \<times> bytes) option) \<Rightarrow> nat \<Rightarrow> bytes \<Rightarrow> ('a list \<times> bytes) option" where
  "dec_many dec 0 bs = Some ([], bs)"
| "dec_many dec (Suc n) bs =
     (case dec bs of
        None \<Rightarrow> None
      | Some (x, cs) \<Rightarrow>
          (case dec_many dec n cs of
             None \<Rightarrow> None
           | Some (xs, ds) \<Rightarrow> Some (x # xs, ds)))"

locale codec =
  fixes enc :: "'a \<Rightarrow> bytes"
    and dec :: "bytes \<Rightarrow> ('a \<times> bytes) option"
    and ok :: "'a \<Rightarrow> bool"
  assumes dec_enc: "ok x \<Longrightarrow> dec (enc x @ bs) = Some (x, bs)"
begin

lemma dec_many_enc:
  "\<forall>x\<in>set xs. ok x \<Longrightarrow> dec_many dec (length xs) (concat (map enc xs) @ bs) = Some (xs, bs)"
  by (induction xs) (simp_all add: dec_enc)

lemma enc_inj: "ok x \<Longrightarrow> ok y \<Longrightarrow> enc x @ bs = enc y @ cs \<Longrightarrow> x = y \<and> bs = cs"
  by (metis dec_enc option.inject prod.inject)

end

interpretation u32: codec put_u32 get_u32 "\<lambda>_. True"
  by unfold_locales simp

interpretation u64: codec put_u64 get_u64 "\<lambda>_. True"
  by unfold_locales simp

section \<open>std::map as a sorted association list\<close>

abbreviation sorted_keys :: "('k::linorder \<times> 'v) list \<Rightarrow> bool" where
  "sorted_keys m \<equiv> sorted_wrt (<) (map fst m)"

text \<open>\<open>m[k] = v\<close>: iteration order is key order.\<close>

fun smap_put :: "'k::linorder \<Rightarrow> 'v \<Rightarrow> ('k \<times> 'v) list \<Rightarrow> ('k \<times> 'v) list" where
  "smap_put k v [] = [(k, v)]"
| "smap_put k v ((a, b) # m) =
     (if k < a then (k, v) # (a, b) # m
      else if k = a then (k, v) # m
      else (a, b) # smap_put k v m)"

lemma map_of_smap_put [simp, smap_simps]: "map_of (smap_put k v m) = (map_of m)(k \<mapsto> v)"
  by (induction k v m rule: smap_put.induct) auto

lemma set_keys_smap_put [simp, smap_simps]: "fst ` set (smap_put k v m) = insert k (fst ` set m)"
  by (induction k v m rule: smap_put.induct) auto

lemma sorted_smap_put [simp, intro, smap_simps]: "sorted_keys m \<Longrightarrow> sorted_keys (smap_put k v m)"
proof (induction k v m rule: smap_put.induct)
  case (2 k v a b m)
  have "fst ` set (smap_put k v m) = insert k (fst ` set m)" by simp
  with 2 show ?case by (auto dest: less_trans)
qed simp

lemma smap_put_not_Nil [simp]: "smap_put k v m \<noteq> []"
  by (cases "(k, v, m)" rule: smap_put.cases) auto

lemma set_smap_put: "p \<in> set (smap_put k v m) \<Longrightarrow> p = (k, v) \<or> p \<in> set m"
  by (induction k v m rule: smap_put.induct) (auto split: if_splits)

lemma smap_put_snoc:
  "\<forall>x\<in>set m. fst x < k \<Longrightarrow> smap_put k v m = m @ [(k, v)]"
  by (induction k v m rule: smap_put.induct) auto

lemma sorted_keys_distinct: "sorted_keys m \<Longrightarrow> distinct (map fst m)"
  by (simp add: strict_sorted_iff)

lemma sorted_keys_map_of: "sorted_keys m \<Longrightarrow> (map_of m k = Some v) = ((k, v) \<in> set m)"
  by (meson map_of_SomeD map_of_is_SomeI sorted_keys_distinct)

lemma map_of_filter_keys:
  "\<forall>x\<in>set m. fst x = k \<longrightarrow> P x \<Longrightarrow> map_of (filter P m) k = map_of m k"
  by (induction m) auto

lemma map_of_None_less: "\<forall>x\<in>set m. fst x < k \<Longrightarrow> map_of m (k :: 'k::linorder) = None"
  by (force simp: map_of_eq_None_iff)

lemma map_of_None_greater: "\<forall>x\<in>set m. k < fst x \<Longrightarrow> map_of m (k :: 'k::linorder) = None"
  by (force simp: map_of_eq_None_iff)

lemma sorted_keys_nth_mono:
  assumes "sorted_keys es" "i < j" "j < length es"
  shows "fst (es ! i) < fst (es ! j)"
proof -
  have "map fst es ! i < map fst es ! j"
    using assms by (intro sorted_wrt_nth_less [of "(<)"]) auto
  then show ?thesis using assms by simp
qed

lemma sorted_keys_range:
  assumes "sorted_keys es" "x \<in> set es"
  shows "fst (hd es) \<le> fst x \<and> fst x \<le> fst (last es)"
proof -
  obtain i where i: "i < length es" "x = es ! i" using assms(2) by (auto simp: in_set_conv_nth)
  have ne: "es \<noteq> []" using assms(2) by auto
  have "fst (es ! 0) \<le> fst (es ! i)"
    using sorted_keys_nth_mono [OF assms(1), of 0 i] i by (cases i) auto
  moreover have "fst (es ! i) \<le> fst (es ! (length es - 1))"
  proof (cases "i = length es - 1")
    case False
    then have "i < length es - 1" "length es - 1 < length es" using i by auto
    from sorted_keys_nth_mono [OF assms(1) this] show ?thesis by simp
  qed simp
  ultimately show ?thesis using i ne by (simp add: hd_conv_nth last_conv_nth)
qed

section \<open>std::lower\_bound and std::upper\_bound\<close>

text \<open>
  The halving loop both functions of \<open><algorithm>\<close> run: \<open>P\<close> is the test that sends
  the search to the right half.  On a range that is partitioned by \<open>P\<close> it returns
  the partition point; on any other range it still computes what the loop computes.
\<close>

function bound_search :: "('a \<Rightarrow> bool) \<Rightarrow> 'a list \<Rightarrow> nat \<Rightarrow> nat \<Rightarrow> nat" where
  "bound_search P xs first len =
     (if len = 0 then first
      else let half = len div 2; mid = first + half in
        if P (xs ! mid) then bound_search P xs (mid + 1) (len - half - 1)
        else bound_search P xs first half)"
  by pat_completeness auto
termination
  by (relation "measure (\<lambda>(P, xs, first, len). len)") auto

declare bound_search.simps [simp del]

definition lower_bound :: "('a \<Rightarrow> 'b \<Rightarrow> bool) \<Rightarrow> 'a list \<Rightarrow> 'b \<Rightarrow> nat" where
  "lower_bound cmp xs v = bound_search (\<lambda>x. cmp x v) xs 0 (length xs)"

definition upper_bound :: "('b \<Rightarrow> 'a \<Rightarrow> bool) \<Rightarrow> 'a list \<Rightarrow> 'b \<Rightarrow> nat" where
  "upper_bound cmp xs v = bound_search (\<lambda>x. \<not> cmp v x) xs 0 (length xs)"

lemma bound_search_point:
  assumes "\<And>i. i < length xs \<Longrightarrow> P (xs ! i) \<longleftrightarrow> i < p"
    and "first \<le> p" "p \<le> first + len" "first + len \<le> length xs"
  shows "bound_search P xs first len = p"
  using assms
proof (induction P xs first len rule: bound_search.induct)
  case (1 P xs first len)
  show ?case
  proof (cases "len = 0")
    case True
    with "1.prems" show ?thesis by (simp add: bound_search.simps [of P xs first 0])
  next
    case False
    define mid where "mid = first + len div 2"
    have mid: "mid < first + len" using False by (auto simp: mid_def)
    have P: "P (xs ! mid) \<longleftrightarrow> mid < p" using "1.prems" mid by auto
    show ?thesis
    proof (cases "mid < p")
      case True
      have "bound_search P xs (mid + 1) (len - len div 2 - 1) = p"
        using False True P "1.prems" mid by (intro "1.IH"(1)) (auto simp: mid_def)
      with False True P show ?thesis
        by (simp add: bound_search.simps [of P xs first len] Let_def mid_def)
    next
      case noright: False
      have "bound_search P xs first (len div 2) = p"
        using False noright P "1.prems" mid by (intro "1.IH"(2)) (auto simp: mid_def)
      with False noright P show ?thesis
        by (simp add: bound_search.simps [of P xs first len] Let_def mid_def)
    qed
  qed
qed

lemma bound_search_takeWhile:
  assumes "sorted_wrt (\<lambda>x y. P y \<longrightarrow> P x) xs"
  shows "bound_search P xs 0 (length xs) = length (takeWhile P xs)"
proof (rule bound_search_point)
  fix i assume i: "i < length xs"
  let ?p = "length (takeWhile P xs)"
  show "P (xs ! i) \<longleftrightarrow> i < ?p"
  proof
    assume Pi: "P (xs ! i)"
    show "i < ?p"
    proof (rule ccontr)
      assume "\<not> i < ?p"
      then have p: "?p \<le> i" by simp
      then have "\<not> P (xs ! ?p)" using i by (intro nth_length_takeWhile) simp
      moreover have "P (xs ! ?p)"
      proof (cases "?p = i")
        case True
        with Pi show ?thesis by metis
      next
        case False
        with p have "?p < i" by simp
        with i Pi assms show ?thesis by (simp add: sorted_wrt_iff_nth_less)
      qed
      ultimately show False ..
    qed
  next
    assume "i < ?p"
    then show "P (xs ! i)" by (metis nth_mem set_takeWhileD takeWhile_nth)
  qed
qed (auto simp: length_takeWhile_le)

end
