(* ===== verification/CPP_Strings.thy ===== *)
theory CPP_Strings
  imports KV_Prelude "HOL-Library.Sublist"
begin

text \<open>
  The string functions of the C++ standard library that the sources call:
  \<open>std::to_string\<close>, \<open>std::stoull\<close>, \<open>std::string::find\<close> and \<open>substr\<close>, with the
  facts about decimal numerals the components share (round trip, injectivity, the
  characters a numeral is made of).
\<close>

section \<open>Decimal numerals\<close>

definition digit_char :: "nat \<Rightarrow> char" where
  "digit_char d = char_of (48 + d)"

definition is_digit :: "char \<Rightarrow> bool" where
  "is_digit c \<longleftrightarrow> 48 \<le> (of_char c :: nat) \<and> (of_char c :: nat) \<le> 57"

definition is_space :: "char \<Rightarrow> bool" where
  "is_space c \<longleftrightarrow> of_char c = (32::nat) \<or> 9 \<le> (of_char c :: nat) \<and> (of_char c :: nat) \<le> 13"

fun to_string :: "nat \<Rightarrow> string" where
  "to_string n =
     (if n < 10 then [digit_char n] else to_string (n div 10) @ [digit_char (n mod 10)])"

declare to_string.simps [simp del]

fun digits_value :: "nat \<Rightarrow> string \<Rightarrow> nat" where
  "digits_value acc [] = acc"
| "digits_value acc (c # cs) =
     (if is_digit c then digits_value (10 * acc + (of_char c - 48)) cs else acc)"

text \<open>
  \<open>std::stoull\<close>: leading white space and a sign are accepted, the number ends at the
  first character that is not a digit, \<open>'-'\<close> negates modulo $2^{64}$, no digit at all
  is \<open>std::invalid_argument\<close> and a value that does not fit is \<open>std::out_of_range\<close>.
\<close>

definition stoull :: "string \<Rightarrow> kv_error + uint64" where
  "stoull s =
     (let t = dropWhile is_space s;
          neg = (t \<noteq> [] \<and> hd t = CHR ''-'');
          u = (if t \<noteq> [] \<and> (hd t = CHR ''-'' \<or> hd t = CHR ''+'') then tl t else t)
      in if u = [] \<or> \<not> is_digit (hd u) then Inl InvalidArgument
         else let v = digits_value 0 u in
           if v \<ge> 2 ^ 64 then Inl OutOfRange
           else Inr (if neg then - word_of_nat v else word_of_nat v))"

lemma of_digit_char: "d < 10 \<Longrightarrow> (of_char (digit_char d) :: nat) = 48 + d"
  by (simp add: digit_char_def of_char_of)

lemma is_digit_digit_char [simp]: "d < 10 \<Longrightarrow> is_digit (digit_char d)"
  by (simp add: is_digit_def of_digit_char)

lemma to_string_not_Nil [simp]: "to_string n \<noteq> []"
  by (subst to_string.simps) simp

lemma to_string_digits: "c \<in> set (to_string n) \<Longrightarrow> is_digit c"
proof (induction n rule: to_string.induct)
  case (1 n)
  then show ?case
    by (cases "n < 10") (auto simp: to_string.simps [of n])
qed

lemma numeral_no_newline: "CHR 0x0A \<notin> set (to_string n)"
  using to_string_digits [of "CHR 0x0A" n] by (auto simp: is_digit_def)

lemma digits_value_append:
  "\<forall>c\<in>set xs. is_digit c \<Longrightarrow> digits_value acc (xs @ ys) = digits_value (digits_value acc xs) ys"
  by (induction xs arbitrary: acc) auto

lemma digits_value_to_string:
  "digits_value acc (to_string n) = acc * 10 ^ length (to_string n) + n"
proof (induction n arbitrary: acc rule: to_string.induct)
  case (1 n)
  show ?case
  proof (cases "n < 10")
    case True
    then show ?thesis by (simp add: to_string.simps [of n] of_digit_char)
  next
    case False
    have "\<forall>c\<in>set (to_string (n div 10)). is_digit c"
      by (auto dest: to_string_digits)
    then have "digits_value acc (to_string n)
        = 10 * (acc * 10 ^ length (to_string (n div 10)) + n div 10) + n mod 10"
      using False "1.IH" by (simp add: to_string.simps [of n] digits_value_append of_digit_char)
    then show ?thesis
      using False by (simp add: to_string.simps [of n] algebra_simps)
  qed
qed

lemma to_string_inj: "to_string m = to_string n \<Longrightarrow> m = n"
  by (metis add_0 digits_value_to_string mult_zero_left)

lemma digits_value_stop:
  "rest = [] \<or> \<not> is_digit (hd rest) \<Longrightarrow> digits_value acc rest = acc"
  by (cases rest) auto

lemma is_digit_not_space: "is_digit c \<Longrightarrow> \<not> is_space c"
  by (auto simp: is_digit_def is_space_def)

lemma is_digit_not_sign: "is_digit c \<Longrightarrow> c \<noteq> CHR ''-'' \<and> c \<noteq> CHR ''+''"
  by (auto simp: is_digit_def)

text \<open>Parsing a printed numeral, whatever non-digit follows it.\<close>

lemma stoull_to_string:
  assumes "n < 2 ^ 64" and "rest = [] \<or> \<not> is_digit (hd rest)"
  shows "stoull (to_string n @ rest) = Inr (word_of_nat n)"
proof -
  obtain c cs where s: "to_string n = c # cs"
    by (cases "to_string n") auto
  have c: "is_digit c" using to_string_digits [of c n] s by simp
  have "\<forall>c\<in>set (to_string n). is_digit c" by (auto dest: to_string_digits)
  then have v: "digits_value 0 (to_string n @ rest) = n"
    using assms(2) by (simp add: digits_value_append digits_value_to_string digits_value_stop)
  show ?thesis
    using c is_digit_not_sign [OF c] is_digit_not_space [OF c] assms(1) v
    by (simp add: stoull_def Let_def s)
qed

corollary stoull_to_string_u64: "stoull (to_string (unat (w :: uint64))) = Inr w"
  using stoull_to_string [of "unat w" "[]"] unsigned_less [of w, where ?'a = nat] by simp

text \<open>\<open>std::stoi\<close>: as above for a 32-bit signed result, where a sign is applied before the range check.\<close>

definition stoi :: "string \<Rightarrow> kv_error + int" where
  "stoi s =
     (let t = dropWhile is_space s;
          neg = (t \<noteq> [] \<and> hd t = CHR ''-'');
          u = (if t \<noteq> [] \<and> (hd t = CHR ''-'' \<or> hd t = CHR ''+'') then tl t else t)
      in if u = [] \<or> \<not> is_digit (hd u) then Inl InvalidArgument
         else let v = (if neg then - int (digits_value 0 u) else int (digits_value 0 u)) in
           if v < - (2 ^ 31) \<or> v \<ge> 2 ^ 31 then Inl OutOfRange else Inr v)"

lemma to_string_head:
  obtains c cs where "to_string n = c # cs" "is_digit c" "\<not> is_space c" "c \<noteq> CHR ''-''" "c \<noteq> CHR ''+''"
proof -
  obtain c cs where s: "to_string n = c # cs"
    by (cases "to_string n") auto
  then have "is_digit c" using to_string_digits [of c n] by simp
  with s that is_digit_not_sign is_digit_not_space show ?thesis by blast
qed

lemma digits_value_all: "digits_value 0 (to_string n) = n"
  by (simp add: digits_value_to_string)

lemma to_string_length: "n < 10 ^ Suc k \<Longrightarrow> length (to_string n) \<le> Suc k"
proof (induction k arbitrary: n)
  case 0
  then show ?case by (simp add: to_string.simps [of n])
next
  case (Suc k)
  have "n div 10 < 10 ^ Suc k" using Suc.prems by (simp add: less_mult_imp_div_less mult.commute)
  from Suc.IH [OF this] show ?case by (cases "n < 10") (simp_all add: to_string.simps [of n])
qed

lemma to_string_length_u64: "length (to_string (unat (w :: uint64))) \<le> 20"
proof -
  have "LENGTH(64) = 64" by simp
  then have "unat w < 2 ^ 64" using unsigned_less [of w, where ?'a = nat] by (simp only:)
  also have "(2::nat) ^ 64 \<le> 10 ^ Suc 19" by simp
  finally have "unat w < 10 ^ Suc 19" .
  from to_string_length [OF this] show ?thesis by simp
qed

lemma stoi_to_string: "n < 2 ^ 31 \<Longrightarrow> stoi (to_string n) = Inr (int n)"
proof -
  assume n: "n < 2 ^ 31"
  obtain c cs where s: "to_string n = c # cs" "is_digit c" "\<not> is_space c" "c \<noteq> CHR ''-''" "c \<noteq> CHR ''+''"
    by (rule to_string_head)
  have "digits_value 0 (c # cs) = n" using digits_value_all [of n] s(1) by simp
  with s n show ?thesis by (simp add: stoi_def Let_def)
qed

section \<open>Searching and cutting\<close>

text \<open>\<open>s.find(c, pos)\<close>; \<open>None\<close> is \<open>npos\<close>.\<close>

definition find_char :: "string \<Rightarrow> char \<Rightarrow> nat \<Rightarrow> nat option" where
  "find_char s c pos =
     (let r = length (takeWhile (\<lambda>x. x \<noteq> c) (drop pos s))
      in if pos + r < length s then Some (pos + r) else None)"

text \<open>\<open>s.substr(pos, n)\<close> throws \<open>std::out_of_range\<close> when \<open>pos\<close> is past the end.\<close>

definition substr :: "string \<Rightarrow> nat \<Rightarrow> nat \<Rightarrow> kv_error + string" where
  "substr s pos n = (if length s < pos then Inl OutOfRange else Inr (take n (drop pos s)))"

lemma find_char_append:
  assumes "length xs = pos" "c \<notin> set ys"
  shows "find_char (xs @ ys @ c # zs) c pos = Some (pos + length ys)"
proof -
  have "takeWhile (\<lambda>x. x \<noteq> c) (ys @ c # zs) = ys"
    using assms(2) by (subst takeWhile_append2) auto
  with assms show ?thesis by (simp add: find_char_def)
qed

lemma find_char_None:
  assumes "c \<notin> set (drop pos s)"
  shows "find_char s c pos = None"
proof -
  have "takeWhile (\<lambda>x. x \<noteq> c) (drop pos s) = drop pos s"
    using assms by (auto intro: takeWhile_eq_all_conv [THEN iffD2])
  then show ?thesis unfolding find_char_def Let_def by (simp only:) simp
qed

lemma find_char_SomeD:
  assumes "find_char s c pos = Some i"
  shows "pos \<le> i" "i < length s" "s ! i = c" "c \<notin> set (take (i - pos) (drop pos s))"
proof -
  let ?w = "takeWhile (\<lambda>x. x \<noteq> c) (drop pos s)"
  have i: "i = pos + length ?w" "i < length s"
    using assms by (auto simp: find_char_def Let_def split: if_splits)
  then show "pos \<le> i" "i < length s" by auto
  have "length ?w < length (drop pos s)" using i by auto
  then have "drop pos s ! length ?w = c" using nth_length_takeWhile by blast
  then show "s ! i = c" using i by simp
  have "take (i - pos) (drop pos s) = ?w"
    using i by (simp add: takeWhile_eq_take [symmetric])
  then show "c \<notin> set (take (i - pos) (drop pos s))"
    by (auto dest: set_takeWhileD)
qed

lemma find_char_extend:
  "find_char bs c 0 = Some pos \<Longrightarrow> find_char (bs @ ys) c 0 = Some pos \<and> pos < length bs"
proof -
  assume a: "find_char bs c 0 = Some pos"
  note d = find_char_SomeD [OF a]
  have "bs = take pos bs @ c # drop (Suc pos) bs" using id_take_nth_drop [of pos bs] d by simp
  then have "bs @ ys = [] @ take pos bs @ c # (drop (Suc pos) bs @ ys)" by simp
  moreover have "find_char ([] @ take pos bs @ c # (drop (Suc pos) bs @ ys)) c 0 = Some (0 + length (take pos bs))"
    using d by (intro find_char_append) auto
  ultimately have "find_char (bs @ ys) c 0 = Some (0 + length (take pos bs))" by (simp only:)
  with d show ?thesis by simp
qed

text \<open>\<open>s.find_first_not_of(cs)\<close> and \<open>s.find_last_not_of(cs)\<close>; \<open>None\<close> is \<open>npos\<close>.\<close>

definition find_first_not_of :: "string \<Rightarrow> string \<Rightarrow> nat option" where
  "find_first_not_of s cs =
     (let r = length (takeWhile (\<lambda>c. c \<in> set cs) s) in if r < length s then Some r else None)"

definition find_last_not_of :: "string \<Rightarrow> string \<Rightarrow> nat option" where
  "find_last_not_of s cs =
     (let r = length (takeWhile (\<lambda>c. c \<in> set cs) (rev s)) in if r < length s then Some (length s - 1 - r) else None)"

text \<open>Cutting a string between the two positions is stripping the characters at both ends.\<close>

definition strip :: "string \<Rightarrow> string \<Rightarrow> string" where
  "strip cs s = rev (dropWhile (\<lambda>c. c \<in> set cs) (rev (dropWhile (\<lambda>c. c \<in> set cs) s)))"

lemma find_not_of_strip:
  "(case find_first_not_of s cs of
      None \<Rightarrow> []
    | Some start \<Rightarrow> (case find_last_not_of s cs of
         None \<Rightarrow> [] | Some stop \<Rightarrow> take (stop - start + 1) (drop start s))) = strip cs s"
proof -
  let ?P = "\<lambda>c. c \<in> set cs"
  define a where "a = takeWhile ?P s"
  define b where "b = dropWhile ?P s"
  have s: "s = a @ b" by (simp add: a_def b_def)
  show ?thesis
  proof (cases "b = []")
    case True
    then have "find_first_not_of s cs = None" by (auto simp: find_first_not_of_def Let_def b_def dropWhile_eq_Nil_conv takeWhile_eq_all_conv [THEN iffD2])
    with True show ?thesis by (simp add: strip_def b_def [symmetric])
  next
    case False
    define t where "t = takeWhile ?P (rev b)"
    define u where "u = dropWhile ?P (rev b)"
    have tu: "rev b = t @ u" by (simp add: t_def u_def)
    have "\<not> ?P (hd b)" using False unfolding b_def by (rule hd_dropWhile)
    moreover have "hd b \<in> set (rev b)" using False by simp
    ultimately have tw: "takeWhile ?P (rev s) = t" "dropWhile ?P (rev b) = u"
      unfolding s t_def u_def by (auto simp: takeWhile_append1)
    have "u \<noteq> []" using \<open>\<not> ?P (hd b)\<close> \<open>hd b \<in> set (rev b)\<close> by (auto simp: u_def dropWhile_eq_Nil_conv)
    have len: "length b = length t + length u" using tu by (metis length_append length_rev)
    have first: "find_first_not_of s cs = Some (length a)"
      using False arg_cong [OF s, of length] unfolding find_first_not_of_def a_def [symmetric] by simp
    have "length u > 0" using \<open>u \<noteq> []\<close> by simp
    then have last: "find_last_not_of s cs = Some (length a + length u - 1)"
      using len tw by (simp add: find_last_not_of_def s)
    have "take (length u) b = rev u" using tu by (metis append_eq_conv_conj length_rev rev_append rev_rev_ident)
    moreover have "length a + length u - 1 - length a + 1 = length u" using \<open>length u > 0\<close> by simp
    moreover have "strip cs s = rev u" using tw(2) unfolding strip_def b_def by simp
    ultimately show ?thesis using first last s by simp
  qed
qed

lemma strip_id: "s \<noteq> [] \<Longrightarrow> hd s \<notin> set cs \<Longrightarrow> last s \<notin> set cs \<Longrightarrow> strip cs s = s"
proof -
  assume "s \<noteq> []" "hd s \<notin> set cs" "last s \<notin> set cs"
  then have "dropWhile (\<lambda>c. c \<in> set cs) s = s" "dropWhile (\<lambda>c. c \<in> set cs) (rev s) = rev s"
    by (simp_all only: dropWhile_eq_self_iff hd_rev rev_is_Nil_conv) simp_all
  then show ?thesis by (simp add: strip_def)
qed

lemma strip_Nil [simp]: "strip cs [] = []"
  by (simp add: strip_def)

lemma strip_idem [simp]: "strip cs (strip cs s) = strip cs s"
proof (cases "strip cs s = []")
  case False
  define b where "b = dropWhile (\<lambda>c. c \<in> set cs) s"
  define u where "u = dropWhile (\<lambda>c. c \<in> set cs) (rev b)"
  have eq: "strip cs s = rev u" by (simp add: strip_def u_def b_def)
  with False have u: "u \<noteq> []" "b \<noteq> []" by (auto simp: u_def)
  have "hd u \<notin> set cs" using u(1) hd_dropWhile [of "\<lambda>c. c \<in> set cs" "rev b"] unfolding u_def by blast
  moreover have "suffix u (rev b)" unfolding u_def by (rule suffix_dropWhile)
  then have "last u = hd b" using u by (metis hd_rev last_rev rev_rev_ident suffix_def last_appendR)
  moreover have "hd b \<notin> set cs" using u(2) hd_dropWhile [of "\<lambda>c. c \<in> set cs" s] unfolding b_def by blast
  ultimately show ?thesis using u unfolding eq by (intro strip_id) (simp_all add: hd_rev last_rev)
qed (simp)

section \<open>File names of tables\<close>

text \<open>
  Tables are found again by searching for \<open>_<id>.\<close> in their file name.  The search is
  exact as soon as the directory part does not itself contain such a pattern.
\<close>

definition id_pattern :: "nat \<Rightarrow> string" where
  "id_pattern n = ''_'' @ to_string n @ ''.''"

definition dir_ok :: "string \<Rightarrow> bool" where
  "dir_ok dir \<longleftrightarrow> (\<forall>n. \<not> sublist (id_pattern n) dir)"

lemma dir_ok_no_underscore: "CHR ''_'' \<notin> set dir \<Longrightarrow> dir_ok dir"
  by (auto simp: dir_ok_def id_pattern_def sublist_def)

lemma dir_ok_no_dot: "CHR ''.'' \<notin> set dir \<Longrightarrow> dir_ok dir"
  by (auto simp: dir_ok_def id_pattern_def sublist_def)

lemma digits_dot_unique:
  assumes "\<forall>c\<in>set xs. is_digit c" "\<forall>c\<in>set ys. is_digit c"
    and "xs @ CHR ''.'' # as = ys @ CHR ''.'' # bs"
  shows "xs = ys"
proof -
  have dot: "\<not> is_digit CHR ''.''" by (simp add: is_digit_def)
  have "takeWhile is_digit (xs @ CHR ''.'' # as) = xs"
    using assms(1) dot by (subst takeWhile_append2) auto
  moreover have "takeWhile is_digit (ys @ CHR ''.'' # bs) = ys"
    using assms(2) dot by (subst takeWhile_append2) auto
  ultimately show ?thesis using assms(3) by metis
qed

lemma id_pattern_in_base:
  "sublist (id_pattern i) (''sstable_'' @ to_string j @ ''.bin'') \<longleftrightarrow> i = j"
proof
  assume "sublist (id_pattern i) (''sstable_'' @ to_string j @ ''.bin'')"
  then obtain ps ss where eq:
    "''sstable'' @ CHR ''_'' # (to_string j @ ''.bin'')
       = ps @ CHR ''_'' # (to_string i @ CHR ''.'' # ss)"
    by (auto simp: sublist_def id_pattern_def)
  have nu: "CHR ''_'' \<notin> set (to_string j @ ''.bin'')"
    using to_string_digits [of "CHR ''_''" j] by (auto simp: is_digit_def)
  have nop: "CHR ''_'' \<notin> set ''sstable''" by simp
  have "to_string j @ ''.bin'' = to_string i @ CHR ''.'' # ss"
    using eq unfolding append_Cons_eq_iff [OF nop nu] by (rule conjunct2)
  then have "to_string j @ CHR ''.'' # ''bin'' = to_string i @ CHR ''.'' # ss" by simp
  then have "to_string j = to_string i"
    using digits_dot_unique to_string_digits by blast
  then show "i = j" by (rule to_string_inj [symmetric])
next
  assume "i = j"
  then have "''sstable_'' @ to_string j @ ''.bin'' = ''sstable'' @ id_pattern i @ ''bin''"
    by (simp add: id_pattern_def)
  then show "sublist (id_pattern i) (''sstable_'' @ to_string j @ ''.bin'')"
    by (metis sublist_appendI)
qed

lemma id_pattern_cross:
  assumes "id_pattern i = xs @ ys" "xs \<noteq> []" "ys \<noteq> []"
  shows "is_digit (hd ys) \<or> hd ys = CHR ''.''"
proof -
  have "hd ys \<in> set (tl (id_pattern i))"
    using assms by (cases xs; cases ys) auto
  then show ?thesis
    by (auto simp: id_pattern_def dest: to_string_digits)
qed

lemma id_pattern_in_path:
  assumes "dir_ok dir"
  shows "sublist (id_pattern i) (dir @ ''sstable_'' @ to_string j @ ''.bin'') \<longleftrightarrow> i = j"
proof
  define base where "base = ''sstable_'' @ to_string j @ ''.bin''"
  assume "sublist (id_pattern i) (dir @ ''sstable_'' @ to_string j @ ''.bin'')"
  then have "sublist (id_pattern i) dir \<or> sublist (id_pattern i) base \<or>
      (\<exists>xs ys. id_pattern i = xs @ ys \<and> suffix xs dir \<and> prefix ys base)"
    by (simp only: base_def [symmetric] sublist_append)
  moreover have "sublist (id_pattern i) base"
    if "id_pattern i = xs @ ys" "suffix xs dir" "prefix ys base" for xs ys
  proof (cases "xs = [] \<or> ys = []")
    case True
    with that have "suffix (id_pattern i) dir \<or> prefix (id_pattern i) base" by auto
    then have "sublist (id_pattern i) dir \<or> sublist (id_pattern i) base"
      by (metis suffix_imp_sublist prefix_imp_sublist)
    with assms show ?thesis by (simp add: dir_ok_def)
  next
    case False
    with that have "hd ys = CHR ''s''" by (cases ys) (auto simp: base_def)
    with id_pattern_cross [OF that(1)] False show ?thesis by (auto simp: is_digit_def)
  qed
  ultimately have "sublist (id_pattern i) base"
    using assms by (auto simp: dir_ok_def)
  then show "i = j"
    unfolding base_def by (simp only: id_pattern_in_base)
next
  assume "i = j"
  then have "sublist (id_pattern i) (''sstable_'' @ to_string j @ ''.bin'')"
    using id_pattern_in_base by blast
  then show "sublist (id_pattern i) (dir @ ''sstable_'' @ to_string j @ ''.bin'')"
    by (meson sublist_append)
qed

end
