(* ===== verification/KV_Types.thy ===== *)
theory KV_Types
  imports CPP_Strings
begin

text \<open>
  The data types of \<open>engine/include/types.h\<close>, the rule by which a read keeps the
  newer of two versions of a key, and the contract of a component that can be read
  as a sorted sequence of versions (the memtable and an SSTable).

  Both enumerations have the underlying type \<open>uint8_t\<close> and are read back from disk
  by \<open>static_cast\<close>, so a value outside the listed enumerators is possible; it is the
  last constructor.
\<close>

datatype operation =
    Op_GET | Op_PUT | Op_DELETE | Op_LS | Op_FLUSH | Op_CLEAR | Op_ERROR
  | Op_RAW char

datatype entry_type = Et_PUT | Et_DELETE | Et_RAW char

record entry =
  ent_value :: string
  ent_seq :: uint64
  ent_type :: entry_type

record sstable_entry =
  se_key :: string
  se_value :: string
  se_seq :: uint64
  se_type :: entry_type

record index_entry =
  ie_key :: string
  ie_offset :: uint64

record sstable_meta =
  meta_id :: uint64
  minKey :: string
  maxKey :: string
  maxSeq :: uint64
  sizeBytes :: uint64
  meta_level :: uint32

fun byte_of_operation :: "operation \<Rightarrow> char" where
  "byte_of_operation Op_GET = char_of (0::nat)"
| "byte_of_operation Op_PUT = char_of (1::nat)"
| "byte_of_operation Op_DELETE = char_of (2::nat)"
| "byte_of_operation Op_LS = char_of (3::nat)"
| "byte_of_operation Op_FLUSH = char_of (4::nat)"
| "byte_of_operation Op_CLEAR = char_of (5::nat)"
| "byte_of_operation Op_ERROR = char_of (6::nat)"
| "byte_of_operation (Op_RAW c) = c"

definition operation_of_byte :: "char \<Rightarrow> operation" where
  "operation_of_byte c =
     (let n = (of_char c :: nat) in
      if n = 0 then Op_GET else if n = 1 then Op_PUT else if n = 2 then Op_DELETE
      else if n = 3 then Op_LS else if n = 4 then Op_FLUSH else if n = 5 then Op_CLEAR
      else if n = 6 then Op_ERROR else Op_RAW c)"

fun byte_of_type :: "entry_type \<Rightarrow> char" where
  "byte_of_type Et_PUT = char_of (0::nat)"
| "byte_of_type Et_DELETE = char_of (1::nat)"
| "byte_of_type (Et_RAW c) = c"

definition type_of_byte :: "char \<Rightarrow> entry_type" where
  "type_of_byte c =
     (let n = (of_char c :: nat) in
      if n = 0 then Et_PUT else if n = 1 then Et_DELETE else Et_RAW c)"

definition named_op :: "operation \<Rightarrow> bool" where
  "named_op p \<longleftrightarrow> (\<forall>c. p \<noteq> Op_RAW c)"

definition named_type :: "entry_type \<Rightarrow> bool" where
  "named_type t \<longleftrightarrow> t = Et_PUT \<or> t = Et_DELETE"

lemma operation_of_byte_of_operation [simp, codec_simps]:
  "named_op p \<Longrightarrow> operation_of_byte (byte_of_operation p) = p"
  by (cases p) (auto simp: named_op_def operation_of_byte_def Let_def of_char_of)

lemma char_of_eqI: "(of_char c :: nat) = n \<Longrightarrow> char_of n = c"
  by auto

lemma byte_of_operation_of_byte [simp, codec_simps]:
  "byte_of_operation (operation_of_byte c) = c"
  by (simp add: operation_of_byte_def Let_def char_of_eqI)

lemma type_of_byte_of_type [simp, codec_simps]:
  "named_type t \<Longrightarrow> type_of_byte (byte_of_type t) = t"
  by (auto simp: named_type_def type_of_byte_def Let_def of_char_of)

lemma byte_of_type_of_byte [simp, codec_simps]: "byte_of_type (type_of_byte c) = c"
  by (simp add: type_of_byte_def Let_def char_of_eqI)

lemma byte_of_type_PUT_iff:
  "named_type t \<Longrightarrow> byte_of_type t = byte_of_type u \<Longrightarrow> named_type u \<Longrightarrow> t = u"
  by (metis type_of_byte_of_type)

text \<open>A version the writer thread can have produced: a value, or a tombstone without one.\<close>

definition entry_ok :: "entry \<Rightarrow> bool" where
  "entry_ok e \<longleftrightarrow> ent_type e = Et_PUT \<or> ent_type e = Et_DELETE \<and> ent_value e = []"

lemma entry_ok_named: "entry_ok e \<Longrightarrow> named_type (ent_type e)"
  by (auto simp: entry_ok_def named_type_def)

section \<open>Keeping the newer version\<close>

text \<open>
  \<open>if (record && (!candidate || record->seq > candidate->seq)) candidate = *record;\<close>
\<close>

fun newer :: "entry option \<Rightarrow> entry option \<Rightarrow> entry option" where
  "newer cand None = cand"
| "newer None (Some r) = Some r"
| "newer (Some c) (Some r) = (if ent_seq r > ent_seq c then Some r else Some c)"

lemma newer_None [simp]: "newer None r = r"
  by (cases r) auto

lemma newer_eq_None_iff [simp]: "newer c r = None \<longleftrightarrow> c = None \<and> r = None"
  by (cases c; cases r) auto

lemma newer_assoc: "newer (newer a b) c = newer a (newer b c)"
  by (cases a; cases b; cases c) auto

lemma foldl_newer: "foldl newer c rs = newer c (foldl newer None rs)"
proof (induction rs arbitrary: c)
  case (Cons r rs)
  show ?case using Cons [of "newer c r"] Cons [of "newer None r"] by (simp add: newer_assoc)
qed simp

lemma foldl_newer_all_None: "\<forall>r\<in>set rs. r = None \<Longrightarrow> foldl newer c rs = c"
  by (induction rs arbitrary: c) auto

lemma foldl_newer_mem:
  "foldl newer c rs = Some e \<Longrightarrow> c = Some e \<or> Some e \<in> set rs"
proof (induction rs arbitrary: c)
  case (Cons r rs)
  then have "newer c r = Some e \<or> Some e \<in> set rs" by simp
  then show ?case by (cases c; cases r) (auto split: if_splits)
qed simp

lemma newer_ge:
  "newer c r = Some e \<Longrightarrow> c = Some x \<or> r = Some x \<Longrightarrow> ent_seq x \<le> ent_seq e"
  by (cases c; cases r) (auto split: if_splits)

text \<open>The fold returns a version with the highest sequence number.\<close>

lemma foldl_newer_max:
  "foldl newer c rs = Some e \<Longrightarrow> Some x \<in> insert c (set rs) \<Longrightarrow> ent_seq x \<le> ent_seq e"
proof (induction rs arbitrary: c x)
  case Nil
  then show ?case by auto
next
  case (Cons r rs)
  have e: "foldl newer (newer c r) rs = Some e" using Cons.prems(1) by simp
  show ?case
  proof (cases "Some x \<in> set rs")
    case True
    then show ?thesis using Cons.IH [OF e] by auto
  next
    case False
    with Cons.prems(2) have x: "c = Some x \<or> r = Some x" by auto
    then obtain y where y: "newer c r = Some y" by (cases "newer c r") auto
    then have "ent_seq x \<le> ent_seq y" using newer_ge x by blast
    also have "\<dots> \<le> ent_seq e" using Cons.IH [OF e] y by auto
    finally show ?thesis .
  qed
qed

section \<open>The contract of a readable run of versions\<close>

text \<open>
  A component the engine reads from: \<open>lookup\<close> is its point query, \<open>data\<close> what an
  iteration over it yields.  The point query must agree with the iteration and the
  iteration must be in key order.
\<close>

locale entry_source =
  fixes lookup :: "'t \<Rightarrow> string \<Rightarrow> kv_error + entry option"
    and data :: "'t \<Rightarrow> (string \<times> entry) list"
    and invar :: "'t \<Rightarrow> bool"
  assumes data_sorted: "invar t \<Longrightarrow> sorted_keys (data t)"
    and lookup_data: "invar t \<Longrightarrow> lookup t k = Inr (map_of (data t) k)"
begin

lemma lookup_total: "invar t \<Longrightarrow> \<exists>r. lookup t k = Inr r"
  by (simp add: lookup_data)

lemma lookup_hit: "invar t \<Longrightarrow> lookup t k = Inr (Some e) \<longleftrightarrow> (k, e) \<in> set (data t)"
  by (simp add: lookup_data data_sorted sorted_keys_map_of)

lemma lookup_miss: "invar t \<Longrightarrow> lookup t k = Inr None \<longleftrightarrow> k \<notin> fst ` set (data t)"
  by (simp add: lookup_data map_of_eq_None_iff)

text \<open>Outside the range from the first to the last key a point query finds nothing.\<close>

lemma lookup_out_of_range:
  assumes "invar t" "data t \<noteq> []" "k < fst (hd (data t)) \<or> fst (last (data t)) < k"
  shows "lookup t k = Inr None"
proof -
  have "k \<notin> fst ` set (data t)"
    using sorted_keys_range [OF data_sorted [OF assms(1)]] assms(3) by fastforce
  with assms(1) show ?thesis by (simp add: lookup_miss)
qed

end

end
