(* ===== verification/MemTable.thy ===== *)
theory MemTable
  imports KV_Types
begin

text \<open>
  The memtable (\<open>engine/src/memtable.cpp\<close>): a \<open>std::map\<close> from keys to versions.
  The shared mutex makes every method atomic, so each one is a function on the state.
  The lemmas give the lookup after every operation, keep the iteration in key order,
  and show that the copy \<open>checkFlush\<close> makes of a memtable is the same memtable.
\<close>

record memtable =
  mt_map :: "(string \<times> entry) list"

definition mt_new :: memtable where
  "mt_new = \<lparr>mt_map = []\<rparr>"

definition mt_put :: "string \<Rightarrow> string \<Rightarrow> uint64 \<Rightarrow> memtable \<Rightarrow> bool \<times> memtable" where
  "mt_put key val seqNumber t =
     (True, t\<lparr>mt_map := smap_put key
                \<lparr>ent_value = val, ent_seq = seqNumber, ent_type = Et_PUT\<rparr> (mt_map t)\<rparr>)"

definition mt_del :: "string \<Rightarrow> uint64 \<Rightarrow> memtable \<Rightarrow> bool \<times> memtable" where
  "mt_del key seqNumber t =
     (let existed = (case map_of (mt_map t) key of
                       None \<Rightarrow> False
                     | Some e \<Rightarrow> ent_type e \<noteq> Et_DELETE)
      in (existed, t\<lparr>mt_map := smap_put key
            \<lparr>ent_value = '''', ent_seq = seqNumber, ent_type = Et_DELETE\<rparr> (mt_map t)\<rparr>))"

definition mt_get :: "memtable \<Rightarrow> string \<Rightarrow> entry option" where
  "mt_get t key = map_of (mt_map t) key"

definition mt_snapshot :: "memtable \<Rightarrow> (string \<times> entry) list" where
  "mt_snapshot t = mt_map t"

definition mt_clear :: "memtable \<Rightarrow> memtable" where
  "mt_clear t = t\<lparr>mt_map := []\<rparr>"

text \<open>The size estimate: 17 bytes of bookkeeping, the key, and the value of a PUT.\<close>

fun entries_size :: "(string \<times> entry) list \<Rightarrow> nat" where
  "entries_size [] = 0"
| "entries_size ((key, e) # m) =
     4 + 2 + 2 + 1 + 8 + length key
     + (if ent_type e = Et_PUT then length (ent_value e) else 0) + entries_size m"

definition mt_getSize :: "memtable \<Rightarrow> nat" where
  "mt_getSize t = entries_size (mt_map t)"

text \<open>
  The loop in \<open>checkFlush\<close> that rebuilds the snapshot as the immutable memtable:
  a PUT is put again, anything else is deleted.
\<close>

fun mt_copy_into :: "(string \<times> entry) list \<Rightarrow> memtable \<Rightarrow> memtable" where
  "mt_copy_into [] t = t"
| "mt_copy_into ((key, e) # m) t =
     mt_copy_into m
       (if ent_type e = Et_PUT then snd (mt_put key (ent_value e) (ent_seq e) t)
        else snd (mt_del key (ent_seq e) t))"

lemmas mt_defs = mt_new_def mt_put_def mt_del_def mt_get_def mt_snapshot_def mt_clear_def

section \<open>Invariant and lookups\<close>

definition mt_inv :: "memtable \<Rightarrow> bool" where
  "mt_inv t \<longleftrightarrow> sorted_keys (mt_map t) \<and> (\<forall>(k, e)\<in>set (mt_map t). entry_ok e)"

lemma mt_inv_new [simp]: "mt_inv mt_new"
  by (simp add: mt_inv_def mt_new_def)

lemma mt_inv_put [simp]: "mt_inv t \<Longrightarrow> mt_inv (snd (mt_put k v n t))"
  by (auto simp: mt_inv_def mt_put_def entry_ok_def dest!: set_smap_put)

lemma mt_inv_del [simp]: "mt_inv t \<Longrightarrow> mt_inv (snd (mt_del k n t))"
  by (auto simp: mt_inv_def mt_del_def Let_def entry_ok_def dest!: set_smap_put)

lemma mt_inv_clear [simp]: "mt_inv (mt_clear t)"
  by (simp add: mt_inv_def mt_clear_def)

lemma mt_get_put [simp]:
  "mt_get (snd (mt_put k v n t)) j =
     (if j = k then Some \<lparr>ent_value = v, ent_seq = n, ent_type = Et_PUT\<rparr> else mt_get t j)"
  by (simp add: mt_defs)

lemma mt_get_del [simp]:
  "mt_get (snd (mt_del k n t)) j =
     (if j = k then Some \<lparr>ent_value = '''', ent_seq = n, ent_type = Et_DELETE\<rparr> else mt_get t j)"
  by (simp add: mt_defs)

lemma mt_get_clear [simp]: "mt_get (mt_clear t) j = None"
  by (simp add: mt_defs)

lemma mt_get_new [simp]: "mt_get mt_new j = None"
  by (simp add: mt_defs)

interpretation mt: entry_source "\<lambda>t k. Inr (mt_get t k)" mt_snapshot mt_inv
  by unfold_locales (simp_all add: mt_inv_def mt_get_def mt_snapshot_def)

section \<open>The copy made by checkFlush\<close>

lemma mt_copy_into_snoc:
  assumes "sorted_keys (mt_map t @ m)" "\<forall>(k, e)\<in>set m. entry_ok e"
  shows "mt_map (mt_copy_into m t) = mt_map t @ m"
  using assms
proof (induction m arbitrary: t)
  case (Cons p m)
  obtain k e where p: "p = (k, e)" by (cases p)
  have less: "\<forall>x\<in>set (mt_map t). fst x < k"
    using Cons.prems(1) by (auto simp: p sorted_wrt_append)
  define t' where "t' = (if ent_type e = Et_PUT then snd (mt_put k (ent_value e) (ent_seq e) t)
        else snd (mt_del k (ent_seq e) t))"
  have ok: "entry_ok e" using Cons.prems(2) by (simp add: p)
  have t': "mt_map t' = mt_map t @ [(k, e)]"
    using ok by (auto simp: t'_def mt_put_def mt_del_def Let_def smap_put_snoc [OF less] entry_ok_def)
  have "mt_map (mt_copy_into m t') = mt_map t' @ m"
    using Cons.prems t' by (intro Cons.IH) (auto simp: p)
  then show ?case by (simp add: p t' t'_def [symmetric])
qed simp

lemma mt_copy_snapshot: "mt_inv t \<Longrightarrow> mt_copy_into (mt_snapshot t) mt_new = t"
  using mt_copy_into_snoc [of mt_new "mt_map t"]
  by (cases t, cases "mt_copy_into (mt_map t) mt_new")
     (auto simp: mt_inv_def mt_snapshot_def mt_new_def)

section \<open>The size estimate\<close>

lemma entries_size_put_new:
  "map_of m k = None \<Longrightarrow> entries_size (smap_put k e m) =
     entries_size m + 17 + length k + (if ent_type e = Et_PUT then length (ent_value e) else 0)"
  by (induction k e m rule: smap_put.induct) auto

lemma entries_size_ge: "17 * length m \<le> entries_size m"
  by (induction m rule: entries_size.induct) auto

lemma mt_getSize_clear [simp]: "mt_getSize (mt_clear t) = 0"
  by (simp add: mt_getSize_def mt_clear_def)

section \<open>Properties\<close>

text \<open>
  The memtable is a map from keys to versions: every operation keeps the invariant
  (keys in strictly increasing order, tombstones without a value), and a lookup after
  \<open>put\<close>, \<open>del\<close> and \<open>clear\<close> returns what the last write of that key stored.  \<open>del\<close>
  reports whether a live value was there, and rebuilding a memtable from its own snapshot,
  as \<open>checkFlush\<close> does, gives the same memtable.
\<close>

lemma memtable_refines_map:
  assumes "mt_inv t"
  shows "mt_inv (snd (mt_put k v n t)) \<and> mt_inv (snd (mt_del k n t)) \<and> mt_inv (mt_clear t)
    \<and> mt_get (snd (mt_put k v n t)) = (mt_get t)(k \<mapsto> \<lparr>ent_value = v, ent_seq = n, ent_type = Et_PUT\<rparr>)
    \<and> mt_get (snd (mt_del k n t)) = (mt_get t)(k \<mapsto> \<lparr>ent_value = [], ent_seq = n, ent_type = Et_DELETE\<rparr>)
    \<and> mt_get (mt_clear t) = Map.empty
    \<and> fst (mt_del k n t) = (\<exists>e. mt_get t k = Some e \<and> ent_type e = Et_PUT)
    \<and> mt_copy_into (mt_snapshot t) mt_new = t"
proof -
  have del: "ent_type e \<noteq> Et_DELETE \<longleftrightarrow> ent_type e = Et_PUT" if "map_of (mt_map t) k = Some e" for e
    using that assms map_of_SomeD by (fastforce simp: mt_inv_def entry_ok_def)
  then have "fst (mt_del k n t) = (\<exists>e. mt_get t k = Some e \<and> ent_type e = Et_PUT)"
    by (auto simp: mt_del_def mt_get_def Let_def split: option.splits)
  with assms show ?thesis by (auto simp: mt_copy_snapshot)
qed

lemma memtable_refines_map_example:
  "fst (mt_del [CHR 0x61] 2 (snd (mt_put [CHR 0x61] [CHR 0x62] 1 mt_new))) \<and>
   mt_get (snd (mt_del [CHR 0x61] 2 (snd (mt_put [CHR 0x61] [CHR 0x62] 1 mt_new)))) [CHR 0x61] =
     Some \<lparr>ent_value = [], ent_seq = 2, ent_type = Et_DELETE\<rparr>"
  using memtable_refines_map [of "snd (mt_put [CHR 0x61] [CHR 0x62] 1 mt_new)" "[CHR 0x61]" "[]" 2] by simp

end
