(* ===== verification/LRU_Cache.thy ===== *)
theory LRU_Cache
  imports KV_Types "HOL-Library.AList"
begin

text \<open>
  The read cache (\<open>engine/src/lru_cache.cpp\<close>): a recency list of keys and a hash map
  from keys to versions and their list position.  A list node is identified by its key,
  since the list never holds a key twice (part of the invariant); \<open>splice\<close> to the front
  is then removing the key and consing it.  Erasing from an empty list is undefined
  behaviour and a value of the model.

  The locale states what the storage engine relies on of any cache: it never invents
  an entry, and it forgets a key that is invalidated.
\<close>

section \<open>What a cache promises its client\<close>

locale read_cache =
  fixes contents :: "'c \<Rightarrow> string \<Rightarrow> entry option"
    and cget :: "string \<Rightarrow> 'c \<Rightarrow> entry option \<times> 'c"
    and cput :: "string \<Rightarrow> entry \<Rightarrow> 'c \<Rightarrow> kv_error + 'c"
    and cinvalidate :: "string \<Rightarrow> 'c \<Rightarrow> 'c"
    and cclear :: "'c \<Rightarrow> 'c"
    and invar :: "'c \<Rightarrow> bool"
  assumes get_contents: "invar c \<Longrightarrow> fst (cget k c) = contents c k"
    and get_frame: "invar c \<Longrightarrow> contents (snd (cget k c)) = contents c"
    and get_invar: "invar c \<Longrightarrow> invar (snd (cget k c))"
    and put_ok: "invar c \<Longrightarrow> \<exists>c'. cput k e c = Inr c' \<and> invar c'
                   \<and> contents c' k = Some e
                   \<and> (\<forall>j. j \<noteq> k \<longrightarrow> contents c' j = None \<or> contents c' j = contents c j)"
    and invalidate_contents: "invar c \<Longrightarrow> contents (cinvalidate k c) = (contents c)(k := None)"
    and invalidate_invar: "invar c \<Longrightarrow> invar (cinvalidate k c)"
    and clear_contents: "contents (cclear c) = Map.empty"
    and clear_invar: "invar c \<Longrightarrow> invar (cclear c)"
begin

text \<open>A cache is coherent with a backing store when every hit is what the store holds.\<close>

definition coherent :: "'c \<Rightarrow> (string \<Rightarrow> entry option) \<Rightarrow> bool" where
  "coherent c b \<longleftrightarrow> (\<forall>k e. contents c k = Some e \<longrightarrow> b k = Some e)"

lemma coherent_get: "invar c \<Longrightarrow> coherent c b \<Longrightarrow> coherent (snd (cget k c)) b"
  by (simp add: coherent_def get_frame)

lemma coherent_hit: "invar c \<Longrightarrow> coherent c b \<Longrightarrow> fst (cget k c) = Some e \<Longrightarrow> b k = Some e"
  by (simp add: coherent_def get_contents)

lemma coherent_put:
  assumes "invar c" "coherent c b" "b k = Some e" "cput k e c = Inr c'"
  shows "invar c' \<and> coherent c' b"
proof -
  obtain d where "cput k e c = Inr d" "invar d" "contents d k = Some e"
    and rest: "\<forall>j. j \<noteq> k \<longrightarrow> contents d j = None \<or> contents d j = contents c j"
    using put_ok [OF assms(1)] by blast
  with assms(4) have d: "d = c'" "invar c'" "contents c' k = Some e" by auto
  have "b j = Some x" if "contents c' j = Some x" for j x
  proof (cases "j = k")
    case True
    with that d assms(3) show ?thesis by simp
  next
    case False
    with rest d(1) that have "contents c j = Some x" by auto
    with assms(2) show ?thesis by (simp add: coherent_def)
  qed
  with d(2) show ?thesis by (simp add: coherent_def)
qed

text \<open>Invalidating a key before its value changes keeps the cache coherent with the new store.\<close>

lemma coherent_invalidate:
  assumes "invar c" "coherent c b" "\<And>j. j \<noteq> k \<Longrightarrow> b' j = b j"
  shows "coherent (cinvalidate k c) b'"
  using assms by (auto simp: coherent_def invalidate_contents)

lemma coherent_clear: "coherent (cclear c) b"
  by (simp add: coherent_def clear_contents)

end

section \<open>The LRU cache\<close>

record lru_cache =
  lru_capacity :: nat
  lru_list :: "string list"
  lru_map :: "(string \<times> entry) list"

definition lru_new :: "nat \<Rightarrow> lru_cache" where
  "lru_new capacity = \<lparr>lru_capacity = capacity, lru_list = [], lru_map = []\<rparr>"

definition lru_get :: "string \<Rightarrow> lru_cache \<Rightarrow> entry option \<times> lru_cache" where
  "lru_get key c =
     (case map_of (lru_map c) key of
        None \<Rightarrow> (None, c)
      | Some e \<Rightarrow> (Some e, c\<lparr>lru_list := key # remove1 key (lru_list c)\<rparr>))"

definition lru_put :: "string \<Rightarrow> entry \<Rightarrow> lru_cache \<Rightarrow> kv_error + lru_cache" where
  "lru_put key e c =
     (case map_of (lru_map c) key of
        Some _ \<Rightarrow> Inr (c\<lparr>lru_map := AList.update key e (lru_map c),
                        lru_list := key # remove1 key (lru_list c)\<rparr>)
      | None \<Rightarrow>
          (let insert_front = (\<lambda>d. d\<lparr>lru_list := key # lru_list d,
                                     lru_map := AList.update key e (lru_map d)\<rparr>)
           in if length (lru_map c) \<ge> lru_capacity c then
                if lru_list c = [] then Inl UndefinedBehaviour
                else Inr (insert_front (c\<lparr>lru_map := AList.delete (last (lru_list c)) (lru_map c),
                                          lru_list := butlast (lru_list c)\<rparr>))
              else Inr (insert_front c)))"

definition lru_clear :: "lru_cache \<Rightarrow> lru_cache" where
  "lru_clear c = c\<lparr>lru_map := [], lru_list := []\<rparr>"

definition lru_invalidate :: "string \<Rightarrow> lru_cache \<Rightarrow> lru_cache" where
  "lru_invalidate key c =
     (case map_of (lru_map c) key of
        None \<Rightarrow> c
      | Some _ \<Rightarrow> c\<lparr>lru_list := remove1 key (lru_list c), lru_map := AList.delete key (lru_map c)\<rparr>)"

definition lru_size :: "lru_cache \<Rightarrow> nat" where
  "lru_size c = length (lru_map c)"

definition lru_contents :: "lru_cache \<Rightarrow> string \<Rightarrow> entry option" where
  "lru_contents c k = map_of (lru_map c) k"

section \<open>Invariant\<close>

definition lru_inv :: "lru_cache \<Rightarrow> bool" where
  "lru_inv c \<longleftrightarrow> 0 < lru_capacity c \<and> distinct (lru_list c) \<and> distinct (map fst (lru_map c))
     \<and> set (lru_list c) = fst ` set (lru_map c) \<and> length (lru_map c) \<le> lru_capacity c"

lemma lru_inv_new [simp]: "0 < n \<Longrightarrow> lru_inv (lru_new n)"
  by (simp add: lru_inv_def lru_new_def)

lemma lru_inv_length: "lru_inv c \<Longrightarrow> length (lru_list c) = length (lru_map c)"
  by (metis distinct_card length_map list.set_map lru_inv_def)

lemma lru_inv_mem: "lru_inv c \<Longrightarrow> k \<in> set (lru_list c) \<longleftrightarrow> map_of (lru_map c) k \<noteq> None"
  by (simp add: lru_inv_def map_of_eq_None_iff)

lemma set_move_front: "distinct xs \<Longrightarrow> k \<in> set xs \<Longrightarrow> set (k # remove1 k xs) = set xs"
  by auto

lemma lru_get_inv: "lru_inv c \<Longrightarrow> lru_inv (snd (lru_get k c))"
proof (cases "map_of (lru_map c) k")
  case (Some e)
  assume inv: "lru_inv c"
  with Some have "k \<in> set (lru_list c)" by (simp add: lru_inv_mem)
  with inv Some show ?thesis by (auto simp: lru_inv_def lru_get_def)
qed (simp add: lru_get_def)

lemma length_update_new: "map_of m k = None \<Longrightarrow> length (AList.update k v m) = Suc (length m)"
  by (induction m) auto

lemma length_update_old: "map_of m k \<noteq> None \<Longrightarrow> length (AList.update k v m) = length m"
  by (induction m) auto

lemma length_delete_present:
  "distinct (map fst m) \<Longrightarrow> map_of m k \<noteq> None \<Longrightarrow> Suc (length (AList.delete k m)) = length m"
proof (induction m)
  case (Cons p m)
  obtain a b where p: "p = (a, b)" by (cases p)
  show ?case
  proof (cases "a = k")
    case True
    with Cons.prems have "AList.delete k m = m" by (simp add: p delete_id)
    with True show ?thesis by (simp add: p)
  next
    case False
    with Cons show ?thesis by (simp add: p)
  qed
qed simp

lemma fst_set_delete: "fst ` set (AList.delete k m) = fst ` set m - {k}"
  by (metis delete_keys list.set_map set_removeAll)

lemma lru_invalidate_inv: "lru_inv c \<Longrightarrow> lru_inv (lru_invalidate k c)"
proof (cases "map_of (lru_map c) k")
  case (Some e)
  assume inv: "lru_inv c"
  have "length (AList.delete k (lru_map c)) \<le> length (lru_map c)" by (rule length_delete_le)
  with inv Some show ?thesis
    by (auto simp: lru_inv_def lru_invalidate_def fst_set_delete distinct_delete
        dest: order_trans)
qed (simp add: lru_invalidate_def)

lemma lru_clear_inv: "lru_inv c \<Longrightarrow> lru_inv (lru_clear c)"
  by (simp add: lru_inv_def lru_clear_def)

text \<open>
  Insertion as a reference algorithm would do it: the key goes to the front of the
  recency list and the list is cut at the capacity.
\<close>

definition lru_touch :: "nat \<Rightarrow> string \<Rightarrow> string list \<Rightarrow> string list" where
  "lru_touch cap k xs = take cap (k # removeAll k xs)"

lemma lru_put_hit:
  assumes "lru_inv c" "map_of (lru_map c) k = Some e0" "lru_put k e c = Inr c'"
  shows "lru_inv c'" "lru_list c' = lru_touch (lru_capacity c) k (lru_list c)"
    "lru_contents c' = (lru_contents c)(k \<mapsto> e)" "lru_capacity c' = lru_capacity c"
proof -
  have mem: "k \<in> set (lru_list c)" using assms(1,2) by (simp add: lru_inv_mem)
  have c': "c' = c\<lparr>lru_map := AList.update k e (lru_map c), lru_list := k # remove1 k (lru_list c)\<rparr>"
    using assms by (simp add: lru_put_def)
  have dist: "distinct (lru_list c)" and keys: "set (lru_list c) = fst ` set (lru_map c)"
    using assms(1) by (simp_all add: lru_inv_def)
  have "length (AList.update k e (lru_map c)) = length (lru_map c)"
    using assms(2) by (simp add: length_update_old)
  then show "lru_inv c'"
    using assms(1) mem by (auto simp: c' lru_inv_def distinct_update dom_update)
  have "length (k # remove1 k (lru_list c)) \<le> lru_capacity c"
    using assms(1) lru_inv_length [OF assms(1)] mem
    by (auto simp: lru_inv_def length_remove1 dest: length_pos_if_in_set)
  then show "lru_list c' = lru_touch (lru_capacity c) k (lru_list c)"
    by (simp add: c' lru_touch_def distinct_remove1_removeAll [OF dist])
  show "lru_contents c' = (lru_contents c)(k \<mapsto> e)"
    by (auto simp: c' lru_contents_def fun_eq_iff update_conv')
  show "lru_capacity c' = lru_capacity c" by (simp add: c')
qed

lemma lru_put_room:
  assumes "lru_inv c" "map_of (lru_map c) k = None" "length (lru_map c) < lru_capacity c"
    and "lru_put k e c = Inr c'"
  shows "lru_inv c'" "lru_list c' = lru_touch (lru_capacity c) k (lru_list c)"
    "lru_contents c' = (lru_contents c)(k \<mapsto> e)" "lru_capacity c' = lru_capacity c"
proof -
  have mem: "k \<notin> set (lru_list c)" using assms(1,2) by (simp add: lru_inv_mem)
  have c': "c' = c\<lparr>lru_list := k # lru_list c, lru_map := AList.update k e (lru_map c)\<rparr>"
    using assms by (simp add: lru_put_def Let_def)
  have "length (AList.update k e (lru_map c)) = Suc (length (lru_map c))"
    using assms(2) by (simp add: length_update_new)
  then show "lru_inv c'"
    using assms(1,3) mem by (auto simp: c' lru_inv_def distinct_update dom_update)
  show "lru_list c' = lru_touch (lru_capacity c) k (lru_list c)"
    using assms(3) mem lru_inv_length [OF assms(1)] by (simp add: c' lru_touch_def)
  show "lru_contents c' = (lru_contents c)(k \<mapsto> e)"
    by (auto simp: c' lru_contents_def fun_eq_iff update_conv')
  show "lru_capacity c' = lru_capacity c" by (simp add: c')
qed

lemma lru_put_evict:
  assumes "lru_inv c" "map_of (lru_map c) k = None" "length (lru_map c) = lru_capacity c"
  obtains c' where "lru_put k e c = Inr c'" "lru_inv c'"
    "lru_list c' = lru_touch (lru_capacity c) k (lru_list c)"
    "lru_contents c' = (lru_contents c)(last (lru_list c) := None, k \<mapsto> e)"
    "lru_capacity c' = lru_capacity c"
proof -
  have mem: "k \<notin> set (lru_list c)" using assms(1,2) by (simp add: lru_inv_mem)
  have len: "length (lru_list c) = lru_capacity c" using assms(3) lru_inv_length [OF assms(1)] by simp
  then have ne: "lru_list c \<noteq> []" using assms(1) by (auto simp: lru_inv_def)
  obtain xs x where l: "lru_list c = xs @ [x]" using ne by (metis append_butlast_last_id)
  define d where "d = AList.delete x (lru_map c)"
  define c' where "c' = c\<lparr>lru_map := AList.update k e d, lru_list := k # xs\<rparr>"
  have dk: "map_of d k = None" using assms(2) by (auto simp: d_def delete_conv')
  have keys: "fst ` set d = set xs"
    using assms(1) by (auto simp: d_def fst_set_delete lru_inv_def l)
  have "map_of (lru_map c) x \<noteq> None"
    using assms(1) lru_inv_mem [OF assms(1), of x] by (simp add: l)
  then have "Suc (length d) = lru_capacity c"
    using assms(1,3) by (simp add: d_def length_delete_present lru_inv_def)
  then have inv: "lru_inv c'"
    using assms(1) mem dk keys
    by (auto simp: c'_def lru_inv_def d_def l distinct_update distinct_delete dom_update length_update_new)
  show ?thesis
  proof (rule that [of c'])
    show "lru_put k e c = Inr c'"
      using assms(2,3) by (simp add: lru_put_def Let_def c'_def d_def l)
    show "lru_list c' = lru_touch (lru_capacity c) k (lru_list c)"
      using mem len by (simp add: c'_def lru_touch_def l flip: len)
    show "lru_contents c' = (lru_contents c)(last (lru_list c) := None, k \<mapsto> e)"
      by (auto simp: c'_def d_def l lru_contents_def fun_eq_iff update_conv' delete_conv')
    show "lru_inv c'" by (rule inv)
  qed (simp add: c'_def)
qed

text \<open>All three cases of \<open>put\<close> together.\<close>

lemma lru_put_total:
  assumes "lru_inv c"
  obtains c' where "lru_put k e c = Inr c'" "lru_inv c'" "lru_capacity c' = lru_capacity c"
    "lru_list c' = lru_touch (lru_capacity c) k (lru_list c)"
    "lru_contents c' k = Some e"
    "\<forall>j. j \<noteq> k \<longrightarrow> lru_contents c' j = None \<or> lru_contents c' j = lru_contents c j"
proof (cases "map_of (lru_map c) k")
  case (Some e0)
  then obtain c' where c': "lru_put k e c = Inr c'" by (simp add: lru_put_def)
  from that [OF c'] lru_put_hit [OF assms Some c'] show ?thesis by simp
next
  case None
  show ?thesis
  proof (cases "length (lru_map c) < lru_capacity c")
    case True
    with None obtain c' where c': "lru_put k e c = Inr c'" by (simp add: lru_put_def Let_def)
    from that [OF c'] lru_put_room [OF assms None True c'] show ?thesis by simp
  next
    case False
    with assms have "length (lru_map c) = lru_capacity c" by (simp add: lru_inv_def)
    from lru_put_evict [OF assms None this, of e] that show ?thesis
      by (metis fun_upd_apply)
  qed
qed

lemma lru_invalidate_contents: "lru_contents (lru_invalidate k c) = (lru_contents c)(k := None)"
  by (auto simp: lru_contents_def lru_invalidate_def fun_eq_iff delete_conv' split: option.splits)

interpretation lru: read_cache lru_contents lru_get lru_put lru_invalidate lru_clear lru_inv
proof unfold_locales
  fix c k e assume inv: "lru_inv c"
  show "fst (lru_get k c) = lru_contents c k"
    by (simp add: lru_get_def lru_contents_def split: option.splits)
  show "lru_contents (snd (lru_get k c)) = lru_contents c"
    by (auto simp: lru_get_def lru_contents_def fun_eq_iff split: option.splits)
  show "lru_inv (snd (lru_get k c))" using inv by (rule lru_get_inv)
  show "\<exists>c'. lru_put k e c = Inr c' \<and> lru_inv c' \<and> lru_contents c' k = Some e
      \<and> (\<forall>j. j \<noteq> k \<longrightarrow> lru_contents c' j = None \<or> lru_contents c' j = lru_contents c j)"
    using lru_put_total [OF inv, of k e] by metis
  show "lru_inv (lru_invalidate k c)" using inv by (rule lru_invalidate_inv)
  show "lru_inv (lru_clear c)" using inv by (rule lru_clear_inv)
qed (simp_all add: lru_invalidate_contents lru_clear_def lru_contents_def fun_eq_iff)

section \<open>Properties\<close>

text \<open>
  C40: eviction is least-recently-used.  From any state that satisfies the invariant,
  \<open>put\<close> never runs into the undefined \<open>back()\<close> of an empty list, keeps the invariant and the
  capacity bound, and leaves exactly the recency list that the reference algorithm
  (move to the front, cut at the capacity) computes; the new entry is found again.
\<close>

theorem lru_put_correct:
  assumes "lru_inv c"
  shows "\<exists>c'. lru_put k e c = Inr c' \<and> lru_inv c' \<and> lru_size c' \<le> lru_capacity c
           \<and> lru_list c' = take (lru_capacity c) (k # removeAll k (lru_list c))
           \<and> fst (lru_get k c') = Some e"
proof -
  obtain c' where c': "lru_put k e c = Inr c'" "lru_inv c'" "lru_capacity c' = lru_capacity c"
    "lru_list c' = lru_touch (lru_capacity c) k (lru_list c)" "lru_contents c' k = Some e"
    using lru_put_total [OF assms] by metis
  from c'(2,3) have "lru_size c' \<le> lru_capacity c" by (simp add: lru_size_def lru_inv_def)
  moreover have "fst (lru_get k c') = Some e" using c'(2,5) lru.get_contents by simp
  ultimately show ?thesis using c' by (auto simp: lru_touch_def)
qed

theorem lru_put_correct_witness:
  "\<exists>c'. lru_put ''k'' \<lparr>ent_value = ''v'', ent_seq = 1, ent_type = Et_PUT\<rparr> (lru_new 1) = Inr c'
     \<and> lru_list c' = [''k'']"
  using lru_put_correct [of "lru_new 1" "''k''" "\<lparr>ent_value = ''v'', ent_seq = 1, ent_type = Et_PUT\<rparr>"]
  by (auto simp: lru_new_def lru_inv_def)

end
