(* ===== verification/File_System.thy ===== *)
theory File_System
  imports KV_Prelude
begin

text \<open>
  The part of the POSIX file system the sources rely on.  A path names an inode, an
  inode holds bytes, and an open descriptor keeps its inode when the path is unlinked.
  Calls to the operating system succeed (running out of space, permissions and the like
  are not modelled), except that the result of \<open>write(2)\<close> stays a parameter where the
  sources look at it.
\<close>

record file_system =
  fs_names :: "string \<Rightarrow> nat option"
  fs_inodes :: "nat \<Rightarrow> bytes"
  fs_next :: nat

definition fs_empty :: file_system where
  "fs_empty = \<lparr>fs_names = Map.empty, fs_inodes = (\<lambda>_. []), fs_next = 0\<rparr>"

definition fs_exists :: "string \<Rightarrow> file_system \<Rightarrow> bool" where
  "fs_exists p fs \<longleftrightarrow> fs_names fs p \<noteq> None"

text \<open>Opening a file for reading: its bytes, or nothing when there is no such file.\<close>

definition fs_read :: "string \<Rightarrow> file_system \<Rightarrow> bytes option" where
  "fs_read p fs = map_option (fs_inodes fs) (fs_names fs p)"

text \<open>The inode a path opens, created when absent (\<open>O_CREAT\<close>).\<close>

definition fs_open_create :: "string \<Rightarrow> file_system \<Rightarrow> nat \<times> file_system" where
  "fs_open_create p fs =
     (case fs_names fs p of
        Some i \<Rightarrow> (i, fs)
      | None \<Rightarrow> (fs_next fs, fs\<lparr>fs_names := (fs_names fs)(p \<mapsto> fs_next fs),
                               fs_inodes := (fs_inodes fs)(fs_next fs := []),
                               fs_next := Suc (fs_next fs)\<rparr>))"

text \<open>A \<open>std::ofstream\<close> that is opened, written once and closed: truncate and write.\<close>

definition fs_write_file :: "string \<Rightarrow> bytes \<Rightarrow> file_system \<Rightarrow> file_system" where
  "fs_write_file p bs fs =
     (let (i, fs') = fs_open_create p fs in fs'\<lparr>fs_inodes := (fs_inodes fs')(i := bs)\<rparr>)"

definition fs_append_fd :: "nat \<Rightarrow> bytes \<Rightarrow> file_system \<Rightarrow> file_system" where
  "fs_append_fd i bs fs = fs\<lparr>fs_inodes := (fs_inodes fs)(i := fs_inodes fs i @ bs)\<rparr>"

definition fs_remove :: "string \<Rightarrow> file_system \<Rightarrow> file_system" where
  "fs_remove p fs = fs\<lparr>fs_names := (fs_names fs)(p := None)\<rparr>"

text \<open>Every name has an allocated inode of its own (the sources make no hard links).\<close>

definition fs_inv :: "file_system \<Rightarrow> bool" where
  "fs_inv fs \<longleftrightarrow> (\<forall>p i. fs_names fs p = Some i \<longrightarrow> i < fs_next fs)
     \<and> (\<forall>p q i. fs_names fs p = Some i \<longrightarrow> fs_names fs q = Some i \<longrightarrow> p = q)"

lemma fs_inv_empty [simp]: "fs_inv fs_empty"
  by (simp add: fs_inv_def fs_empty_def)

lemma fs_read_empty [simp]: "fs_read p fs_empty = None"
  by (simp add: fs_read_def fs_empty_def)

lemma fs_inv_open [simp]: "fs_inv fs \<Longrightarrow> fs_inv (snd (fs_open_create p fs))"
  by (auto simp: fs_inv_def fs_open_create_def less_Suc_eq split: option.splits)

lemma fs_inv_write [simp]: "fs_inv fs \<Longrightarrow> fs_inv (fs_write_file p bs fs)"
  using fs_inv_open [of fs p] by (auto simp: fs_write_file_def fs_inv_def split: prod.splits)

lemma fs_inv_append [simp]: "fs_inv fs \<Longrightarrow> fs_inv (fs_append_fd i bs fs)"
  by (simp add: fs_inv_def fs_append_fd_def)

lemma fs_inv_remove [simp]: "fs_inv fs \<Longrightarrow> fs_inv (fs_remove p fs)"
  by (auto simp: fs_inv_def fs_remove_def)

lemma fs_read_write_same [simp]: "fs_read p (fs_write_file p bs fs) = Some bs"
  by (auto simp: fs_read_def fs_write_file_def fs_open_create_def split: option.splits)

lemma fs_read_write_other [simp]:
  "fs_inv fs \<Longrightarrow> p \<noteq> q \<Longrightarrow> fs_read q (fs_write_file p bs fs) = fs_read q fs"
  by (force simp: fs_read_def fs_write_file_def fs_open_create_def fs_inv_def map_option_case
      split: option.splits)

lemma fs_read_remove_same [simp]: "fs_read p (fs_remove p fs) = None"
  by (simp add: fs_read_def fs_remove_def)

lemma fs_read_remove_other [simp]: "p \<noteq> q \<Longrightarrow> fs_read q (fs_remove p fs) = fs_read q fs"
  by (simp add: fs_read_def fs_remove_def)

lemma fs_exists_iff: "fs_exists p fs \<longleftrightarrow> fs_read p fs \<noteq> None"
  by (simp add: fs_exists_def fs_read_def)

lemma fs_read_append_fd:
  "fs_inv fs \<Longrightarrow> fs_names fs p = Some i \<Longrightarrow>
     fs_read q (fs_append_fd i bs fs) = (if q = p then map_option (\<lambda>c. c @ bs) (fs_read q fs) else fs_read q fs)"
  by (auto simp: fs_read_def fs_append_fd_def fs_inv_def map_option_case split: option.splits)

text \<open>Appending to a descriptor whose file was unlinked is invisible through every path.\<close>

lemma fs_read_append_unlinked:
  "\<forall>p. fs_names fs p \<noteq> Some i \<Longrightarrow> fs_read q (fs_append_fd i bs fs) = fs_read q fs"
  by (auto simp: fs_read_def fs_append_fd_def map_option_case split: option.splits)

lemma fs_open_create_props:
  assumes "fs_inv fs" "fs_open_create p fs = (i, fs')"
  shows "fs_names fs' p = Some i" "fs_inv fs'"
    "fs_read q fs' = (if q = p \<and> fs_read p fs = None then Some [] else fs_read q fs)"
proof -
  show "fs_names fs' p = Some i"
    using assms(2) by (auto simp: fs_open_create_def split: option.splits)
  show "fs_inv fs'" using fs_inv_open [OF assms(1), of p] assms(2) by simp
  show "fs_read q fs' = (if q = p \<and> fs_read p fs = None then Some [] else fs_read q fs)"
    using assms by (force simp: fs_open_create_def fs_read_def fs_inv_def map_option_case
        split: option.splits if_splits)
qed

end
