(* ===== verification/Write_Ahead_Log.thy ===== *)
theory Write_Ahead_Log
  imports KV_Types File_System
begin

text \<open>
  The write-ahead log (\<open>engine/src/wal.cpp\<close>): the byte format of a record, the
  in-memory buffers with the background synchronisation, and replay.  zlib's \<open>crc32\<close>
  is a parameter; nothing is assumed of it beyond being a function.

  Replay is modelled down to the local variables of the loop: a short read at the end
  of a torn file leaves part of a variable from the previous record in place, exactly
  as \<open>std::istream::read\<close> does, and the checksum is then computed over that mixture.

  The second half is the interaction of the writer thread with the synchronisation
  thread as step relations: bytes are never lost or reordered between the buffers and
  the file, a flush that starts while the synchronisation thread is idle is durable
  when it returns, and one that starts while a synchronisation is under way is not.
\<close>

type_synonym crc = "uint32 \<Rightarrow> bytes \<Rightarrow> uint32"
type_synonym wal_entry = "uint64 \<times> operation \<times> string \<times> string"

section \<open>Records\<close>

definition calculateChecksum :: "crc \<Rightarrow> operation \<Rightarrow> string \<Rightarrow> string \<Rightarrow> uint64 \<Rightarrow> uint32" where
  "calculateChecksum zcrc op key val seqNumber =
     (let c0 = zcrc 0 [];
          c1 = zcrc c0 (put_u64 seqNumber);
          c2 = zcrc c1 [byte_of_operation op];
          keyLen = word_of_nat (length key) :: uint32;
          valueLen = word_of_nat (length val) :: uint32;
          c3 = zcrc c2 (put_u32 keyLen);
          c4 = zcrc c3 (put_u32 valueLen);
          c5 = (if key \<noteq> [] then zcrc c4 (take (unat keyLen) key) else c4)
      in if val \<noteq> [] then zcrc c5 (take (unat valueLen) val) else c5)"

definition wal_record :: "crc \<Rightarrow> wal_entry \<Rightarrow> bytes" where
  "wal_record zcrc = (\<lambda>(seqNumber, op, key, val).
     (let keyLen = word_of_nat (length key) :: uint32;
          valueLen = word_of_nat (length val) :: uint32
      in put_u32 (calculateChecksum zcrc op key val seqNumber) @ put_u64 seqNumber
         @ [byte_of_operation op] @ put_u32 keyLen @ put_u32 valueLen
         @ take (unat keyLen) key @ take (unat valueLen) val))"

section \<open>Replay\<close>

text \<open>
  \<open>read\<close> into a variable that already holds the bytes \<open>old\<close>: as many bytes as the
  stream still has replace the front of the variable.
\<close>

definition read_over :: "bytes \<Rightarrow> bytes \<Rightarrow> bytes" where
  "read_over old bs = take (length old) bs @ drop (length bs) old"

lemma length_read_over [simp]: "length (read_over old bs) = length old"
  by (simp add: read_over_def)

lemma read_over_append [simp]: "length xs = length old \<Longrightarrow> read_over old (xs @ bs) = xs"
  by (simp add: read_over_def)

text \<open>The variables of the replay loop that survive an iteration, as raw bytes.\<close>

record replay_vars =
  rv_seq :: bytes
  rv_op :: bytes
  rv_keyLen :: bytes
  rv_valueLen :: bytes

definition replay_init :: replay_vars where
  "replay_init = \<lparr>rv_seq = replicate 8 (CHR 0x00), rv_op = [CHR 0x00],
     rv_keyLen = replicate 4 (CHR 0x00), rv_valueLen = replicate 4 (CHR 0x00)\<rparr>"

definition replay_ok :: "replay_vars \<Rightarrow> bool" where
  "replay_ok v \<longleftrightarrow> length (rv_seq v) = 8 \<and> length (rv_op v) = 1
     \<and> length (rv_keyLen v) = 4 \<and> length (rv_valueLen v) = 4"

text \<open>The reads of one iteration after the checksum: the variables, the entry, the rest.\<close>

definition replay_read :: "replay_vars \<Rightarrow> bytes \<Rightarrow> replay_vars \<times> wal_entry \<times> bytes" where
  "replay_read v b0 =
     (let v' = \<lparr>rv_seq = read_over (rv_seq v) b0,
                rv_op = read_over (rv_op v) (drop 8 b0),
                rv_keyLen = read_over (rv_keyLen v) (drop 9 b0),
                rv_valueLen = read_over (rv_valueLen v) (drop 13 b0)\<rparr>;
          (key, b1) = read_chars (le_value (rv_keyLen v')) (drop 17 b0);
          (val, b2) = read_chars (le_value (rv_valueLen v')) b1
      in (v', (word_of_nat (le_value (rv_seq v')), operation_of_byte (hd (rv_op v')), key, val), b2))"

lemma replay_read_shrinks: "length (snd (snd (replay_read v bs))) \<le> length bs"
  by (auto simp: replay_read_def Let_def read_chars_def)

definition entry_checksum :: "crc \<Rightarrow> wal_entry \<Rightarrow> uint32" where
  "entry_checksum zcrc = (\<lambda>(seqNumber, op, key, val). calculateChecksum zcrc op key val seqNumber)"

function wal_replay_loop :: "crc \<Rightarrow> replay_vars \<Rightarrow> bytes \<Rightarrow> wal_entry list" where
  "wal_replay_loop zcrc v bs =
     (if length bs < 4 then []
      else let checksum = word_of_nat (le_value (take 4 bs)) :: uint32;
               r = replay_read v (drop 4 bs)
           in if entry_checksum zcrc (fst (snd r)) = checksum
              then fst (snd r) # wal_replay_loop zcrc (fst r) (snd (snd r))
              else [])"
  by pat_completeness auto
termination
proof (relation "measure (\<lambda>(zcrc, v, bs). length bs)", goal_cases)
  case (2 zcrc v bs c r)
  then show ?case using replay_read_shrinks [of v "drop 4 bs"] by auto
qed simp

declare wal_replay_loop.simps [simp del]

text \<open>The entries that \<open>replay\<close> hands to its callback, in order; no file, no entries.\<close>

definition wal_replay :: "crc \<Rightarrow> string \<Rightarrow> file_system \<Rightarrow> wal_entry list" where
  "wal_replay zcrc path fs =
     (case fs_read path fs of
        None \<Rightarrow> []
      | Some bs \<Rightarrow> wal_replay_loop zcrc replay_init bs)"

definition wal_empty :: "string \<Rightarrow> file_system \<Rightarrow> bool" where
  "wal_empty path fs =
     (case fs_read path fs of None \<Rightarrow> True | Some bs \<Rightarrow> length bs = 0)"

section \<open>Facts about records and replay\<close>

definition wal_entry_ok :: "wal_entry \<Rightarrow> bool" where
  "wal_entry_ok = (\<lambda>(n, op, key, val). named_op op \<and> length key < 2 ^ 32 \<and> length val < 2 ^ 32)"

lemma replay_ok_init [simp]: "replay_ok replay_init"
  by (simp add: replay_ok_def replay_init_def)

lemma replay_read_ok: "replay_ok v \<Longrightarrow> replay_read v bs = (v', e, rest) \<Longrightarrow> replay_ok v'"
  by (auto simp: replay_read_def replay_ok_def Let_def split: prod.splits)

lemma wal_record_length:
  "wal_entry_ok (n, op, key, val) \<Longrightarrow>
     length (wal_record zcrc (n, op, key, val)) = 21 + length key + length val"
  by (simp add: wal_record_def wal_entry_ok_def Let_def)

lemma le_value_put_u32 [simp]: "le_value (put_u32 w) = unat w"
  using unsigned_less [of w, where ?'a = nat] by (simp add: put_u32_def le_value_le_bytes)

lemma le_value_put_u64 [simp]: "le_value (put_u64 w) = unat w"
  using unsigned_less [of w, where ?'a = nat] by (simp add: put_u64_def le_value_le_bytes)

definition wal_body :: "wal_entry \<Rightarrow> bytes" where
  "wal_body = (\<lambda>(n, op, key, val). put_u64 n @ [byte_of_operation op]
     @ put_u32 (word_of_nat (length key)) @ put_u32 (word_of_nat (length val)) @ key @ val)"

lemma wal_record_body:
  "wal_entry_ok (n, op, key, val) \<Longrightarrow>
     wal_record zcrc (n, op, key, val)
       = put_u32 (calculateChecksum zcrc op key val n) @ wal_body (n, op, key, val)"
  by (simp add: wal_record_def wal_body_def wal_entry_ok_def Let_def)

lemma drop_put_u64: "drop 8 (put_u64 n @ bs) = bs" "drop 9 (put_u64 n @ c # bs) = bs"
  by simp_all

lemma replay_read_body:
  assumes "replay_ok v" "wal_entry_ok e"
  obtains v' where "replay_read v (wal_body e @ bs) = (v', e, bs)" "replay_ok v'"
proof -
  obtain n op key val where e: "e = (n, op, key, val)" by (metis prod_cases4)
  have lens: "length key < 2 ^ 32" "length val < 2 ^ 32" "named_op op"
    using assms(2) by (simp_all add: e wal_entry_ok_def)
  define b where "b = wal_body e @ bs"
  have split: "b = put_u64 n @ [byte_of_operation op]
     @ put_u32 (word_of_nat (length key)) @ put_u32 (word_of_nat (length val)) @ key @ val @ bs"
    by (simp add: b_def e wal_body_def)
  have d8: "drop 8 b = [byte_of_operation op] @ put_u32 (word_of_nat (length key))
      @ put_u32 (word_of_nat (length val)) @ key @ val @ bs"
    by (simp add: split)
  have d9: "drop 9 b = put_u32 (word_of_nat (length key)) @ put_u32 (word_of_nat (length val)) @ key @ val @ bs"
    by (simp add: split)
  have d13: "drop 13 b = put_u32 (word_of_nat (length val)) @ key @ val @ bs"
    by (simp add: split)
  have d17: "drop 17 b = key @ val @ bs"
    by (simp add: split)
  define v' where "v' = \<lparr>rv_seq = put_u64 n, rv_op = [byte_of_operation op],
     rv_keyLen = put_u32 (word_of_nat (length key)), rv_valueLen = put_u32 (word_of_nat (length val))\<rparr>"
  have rs: "read_over (rv_seq v) b = put_u64 n" using assms(1) by (simp add: split replay_ok_def)
  have ro: "read_over (rv_op v) (drop 8 b) = [byte_of_operation op]"
    unfolding d8 using assms(1) by (intro read_over_append) (simp add: replay_ok_def)
  have rk: "read_over (rv_keyLen v) (drop 9 b) = put_u32 (word_of_nat (length key))"
    unfolding d9 using assms(1) by (intro read_over_append) (simp add: replay_ok_def)
  have rv: "read_over (rv_valueLen v) (drop 13 b) = put_u32 (word_of_nat (length val))"
    unfolding d13 using assms(1) by (intro read_over_append) (simp add: replay_ok_def)
  have "replay_read v b = (v', e, bs)"
    using lens unfolding replay_read_def Let_def rs ro rk rv d17
    by (simp add: v'_def e read_chars_append)
  moreover have "replay_ok v'" by (simp add: v'_def replay_ok_def)
  ultimately show ?thesis using that by (simp add: b_def)
qed

lemma replay_step:
  assumes "replay_ok v" "wal_entry_ok e"
  obtains v' where "replay_ok v'"
    "wal_replay_loop zcrc v (wal_record zcrc e @ bs) = e # wal_replay_loop zcrc v' bs"
proof -
  obtain v' where v': "replay_read v (wal_body e @ bs) = (v', e, bs)" "replay_ok v'"
    using replay_read_body [OF assms] .
  have r: "wal_record zcrc e = put_u32 (entry_checksum zcrc e) @ wal_body e"
    using assms(2) by (cases e) (auto simp: wal_record_body entry_checksum_def)
  have "wal_replay_loop zcrc v (wal_record zcrc e @ bs) = e # wal_replay_loop zcrc v' bs"
    by (subst wal_replay_loop.simps) (simp add: r v')
  with v'(2) that show ?thesis by blast
qed

lemma replay_records:
  assumes "\<forall>e\<in>set es. wal_entry_ok e" "replay_ok v"
  obtains v' where "replay_ok v'"
    "wal_replay_loop zcrc v (concat (map (wal_record zcrc) es) @ bs) = es @ wal_replay_loop zcrc v' bs"
proof -
  have "\<exists>v'. replay_ok v' \<and>
    wal_replay_loop zcrc v (concat (map (wal_record zcrc) es) @ bs) = es @ wal_replay_loop zcrc v' bs"
    using assms
  proof (induction es arbitrary: v)
    case (Cons e es)
    obtain u where u: "replay_ok u"
      "wal_replay_loop zcrc v (wal_record zcrc e @ concat (map (wal_record zcrc) es) @ bs)
         = e # wal_replay_loop zcrc u (concat (map (wal_record zcrc) es) @ bs)"
      using replay_step [OF Cons.prems(2), of e zcrc "concat (map (wal_record zcrc) es) @ bs"] Cons.prems(1)
      by auto
    obtain v' where "replay_ok v'"
      "wal_replay_loop zcrc u (concat (map (wal_record zcrc) es) @ bs) = es @ wal_replay_loop zcrc v' bs"
      using Cons.IH [OF _ u(1)] Cons.prems(1) by auto
    with u show ?case by auto
  qed auto
  with that show ?thesis by blast
qed

lemma wal_replay_loop_short: "length bs < 4 \<Longrightarrow> wal_replay_loop zcrc v bs = []"
  by (subst wal_replay_loop.simps) simp

text \<open>
  A torn record: the iteration that reads it uses up the rest of the stream, whether or
  not the length fields themselves were cut.
\<close>

lemma read_over_short_prefix:
  "length xs = length old \<Longrightarrow> length xs \<le> length b \<Longrightarrow> take (length xs) b = xs \<Longrightarrow> read_over old b = xs"
  by (simp add: read_over_def)

lemma replay_read_torn:
  assumes "replay_ok v" "wal_entry_ok e" "wal_body e = p @ q" "q \<noteq> []"
  shows "snd (snd (replay_read v p)) = []"
proof -
  obtain n op key val where e: "e = (n, op, key, val)" by (metis prod_cases4)
  have lens: "length key < 2 ^ 32" "length val < 2 ^ 32"
    using assms(2) by (simp_all add: e wal_entry_ok_def)
  have body: "length (wal_body e) = 17 + length key + length val"
    by (simp add: e wal_body_def)
  show ?thesis
  proof (cases "length p < 17")
    case True
    then show ?thesis by (auto simp: replay_read_def Let_def read_chars_def split: prod.splits)
  next
    case False
    have p: "p = take (length p) (wal_body e)" using assms(3) by simp
    have k: "take 4 (drop 9 p) = put_u32 (word_of_nat (length key))"
    proof -
      have "take 4 (drop 9 p) = take 4 (drop 9 (wal_body e))"
        using False by (subst p) (simp add: drop_take min_def)
      then show ?thesis by (simp add: e wal_body_def)
    qed
    have w: "take 4 (drop 13 p) = put_u32 (word_of_nat (length val))"
    proof -
      have "take 4 (drop 13 p) = take 4 (drop 13 (wal_body e))"
        using False by (subst p) (simp add: drop_take min_def)
      then show ?thesis by (simp add: e wal_body_def)
    qed
    have rk: "le_value (read_over (rv_keyLen v) (drop 9 p)) = length key"
      using k False assms(1) lens by (simp add: read_over_def replay_ok_def)
    have rv: "le_value (read_over (rv_valueLen v) (drop 13 p)) = length val"
      using w False assms(1) lens by (simp add: read_over_def replay_ok_def)
    have "length p < 17 + length key + length val"
      using body assms(3,4) by (metis length_append length_greater_0_conv less_add_same_cancel1)
    then show ?thesis
      by (simp add: replay_read_def Let_def read_chars_def rk rv split: prod.splits)
  qed
qed

lemma replay_torn:
  assumes "replay_ok v" "wal_entry_ok r" "wal_record zcrc r = p @ q" "q \<noteq> []"
  shows "wal_replay_loop zcrc v p = [] \<or>
     (\<exists>g. wal_replay_loop zcrc v p = [g] \<and> entry_checksum zcrc g = entry_checksum zcrc r)"
proof (cases "length p < 4")
  case True
  then show ?thesis by (simp add: wal_replay_loop_short)
next
  case False
  have r: "wal_record zcrc r = put_u32 (entry_checksum zcrc r) @ wal_body r"
    using assms(2) by (cases r) (auto simp: wal_record_body entry_checksum_def)
  have "take 4 p = take 4 (p @ q)" using False by simp
  then have t4: "take 4 p = put_u32 (entry_checksum zcrc r)"
    by (simp add: r flip: assms(3))
  have "drop 4 (p @ q) = drop 4 p @ q" using False by simp
  then have "wal_body r = drop 4 p @ q" by (simp add: r flip: assms(3))
  then have "snd (snd (replay_read v (drop 4 p))) = []"
    using replay_read_torn assms(1,2,4) by blast
  then have "wal_replay_loop zcrc v p =
     (if entry_checksum zcrc (fst (snd (replay_read v (drop 4 p)))) = entry_checksum zcrc r
      then [fst (snd (replay_read v (drop 4 p)))] else [])"
    using False by (subst wal_replay_loop.simps) (simp add: Let_def t4 wal_replay_loop_short)
  then show ?thesis by metis
qed

section \<open>Buffers and the background synchronisation\<close>

record wal =
  wal_path :: string
  wal_fd :: "nat option"
  write_buffer :: bytes
  sync_buffer :: bytes
  write_buffer_size :: nat
  sync_requested :: bool
  wal_shutdown :: bool
  sync_generation :: uint64
  synced_generation :: uint64

definition MAX_BUFFER_SIZE :: nat where
  "MAX_BUFFER_SIZE = 256 * 1024"

definition wal_open :: "string \<Rightarrow> file_system \<Rightarrow> wal \<times> file_system" where
  "wal_open path fs =
     (let (fd, fs') = fs_open_create path fs
      in (\<lparr>wal_path = path, wal_fd = Some fd, write_buffer = [], sync_buffer = [],
           write_buffer_size = 0, sync_requested = False, wal_shutdown = False,
           sync_generation = 0, synced_generation = 0\<rparr>, fs'))"

definition wal_append :: "crc \<Rightarrow> operation \<Rightarrow> string \<Rightarrow> string \<Rightarrow> uint64 \<Rightarrow> wal \<Rightarrow> wal" where
  "wal_append zcrc op key val seqNumber w =
     (let rec = wal_record zcrc (seqNumber, op, key, val);
          keyLen = unat (word_of_nat (length key) :: uint32);
          valueLen = unat (word_of_nat (length val) :: uint32);
          entry_size = 4 + 8 + 1 + 4 + 4 + keyLen + valueLen
      in w\<lparr>sync_requested := (write_buffer_size w + entry_size > MAX_BUFFER_SIZE \<or> sync_requested w),
           write_buffer := write_buffer w @ rec,
           write_buffer_size := write_buffer_size w + length rec\<rparr>)"

text \<open>
  \<open>doSync\<close> is two critical phases.  Under \<open>buffer_mutex_\<close> it either finds nothing to do, or
  swaps the buffers; then, without the lock, it writes what it took and publishes the
  generation.  \<open>wr\<close> is the answer of \<open>write(2)\<close>: how many bytes were written, \<open>None\<close>
  for \<open>-1\<close>; the sources do not retry a short write.
\<close>

definition sync_idle_work :: "wal \<Rightarrow> bool" where
  "sync_idle_work w \<longleftrightarrow> write_buffer_size w = 0"

definition sync_publish :: "wal \<Rightarrow> wal" where
  "sync_publish w = w\<lparr>synced_generation := sync_generation w\<rparr>"

definition sync_swap :: "wal \<Rightarrow> wal" where
  "sync_swap w = w\<lparr>sync_buffer := write_buffer w, write_buffer := [], write_buffer_size := 0\<rparr>"

definition sync_write :: "(bytes \<Rightarrow> nat option) \<Rightarrow> wal \<times> file_system \<Rightarrow> wal \<times> file_system" where
  "sync_write wr = (\<lambda>(w, fs).
     (case (sync_buffer w, wal_fd w) of
        (b # bs, Some fd) \<Rightarrow>
          (sync_publish (w\<lparr>sync_buffer := []\<rparr>),
           (case wr (b # bs) of None \<Rightarrow> fs | Some n \<Rightarrow> fs_append_fd fd (take n (b # bs)) fs))
      | _ \<Rightarrow> (sync_publish w, fs)))"

definition doSync :: "(bytes \<Rightarrow> nat option) \<Rightarrow> wal \<times> file_system \<Rightarrow> wal \<times> file_system" where
  "doSync wr = (\<lambda>(w, fs).
     if sync_idle_work w then (sync_publish w, fs) else sync_write wr (sync_swap w, fs))"

text \<open>One turn of \<open>syncThreadLoop\<close>, and the destructor's final synchronisation and close.\<close>

definition syncThreadTurn :: "(bytes \<Rightarrow> nat option) \<Rightarrow> wal \<times> file_system \<Rightarrow> wal \<times> file_system" where
  "syncThreadTurn wr = (\<lambda>(w, fs). doSync wr (w\<lparr>sync_requested := False\<rparr>, fs))"

definition wal_close :: "(bytes \<Rightarrow> nat option) \<Rightarrow> wal \<times> file_system \<Rightarrow> wal \<times> file_system" where
  "wal_close wr = (\<lambda>(w, fs).
     let (w', fs') = doSync wr (w\<lparr>wal_shutdown := True, sync_requested := True\<rparr>, fs)
     in (w'\<lparr>wal_fd := None\<rparr>, fs'))"

text \<open>
  \<open>flush\<close> (and \<open>syncFlush\<close>, which has the same body) raises the generation, asks for a
  synchronisation and blocks until that generation is published.
\<close>

definition flush_request :: "wal \<Rightarrow> wal" where
  "flush_request w = w\<lparr>sync_generation := sync_generation w + 1, sync_requested := True\<rparr>"

definition flush_done :: "uint64 \<Rightarrow> wal \<Rightarrow> bool" where
  "flush_done my_gen w \<longleftrightarrow> synced_generation w \<ge> my_gen"

text \<open>A complete \<open>write(2)\<close>, and a flush that meets an idle synchronisation thread.\<close>

definition full_write :: "bytes \<Rightarrow> nat option" where
  "full_write bs = Some (length bs)"

definition wal_flush :: "wal \<times> file_system \<Rightarrow> wal \<times> file_system" where
  "wal_flush = (\<lambda>(w, fs). syncThreadTurn full_write (flush_request w, fs))"

definition wal_inv :: "wal \<Rightarrow> bool" where
  "wal_inv w \<longleftrightarrow> write_buffer_size w = length (write_buffer w)"

lemmas sync_defs = sync_idle_work_def sync_publish_def sync_swap_def sync_write_def doSync_def

lemma wal_inv_append [simp]: "wal_inv w \<Longrightarrow> wal_inv (wal_append zcrc op key val n w)"
  by (simp add: wal_inv_def wal_append_def Let_def)

lemma wal_inv_open: "wal_open path fs = (w, fs') \<Longrightarrow> wal_inv w"
  by (auto simp: wal_open_def wal_inv_def split: prod.splits)

lemma append_write_buffer:
  "write_buffer (wal_append zcrc op key val n w) = write_buffer w @ wal_record zcrc (n, op, key, val)"
  "sync_buffer (wal_append zcrc op key val n w) = sync_buffer w"
  "wal_fd (wal_append zcrc op key val n w) = wal_fd w"
  "wal_path (wal_append zcrc op key val n w) = wal_path w"
  by (simp_all add: wal_append_def Let_def)

text \<open>With complete writes \<open>doSync\<close> moves exactly the write buffer to the file.\<close>

lemma doSync_full:
  assumes "wal_inv w" "wal_fd w = Some fd"
  shows "doSync full_write (w, fs) =
    (w\<lparr>write_buffer := [], write_buffer_size := 0,
       sync_buffer := (if write_buffer w = [] then sync_buffer w else []),
       synced_generation := sync_generation w\<rparr>,
     (if write_buffer w = [] then fs else fs_append_fd fd (write_buffer w) fs))"
proof (cases "write_buffer w")
  case Nil
  with assms show ?thesis by (cases w) (simp add: sync_defs wal_inv_def)
next
  case (Cons b bs)
  with assms show ?thesis by (cases w) (simp add: sync_defs wal_inv_def full_write_def)
qed

section \<open>Writer thread and synchronisation thread\<close>

text \<open>
  The state both threads share: the log object, the file system, whether the
  synchronisation thread is between the swap and the write, and the generation the
  writer waits for inside \<open>flush\<close>.  \<open>ws_log\<close> is a ghost: every byte appended so far.
\<close>

record wal_sys =
  ws_wal :: wal
  ws_fs :: file_system
  ws_syncing :: bool
  ws_waiting :: "uint64 option"
  ws_log :: bytes

inductive wal_sync_step :: "wal_sys \<Rightarrow> wal_sys \<Rightarrow> bool" where
  sync_nothing: "\<not> ws_syncing s \<Longrightarrow> sync_idle_work (ws_wal s) \<Longrightarrow>
     wal_sync_step s (s\<lparr>ws_wal := sync_publish (ws_wal s)\<rparr>)"
| sync_take: "\<not> ws_syncing s \<Longrightarrow> \<not> sync_idle_work (ws_wal s) \<Longrightarrow>
     wal_sync_step s (s\<lparr>ws_wal := sync_swap (ws_wal s), ws_syncing := True\<rparr>)"
| sync_put: "ws_syncing s \<Longrightarrow> sync_write full_write (ws_wal s, ws_fs s) = (w, fs) \<Longrightarrow>
     wal_sync_step s (s\<lparr>ws_wal := w, ws_fs := fs, ws_syncing := False\<rparr>)"

inductive wal_step :: "crc \<Rightarrow> wal_sys \<Rightarrow> wal_sys \<Rightarrow> bool" for zcrc where
  sync: "wal_sync_step s t \<Longrightarrow> wal_step zcrc s t"
| append: "ws_waiting s = None \<Longrightarrow>
     wal_step zcrc s (s\<lparr>ws_wal := wal_append zcrc op key val n (ws_wal s),
                         ws_log := ws_log s @ wal_record zcrc (n, op, key, val)\<rparr>)"
| flush_call: "ws_waiting s = None \<Longrightarrow>
     wal_step zcrc s (s\<lparr>ws_wal := flush_request (ws_wal s),
                         ws_waiting := Some (sync_generation (ws_wal s) + 1)\<rparr>)"
| flush_return: "ws_waiting s = Some g \<Longrightarrow> flush_done g (ws_wal s) \<Longrightarrow>
     wal_step zcrc s (s\<lparr>ws_waiting := None\<rparr>)"

text \<open>What the file behind the descriptor holds, and what is still in memory.\<close>

definition on_disk :: "wal_sys \<Rightarrow> bytes" where
  "on_disk s = (case wal_fd (ws_wal s) of None \<Rightarrow> [] | Some fd \<Rightarrow> fs_inodes (ws_fs s) fd)"

definition in_flight :: "wal_sys \<Rightarrow> bytes" where
  "in_flight s = (if ws_syncing s then sync_buffer (ws_wal s) else [])"

definition wal_sys_inv :: "bytes \<Rightarrow> wal_sys \<Rightarrow> bool" where
  "wal_sys_inv base s \<longleftrightarrow> wal_inv (ws_wal s) \<and> wal_fd (ws_wal s) \<noteq> None
     \<and> on_disk s @ in_flight s @ write_buffer (ws_wal s) = base @ ws_log s"

lemmas wal_sys_defs = wal_sys_inv_def on_disk_def in_flight_def wal_inv_def flush_request_def

lemma wal_sync_step_inv:
  assumes "wal_sync_step s t" "wal_sys_inv base s"
  shows "wal_sys_inv base t \<and> ws_log t = ws_log s \<and> ws_waiting t = ws_waiting s
     \<and> sync_generation (ws_wal t) = sync_generation (ws_wal s)"
  using assms
proof (induction rule: wal_sync_step.induct)
  case (sync_put s w fs)
  obtain fd where fd: "wal_fd (ws_wal s) = Some fd" using sync_put by (auto simp: wal_sys_defs)
  show ?case
  proof (cases "sync_buffer (ws_wal s)")
    case Nil
    with sync_put fd show ?thesis by (auto simp: wal_sys_defs sync_defs)
  next
    case (Cons b bs)
    with sync_put fd show ?thesis
      by (auto simp: wal_sys_defs sync_defs full_write_def fs_append_fd_def)
  qed
qed (auto simp: wal_sys_defs sync_defs)

lemma wal_step_inv:
  assumes "wal_step zcrc s t" "wal_sys_inv base s"
  shows "wal_sys_inv base t"
  using assms
proof (induction rule: wal_step.induct)
  case (sync s t)
  then show ?case using wal_sync_step_inv by blast
next
  case (append s n op key val)
  moreover have "on_disk (s\<lparr>ws_wal := wal_append zcrc op key val n (ws_wal s),
                         ws_log := ws_log s @ wal_record zcrc (n, op, key, val)\<rparr>) = on_disk s"
    by (simp add: on_disk_def append_write_buffer split: option.splits)
  ultimately show ?case
    by (auto simp: wal_sys_inv_def in_flight_def append_write_buffer)
qed (auto simp: wal_sys_defs)

lemma wal_steps_inv: "(wal_step zcrc)\<^sup>*\<^sup>* s t \<Longrightarrow> wal_sys_inv base s \<Longrightarrow> wal_sys_inv base t"
  by (induction rule: rtranclp_induct) (auto intro: wal_step_inv)

text \<open>While the writer waits, everything it appended is on its way before its generation is published.\<close>

definition flush_progress :: "uint64 \<Rightarrow> wal_sys \<Rightarrow> bool" where
  "flush_progress g s \<longleftrightarrow> sync_generation (ws_wal s) = g
     \<and> (ws_syncing s \<longrightarrow> write_buffer (ws_wal s) = [])
     \<and> (flush_done g (ws_wal s) \<longrightarrow> \<not> ws_syncing s \<and> write_buffer (ws_wal s) = [])"

lemma flush_progress_step:
  assumes "wal_sync_step s t" "wal_sys_inv base s" "flush_progress g s"
  shows "flush_progress g t"
  using assms
proof (induction rule: wal_sync_step.induct)
  case (sync_put s w fs)
  then show ?case
    by (auto simp: flush_progress_def flush_done_def sync_defs split: list.splits option.splits)
qed (auto simp: flush_progress_def flush_done_def sync_defs wal_sys_inv_def wal_inv_def)

lemma flush_progress_steps:
  "wal_sync_step\<^sup>*\<^sup>* s t \<Longrightarrow> wal_sys_inv base s \<Longrightarrow> flush_progress g s \<Longrightarrow>
     wal_sys_inv base t \<and> flush_progress g t \<and> ws_log t = ws_log s"
  by (induction rule: rtranclp_induct)
     (auto dest: wal_sync_step_inv flush_progress_step)

lemma wal_replay_file:
  assumes "fs_read path fs = Some (concat (map (wal_record zcrc) es))" "\<forall>e\<in>set es. wal_entry_ok e"
  shows "wal_replay zcrc path fs = es"
proof -
  obtain v' where "wal_replay_loop zcrc replay_init (concat (map (wal_record zcrc) es) @ [])
      = es @ wal_replay_loop zcrc v' []"
    using replay_records [OF assms(2) replay_ok_init] by metis
  with assms(1) show ?thesis by (simp add: wal_replay_def wal_replay_loop_short)
qed

section \<open>Properties\<close>

text \<open>
  C31: recovery of an intact log.  When the log file holds the records of a sequence of
  writes one after the other, replay yields exactly that sequence, in order, for every
  checksum function.
\<close>

theorem wal_replay_roundtrip:
  assumes "fs_read path fs = Some (concat (map (wal_record zcrc) es))"
    and "\<forall>e\<in>set es. wal_entry_ok e"
  shows "wal_replay zcrc path fs = es"
  using assms by (rule wal_replay_file)

theorem wal_replay_roundtrip_witness:
  "wal_replay (\<lambda>c b. c + word_of_nat (length b)) ''log.bin''
     (fs_write_file ''log.bin'' (concat (map (wal_record (\<lambda>c b. c + word_of_nat (length b)))
        [(1, Op_PUT, ''k'', ''v''), (2, Op_DELETE, ''k'', '''')])) fs_empty)
   = [(1, Op_PUT, ''k'', ''v''), (2, Op_DELETE, ''k'', '''')]"
  by (rule wal_replay_roundtrip) (simp_all add: wal_entry_ok_def named_op_def)

text \<open>
  C33: crash in the middle of an append.  If the file ends in a proper prefix of a
  record, replay still yields every complete record before it.  It yields at most one
  entry more, and only if the checksum of that entry collides with the checksum of the
  torn record.
\<close>

theorem wal_replay_torn_tail:
  assumes "fs_read path fs = Some (concat (map (wal_record zcrc) es) @ p)"
    and "\<forall>e\<in>set es. wal_entry_ok e" "wal_entry_ok r" "wal_record zcrc r = p @ q" "q \<noteq> []"
  shows "wal_replay zcrc path fs = es \<or>
     (\<exists>g. wal_replay zcrc path fs = es @ [g] \<and> entry_checksum zcrc g = entry_checksum zcrc r)"
proof -
  obtain v' where v': "replay_ok v'"
    "wal_replay_loop zcrc replay_init (concat (map (wal_record zcrc) es) @ p)
       = es @ wal_replay_loop zcrc v' p"
    using replay_records [OF assms(2) replay_ok_init] by metis
  with replay_torn [OF v'(1) assms(3,4,5)] assms(1) show ?thesis by (auto simp: wal_replay_def)
qed

theorem wal_replay_torn_tail_witness:
  "wal_replay (\<lambda>c b. c) ''log.bin'' (fs_write_file ''log.bin''
      (concat (map (wal_record (\<lambda>c b. c)) [(1, Op_PUT, ''k'', ''v'')])
        @ take 20 (wal_record (\<lambda>c b. c) (2, Op_PUT, ''j'', ''w''))) fs_empty) = [(1, Op_PUT, ''k'', ''v'')]
   \<or> (\<exists>g. wal_replay (\<lambda>c b. c) ''log.bin'' (fs_write_file ''log.bin''
      (concat (map (wal_record (\<lambda>c b. c)) [(1, Op_PUT, ''k'', ''v'')])
        @ take 20 (wal_record (\<lambda>c b. c) (2, Op_PUT, ''j'', ''w''))) fs_empty) = [(1, Op_PUT, ''k'', ''v'')] @ [g]
      \<and> entry_checksum (\<lambda>c b. c) g = entry_checksum (\<lambda>c b. c) (2, Op_PUT, ''j'', ''w''))"
proof (rule wal_replay_torn_tail)
  let ?r = "wal_record (\<lambda>c b. c) (2, Op_PUT, ''j'', ''w'')"
  show "?r = take 20 ?r @ drop 20 ?r" by simp
  have "length ?r = 23" by (simp add: wal_record_length wal_entry_ok_def named_op_def)
  then show "drop 20 ?r \<noteq> []" by simp
qed (simp_all add: wal_entry_ok_def named_op_def)


definition wal_sys_new :: wal_sys where
  "wal_sys_new = \<lparr>ws_wal = fst (wal_open ''log.bin'' fs_empty), ws_fs = snd (wal_open ''log.bin'' fs_empty),
     ws_syncing = False, ws_waiting = None, ws_log = []\<rparr>"

lemma wal_sys_new_simps:
  "wal_inv (ws_wal wal_sys_new)" "wal_fd (ws_wal wal_sys_new) = Some 0" "\<not> ws_syncing wal_sys_new"
  "write_buffer (ws_wal wal_sys_new) = []" "ws_log wal_sys_new = []" "ws_waiting wal_sys_new = None"
  "fs_inodes (ws_fs wal_sys_new) 0 = []" "sync_generation (ws_wal wal_sys_new) = 0"
  "synced_generation (ws_wal wal_sys_new) = 0"
  by (simp_all add: wal_sys_new_def wal_open_def fs_open_create_def fs_empty_def wal_inv_def)


text \<open>
  A flush that finds the synchronisation thread idle is durable.  However the
  synchronisation thread then proceeds, at the moment the generation the writer waits for is
  published the file holds everything appended before the flush.
\<close>

lemma wal_flush_durable_when_idle:
  assumes "wal_sys_inv base s" "\<not> ws_syncing s" "ws_waiting s = None"
    and "synced_generation (ws_wal s) < sync_generation (ws_wal s) + 1"
    and "t = s\<lparr>ws_wal := flush_request (ws_wal s), ws_waiting := Some g\<rparr>"
    and "g = sync_generation (ws_wal s) + 1"
    and "wal_sync_step\<^sup>*\<^sup>* t u" "flush_done g (ws_wal u)"
  shows "on_disk u = base @ ws_log s"
proof -
  have t: "wal_sys_inv base t" "flush_progress g t"
    using assms(1-6) by (auto simp: wal_sys_defs flush_progress_def flush_done_def)
  have u: "wal_sys_inv base u" "flush_progress g u" "ws_log u = ws_log t"
    using flush_progress_steps [OF assms(7) t] by auto
  with assms(8) have "\<not> ws_syncing u" "write_buffer (ws_wal u) = []" by (auto simp: flush_progress_def)
  with u assms(5) show ?thesis by (simp add: wal_sys_inv_def in_flight_def)
qed

lemma wal_flush_durable_when_idle_example:
  "let s = wal_sys_new;
       t = s\<lparr>ws_wal := flush_request (ws_wal s), ws_waiting := Some 1\<rparr>;
       u = t\<lparr>ws_wal := sync_publish (ws_wal t)\<rparr>
   in wal_sync_step t u \<and> flush_done 1 (ws_wal u) \<and> on_disk u = [] @ ws_log s"
proof -
  define s where "s = wal_sys_new"
  define t where "t = s\<lparr>ws_wal := flush_request (ws_wal s), ws_waiting := Some 1\<rparr>"
  define u where "u = t\<lparr>ws_wal := sync_publish (ws_wal t)\<rparr>"
  have step: "wal_sync_step t u"
    unfolding u_def by (rule wal_sync_step.sync_nothing)
      (use wal_sys_new_simps in \<open>simp_all add: t_def s_def flush_request_def sync_idle_work_def wal_inv_def\<close>)
  then have run: "wal_sync_step\<^sup>*\<^sup>* t u" by (rule r_into_rtranclp)
  have fin: "flush_done 1 (ws_wal u)"
    by (simp add: u_def t_def s_def flush_done_def sync_publish_def flush_request_def wal_sys_new_simps)
  have "on_disk u = [] @ ws_log s"
    by (rule wal_flush_durable_when_idle [OF _ _ _ _ t_def _ run fin])
       (use wal_sys_new_simps in \<open>simp_all add: s_def wal_sys_defs\<close>)
  with step fin show ?thesis unfolding Let_def s_def t_def u_def by blast
qed

text \<open>
  C34: a flush that starts during a synchronisation is not durable when it returns.
  From any state with something buffered and an idle synchronisation thread there is a run in
  which the writer appends a record, calls \<open>flush\<close>, and \<open>flush\<close> returns, while the record
  is only in the memory buffer and not in the file: the synchronisation that was under way
  publishes the newer generation although it wrote the older buffer.
\<close>

theorem wal_flush_race:
  assumes "wal_sys_inv base s" "\<not> ws_syncing s" "ws_waiting s = None"
    and "write_buffer (ws_wal s) \<noteq> []"
  shows "\<exists>u. (wal_step zcrc)\<^sup>*\<^sup>* s u \<and> ws_waiting u = None
     \<and> synced_generation (ws_wal u) = sync_generation (ws_wal s) + 1
     \<and> ws_log u = ws_log s @ wal_record zcrc (n, op, key, val)
     \<and> on_disk u = base @ ws_log s
     \<and> write_buffer (ws_wal u) = wal_record zcrc (n, op, key, val)"
proof -
  obtain fd where fd: "wal_fd (ws_wal s) = Some fd" using assms(1) by (auto simp: wal_sys_inv_def)
  let ?g = "sync_generation (ws_wal s) + 1"
  define s1 where "s1 = s\<lparr>ws_wal := sync_swap (ws_wal s), ws_syncing := True\<rparr>"
  define s2 where "s2 = s1\<lparr>ws_wal := wal_append zcrc op key val n (ws_wal s1),
                         ws_log := ws_log s1 @ wal_record zcrc (n, op, key, val)\<rparr>"
  define s3 where "s3 = s2\<lparr>ws_wal := flush_request (ws_wal s2),
                         ws_waiting := Some (sync_generation (ws_wal s2) + 1)\<rparr>"
  define r where "r = sync_write full_write (ws_wal s3, ws_fs s3)"
  define s4 where "s4 = s3\<lparr>ws_wal := fst r, ws_fs := snd r, ws_syncing := False\<rparr>"
  define u where "u = s4\<lparr>ws_waiting := None\<rparr>"
  have sb: "sync_buffer (ws_wal s3) = write_buffer (ws_wal s)" "wal_fd (ws_wal s3) = Some fd"
    "write_buffer (ws_wal s3) = wal_record zcrc (n, op, key, val)" "sync_generation (ws_wal s3) = ?g"
    "ws_waiting s3 = Some ?g"
    by (simp_all add: s3_def s2_def s1_def sync_swap_def flush_request_def append_write_buffer fd
        wal_append_def Let_def)
  obtain b bs where wb: "write_buffer (ws_wal s) = b # bs" using assms(4) by (cases "write_buffer (ws_wal s)") auto
  have w4: "ws_wal s4 = sync_publish ((ws_wal s3)\<lparr>sync_buffer := []\<rparr>)"
    "ws_fs s4 = fs_append_fd fd (write_buffer (ws_wal s)) (ws_fs s)"
    using sb wb by (simp_all add: s4_def r_def sync_write_def full_write_def s3_def s2_def s1_def)
  have "wal_step zcrc s s1"
    using assms unfolding s1_def
    by (intro wal_step.sync wal_sync_step.sync_take) (auto simp: sync_idle_work_def wal_sys_inv_def wal_inv_def)
  moreover have "wal_step zcrc s1 s2"
    unfolding s2_def by (rule wal_step.append) (simp add: s1_def assms)
  moreover have "wal_step zcrc s2 s3"
    unfolding s3_def by (rule wal_step.flush_call) (simp add: s2_def s1_def assms)
  moreover have "wal_step zcrc s3 s4"
    unfolding s4_def by (intro wal_step.sync wal_sync_step.sync_put) (simp_all add: s3_def s2_def s1_def r_def)
  moreover have "wal_step zcrc s4 u"
    unfolding u_def by (rule wal_step.flush_return [of _ ?g])
      (simp_all add: w4 sb flush_done_def sync_publish_def, simp add: s4_def sb)
  ultimately have run: "(wal_step zcrc)\<^sup>*\<^sup>* s u"
    by (meson converse_rtranclp_into_rtranclp rtranclp.rtrancl_refl)
  have "on_disk s @ write_buffer (ws_wal s) = base @ ws_log s"
    using assms(1,2) by (simp add: wal_sys_inv_def in_flight_def)
  then have "on_disk u = base @ ws_log s"
    using fd sb(2) by (simp add: on_disk_def u_def w4 sync_publish_def fs_append_fd_def)
  with run show ?thesis
    by (intro exI [of _ u]) (simp add: u_def w4 sb sync_publish_def, simp add: s4_def s3_def s2_def s1_def)
qed

definition wal_sys_one :: wal_sys where
  "wal_sys_one = wal_sys_new\<lparr>ws_wal := wal_append (\<lambda>c b. c) Op_PUT ''k'' ''v'' 1 (ws_wal wal_sys_new),
     ws_log := wal_record (\<lambda>c b. c) (1, Op_PUT, ''k'', ''v'')\<rparr>"

theorem wal_flush_race_witness:
  "\<exists>u. (wal_step (\<lambda>c b. c))\<^sup>*\<^sup>* wal_sys_one u \<and> ws_waiting u = None
     \<and> on_disk u = [] @ ws_log wal_sys_one
     \<and> write_buffer (ws_wal u) = wal_record (\<lambda>c b. c) (2, Op_PUT, ''k'', ''w'')"
proof -
  have pre: "wal_sys_inv [] wal_sys_one" "\<not> ws_syncing wal_sys_one" "ws_waiting wal_sys_one = None"
    "write_buffer (ws_wal wal_sys_one) \<noteq> []"
    by (simp_all add: wal_sys_one_def wal_sys_inv_def on_disk_def in_flight_def wal_sys_new_simps
        append_write_buffer wal_record_def Let_def)
  show ?thesis
    using wal_flush_race [OF pre, of "\<lambda>c b. c" 2 Op_PUT "''k''" "''w''"] by blast
qed

end
