(* ===== verification/Bloom_Filter.thy ===== *)
theory Bloom_Filter
  imports KV_Types Complex_Main
begin

text \<open>
  The Bloom filter (\<open>engine/src/bloom_filter.cpp\<close>).  \<open>std::hash\<close> is implementation
  defined and a parameter \<open>hasher\<close> of every operation that uses it; nothing is assumed of
  it.  The dimensions of a new filter are computed by the sources in \<open>double\<close>; the model
  states the same formulas over the reals, so it does not describe the rounding of the
  last bit.  Indexing outside \<open>bits_\<close> or a buffer, a remainder by zero, and a
  conversion of a value that no \<open>size_t\<close> holds are undefined behaviour and an error
  value here.

  The lemmas: a filter never forgets an added key (also through the locale that the
  SSTable relies on), and serialisation is inverted by deserialisation.
\<close>

unbundle bit_operations_syntax

section \<open>The contract a table relies on\<close>

fun add_all :: "(string \<Rightarrow> 'f \<Rightarrow> kv_error + 'f) \<Rightarrow> string list \<Rightarrow> 'f \<Rightarrow> kv_error + 'f" where
  "add_all add [] f = Inr f"
| "add_all add (k # ks) f = sum_bind (add k f) (add_all add ks)"

locale membership_filter =
  fixes add :: "string \<Rightarrow> 'f \<Rightarrow> kv_error + 'f"
    and contains :: "'f \<Rightarrow> string \<Rightarrow> kv_error + bool"
    and invar :: "'f \<Rightarrow> bool"
  assumes add_ok: "invar f \<Longrightarrow> \<exists>f'. add k f = Inr f' \<and> invar f' \<and> contains f' k = Inr True"
    and add_mono: "invar f \<Longrightarrow> contains f j = Inr True \<Longrightarrow> add k f = Inr f' \<Longrightarrow> contains f' j = Inr True"
    and contains_total: "invar f \<Longrightarrow> \<exists>b. contains f k = Inr b"
begin

lemma add_all_mono:
  "invar f \<Longrightarrow> contains f j = Inr True \<Longrightarrow> add_all add ks f = Inr f' \<Longrightarrow> contains f' j = Inr True"
proof (induction ks arbitrary: f)
  case (Cons k ks)
  obtain g where g: "add k f = Inr g" "invar g" using add_ok [OF Cons.prems(1)] by blast
  have "contains g j = Inr True" using add_mono Cons.prems(1,2) g(1) by blast
  with Cons g show ?case by simp
qed simp

lemma add_all_ok:
  "invar f \<Longrightarrow> \<exists>f'. add_all add ks f = Inr f' \<and> invar f' \<and> (\<forall>k\<in>set ks. contains f' k = Inr True)"
proof (induction ks arbitrary: f)
  case (Cons k ks)
  obtain g where g: "add k f = Inr g" "invar g" "contains g k = Inr True"
    using add_ok [OF Cons.prems] by blast
  obtain h where h: "add_all add ks g = Inr h" "invar h" "\<forall>k\<in>set ks. contains h k = Inr True"
    using Cons.IH [OF g(2)] by blast
  have "contains h k = Inr True" using add_all_mono g(2,3) h(1) by blast
  with g(1) h show ?case by auto
qed auto

end

section \<open>The filter\<close>

record bloom_filter =
  bf_bits :: "bool list"
  bf_hashes :: uint64
  bf_size :: uint64

definition bf_double_bits :: "nat \<Rightarrow> real \<Rightarrow> real" where
  "bf_double_bits n p = - 1 * real n * ln p / (ln 2 * ln 2)"

definition bf_new :: "nat \<Rightarrow> real \<Rightarrow> kv_error + bloom_filter" where
  "bf_new num_elements rate =
     (if num_elements = 0 \<or> rate \<le> 0 \<or> bf_double_bits num_elements rate \<le> - 1
      then Inl UndefinedBehaviour
      else let m = nat \<lfloor>bf_double_bits num_elements rate\<rfloor>;
               k = nat \<lfloor>real m / real num_elements * ln 2\<rfloor>
           in Inr \<lparr>bf_bits = replicate m False,
                   bf_hashes = word_of_nat (if k < 1 then 1 else k),
                   bf_size = word_of_nat m\<rparr>)"

definition bf_hash :: "(string \<Rightarrow> uint64) \<Rightarrow> bloom_filter \<Rightarrow> string \<Rightarrow> kv_error + nat list" where
  "bf_hash hasher f key =
     (let hash1 = hasher key; hash2 = hasher (key @ ''salt'')
      in if bf_size f = 0 \<and> bf_hashes f \<noteq> 0 then Inl UndefinedBehaviour
         else Inr (map (\<lambda>i. unat ((hash1 + word_of_nat i * hash2) mod bf_size f))
                       [0..<unat (bf_hashes f)]))"

definition bf_add :: "(string \<Rightarrow> uint64) \<Rightarrow> string \<Rightarrow> bloom_filter \<Rightarrow> kv_error + bloom_filter" where
  "bf_add hasher key f =
     sum_bind (bf_hash hasher f key) (\<lambda>hs.
       if \<forall>h\<in>set hs. h < length (bf_bits f)
       then Inr (f\<lparr>bf_bits := foldl (\<lambda>b h. b[h := True]) (bf_bits f) hs\<rparr>)
       else Inl UndefinedBehaviour)"

definition bf_contains :: "(string \<Rightarrow> uint64) \<Rightarrow> bloom_filter \<Rightarrow> string \<Rightarrow> kv_error + bool" where
  "bf_contains hasher f key =
     sum_bind (bf_hash hasher f key) (\<lambda>hs.
       if \<forall>h\<in>set hs. h < length (bf_bits f)
       then Inr (\<forall>h\<in>set hs. bf_bits f ! h)
       else Inl UndefinedBehaviour)"

text \<open>\<open>data[j] |= (1 << b)\<close> and \<open>data[j] & (1 << b)\<close>.\<close>

definition or_bit :: "char \<Rightarrow> nat \<Rightarrow> char" where
  "or_bit c b = char_of ((of_char c :: nat) OR 2 ^ b)"

definition has_bit :: "char \<Rightarrow> nat \<Rightarrow> bool" where
  "has_bit c b = bit (of_char c :: nat) b"

fun pack_bits :: "bool list \<Rightarrow> nat \<Rightarrow> bytes \<Rightarrow> bytes" where
  "pack_bits [] i d = d"
| "pack_bits (b # bs) i d =
     pack_bits bs (Suc i) (if b then d[i div 8 := or_bit (d ! (i div 8)) (i mod 8)] else d)"

definition bf_serialize :: "bloom_filter \<Rightarrow> kv_error + bytes" where
  "bf_serialize f =
     (let num_bytes = (bf_size f + 7) div 8
      in if length (bf_bits f) < unat (bf_size f) \<or> 8 * unat num_bytes < unat (bf_size f)
         then Inl UndefinedBehaviour
         else Inr (put_u64 (bf_size f) @ put_u64 (bf_hashes f) @ put_u64 num_bytes @
                   pack_bits (take (unat (bf_size f)) (bf_bits f)) 0
                     (replicate (unat num_bytes) (CHR 0x00))))"

definition bf_deserialize :: "bytes \<Rightarrow> kv_error + bloom_filter" where
  "bf_deserialize data =
     (case get_u64 data of None \<Rightarrow> Inl UndefinedBehaviour | Some (bit_array_size, d1) \<Rightarrow>
     (case get_u64 d1 of None \<Rightarrow> Inl UndefinedBehaviour | Some (num_hash_functions, d2) \<Rightarrow>
     (case get_u64 d2 of None \<Rightarrow> Inl UndefinedBehaviour | Some (num_bytes, d3) \<Rightarrow>
        if 8 * length d3 < unat bit_array_size then Inl UndefinedBehaviour
        else Inr \<lparr>bf_bits = map (\<lambda>i. has_bit (d3 ! (i div 8)) (i mod 8)) [0..<unat bit_array_size],
                  bf_hashes = num_hash_functions, bf_size = bit_array_size\<rparr>)))"

section \<open>Invariant; no false negatives\<close>

definition bf_inv :: "bloom_filter \<Rightarrow> bool" where
  "bf_inv f \<longleftrightarrow> bf_size f \<noteq> 0 \<and> length (bf_bits f) = unat (bf_size f)"

lemma bf_hash_ok:
  assumes "bf_inv f"
  obtains hs where "bf_hash hasher f key = Inr hs" "\<forall>h\<in>set hs. h < length (bf_bits f)"
proof -
  have "unat (w mod bf_size f) < unat (bf_size f)" for w
    using assms by (simp add: bf_inv_def unat_mod_distrib unat_gt_0)
  then show ?thesis
    using assms that by (simp add: bf_hash_def bf_inv_def Let_def)
qed

lemma bf_hash_dims: "bf_size g = bf_size f \<Longrightarrow> bf_hashes g = bf_hashes f \<Longrightarrow>
    bf_hash hasher g key = bf_hash hasher f key"
  by (simp add: bf_hash_def)

lemma length_foldl_set [simp]: "length (foldl (\<lambda>b h. b[h := True]) bs hs) = length bs"
  by (induction hs arbitrary: bs) auto

lemma nth_foldl_set:
  "j < length bs \<Longrightarrow> foldl (\<lambda>b h. b[h := True]) bs hs ! j \<longleftrightarrow> bs ! j \<or> j \<in> set hs"
proof (induction hs arbitrary: bs)
  case (Cons h hs)
  then show ?case by (cases "h = j") auto
qed simp

lemma bf_add_contains:
  assumes "bf_inv f"
  obtains f' where "bf_add hasher k f = Inr f'" "bf_inv f'"
    "bf_contains hasher f' k = Inr True"
    "bf_size f' = bf_size f" "bf_hashes f' = bf_hashes f"
    "\<And>j. bf_contains hasher f j = Inr True \<Longrightarrow> bf_contains hasher f' j = Inr True"
proof -
  obtain hs where hs: "bf_hash hasher f k = Inr hs" "\<forall>h\<in>set hs. h < length (bf_bits f)"
    using bf_hash_ok [OF assms] .
  define f' where "f' = f\<lparr>bf_bits := foldl (\<lambda>b h. b[h := True]) (bf_bits f) hs\<rparr>"
  have add: "bf_add hasher k f = Inr f'" using hs by (simp add: bf_add_def f'_def)
  have same: "bf_hash hasher f' j = bf_hash hasher f j" for j
    by (rule bf_hash_dims) (simp_all add: f'_def)
  have mono: "bf_contains hasher f' j = Inr True" if j: "bf_contains hasher f j = Inr True" for j
  proof -
    obtain gs where gs: "bf_hash hasher f j = Inr gs" "\<forall>h\<in>set gs. h < length (bf_bits f)"
      using bf_hash_ok [OF assms] .
    with j have "\<forall>h\<in>set gs. bf_bits f ! h" by (simp add: bf_contains_def)
    with gs show ?thesis by (simp add: bf_contains_def same) (simp add: f'_def nth_foldl_set)
  qed
  have "bf_contains hasher f' k = Inr True"
    using hs by (simp add: bf_contains_def same) (simp add: f'_def nth_foldl_set)
  moreover have "bf_inv f'" using assms by (simp add: f'_def bf_inv_def)
  ultimately show ?thesis using that [OF add] mono by (simp add: f'_def)
qed

lemma bf_contains_total: "bf_inv f \<Longrightarrow> \<exists>b. bf_contains hasher f k = Inr b"
  by (rule bf_hash_ok [of f hasher k]) (auto simp: bf_contains_def)

interpretation bloom: membership_filter "bf_add hasher" "bf_contains hasher" bf_inv
  for hasher
proof unfold_locales
  fix f k assume inv: "bf_inv f"
  show "\<exists>f'. bf_add hasher k f = Inr f' \<and> bf_inv f' \<and> bf_contains hasher f' k = Inr True"
    using bf_add_contains [OF inv, of hasher k] by metis
  show "\<exists>b. bf_contains hasher f k = Inr b" using inv by (rule bf_contains_total)
  fix j f' assume "bf_contains hasher f j = Inr True" "bf_add hasher k f = Inr f'"
  then show "bf_contains hasher f' j = Inr True"
    using bf_add_contains [OF inv, of hasher k] by (metis sum.inject(2))
qed

lemma bf_add_all_dims:
  "bf_inv f \<Longrightarrow> add_all (bf_add hasher) ks f = Inr f' \<Longrightarrow>
     bf_size f' = bf_size f \<and> bf_hashes f' = bf_hashes f"
proof (induction ks arbitrary: f)
  case (Cons k ks)
  obtain g where "bf_add hasher k f = Inr g" "bf_inv g" "bf_size g = bf_size f" "bf_hashes g = bf_hashes f"
    using bf_add_contains [OF Cons.prems(1), of hasher k] by metis
  with Cons show ?case by auto
qed simp

section \<open>Round trip\<close>

lemma has_bit_or_bit:
  assumes "b' < 8"
  shows "has_bit (or_bit c b) b' \<longleftrightarrow> has_bit c b' \<or> b = b'"
proof -
  have "(of_char (or_bit c b) :: nat) = take_bit 8 ((of_char c :: nat) OR 2 ^ b)"
    by (simp add: or_bit_def of_char_of take_bit_eq_mod)
  with assms show ?thesis
    by (auto simp: has_bit_def bit_take_bit_iff bit_or_iff bit_exp_iff)
qed

lemma has_bit_zero [simp]: "\<not> has_bit (CHR 0x00) b"
  by (simp add: has_bit_def)

lemma length_pack_bits [simp]: "length (pack_bits bs i d) = length d"
  by (induction bs i d rule: pack_bits.induct) auto

lemma has_bit_pack_bits:
  assumes "i + length bs \<le> 8 * length d" "j < 8 * length d"
  shows "has_bit (pack_bits bs i d ! (j div 8)) (j mod 8) \<longleftrightarrow>
     has_bit (d ! (j div 8)) (j mod 8) \<or> i \<le> j \<and> j < i + length bs \<and> bs ! (j - i)"
  using assms
proof (induction bs i d rule: pack_bits.induct)
  case (2 b bs i d)
  define d' where "d' = (if b then d[i div 8 := or_bit (d ! (i div 8)) (i mod 8)] else d)"
  have len: "length d' = length d" by (simp add: d'_def)
  have "has_bit (pack_bits bs (Suc i) d' ! (j div 8)) (j mod 8) \<longleftrightarrow>
     has_bit (d' ! (j div 8)) (j mod 8) \<or> Suc i \<le> j \<and> j < Suc i + length bs \<and> bs ! (j - Suc i)"
    using 2 len by (simp add: d'_def)
  moreover have "has_bit (d' ! (j div 8)) (j mod 8) \<longleftrightarrow> has_bit (d ! (j div 8)) (j mod 8) \<or> b \<and> i = j"
  proof (cases "i div 8 = j div 8")
    case True
    have "i div 8 < length d" using "2.prems"(1) by simp
    moreover have "i mod 8 = j mod 8 \<longleftrightarrow> i = j" using True by (metis div_mod_decomp)
    ultimately show ?thesis using True by (auto simp: d'_def has_bit_or_bit)
  next
    case False
    then show ?thesis by (auto simp: d'_def)
  qed
  ultimately show ?case
    by (cases "i = j") (auto simp: d'_def nth_Cons' Suc_le_eq)
qed auto

lemma bf_deserialize_serialize:
  assumes "bf_inv f" "unat (bf_size f) + 7 < 2 ^ 64"
  obtains data where "bf_serialize f = Inr data" "bf_deserialize data = Inr f"
    "length data = 24 + (unat (bf_size f) + 7) div 8"
proof -
  define m where "m = unat (bf_size f)"
  define nb where "nb = (m + 7) div 8"
  have "unat (bf_size f + 7) = m + 7"
    using assms(2) by (simp add: m_def unat_word_ariths)
  then have nb: "unat ((bf_size f + 7) div 8) = nb"
    by (simp add: nb_def unat_div_distrib)
  have bits: "length (bf_bits f) = m" using assms(1) by (simp add: bf_inv_def m_def)
  have room: "m \<le> 8 * nb" by (simp add: nb_def)
  define body where "body = pack_bits (bf_bits f) 0 (replicate nb (CHR 0x00))"
  define data where "data = put_u64 (bf_size f) @ put_u64 (bf_hashes f)
      @ put_u64 ((bf_size f + 7) div 8) @ body"
  have ser: "bf_serialize f = Inr data"
    using bits room nb by (simp add: bf_serialize_def Let_def data_def body_def m_def)
  have "map (\<lambda>i. has_bit (body ! (i div 8)) (i mod 8)) [0..<m] = bf_bits f"
  proof (rule nth_equalityI)
    fix i assume "i < length (map (\<lambda>i. has_bit (body ! (i div 8)) (i mod 8)) [0..<m])"
    then have "i < m" by simp
    then show "map (\<lambda>i. has_bit (body ! (i div 8)) (i mod 8)) [0..<m] ! i = bf_bits f ! i"
      using room bits has_bit_pack_bits [of 0 "bf_bits f" "replicate nb (CHR 0x00)" i]
      by (simp add: body_def less_mult_imp_div_less)
  qed (simp add: bits)
  then have "bf_deserialize data = Inr f"
    using room by (simp add: bf_deserialize_def data_def body_def m_def)
  moreover have "length data = 24 + nb" by (simp add: data_def body_def)
  ultimately show ?thesis using that ser by (simp add: nb_def m_def)
qed

section \<open>The dimensions of a new filter\<close>

text \<open>At the rate the tables use, between one and fourteen bits per key.\<close>

lemma ln_100_bounds: "ln 2 * ln 2 \<le> ln (100::real)" "ln (100::real) \<le> 14 * (ln 2 * ln 2)"
proof -
  have "exp (1 / 2 :: real) ^ 2 = exp 1" by (simp flip: exp_of_nat_mult)
  also have "\<dots> \<le> (2::real) ^ 2" using exp_le by simp
  finally have "exp (1 / 2 :: real) \<le> 2" by (rule power2_le_imp_le) simp
  then have l2: "1 / 2 \<le> ln (2::real)" using ln_ge_iff [of "2::real" "1 / 2"] by linarith
  have l2u: "ln (2::real) \<le> 1" using ln_le_minus_one [of "2::real"] by simp
  have "ln (100::real) \<le> ln (2 ^ 7)" by (simp add: ln_less_cancel_iff)
  also have "\<dots> = 7 * ln 2" using ln_realpow [of "2::real" 7] by simp
  also have "\<dots> \<le> 14 * (ln 2 * ln 2)" using l2 mult_right_mono [OF l2, of "ln 2"] by simp
  finally show "ln (100::real) \<le> 14 * (ln 2 * ln 2)" .
  have "ln 2 * ln 2 \<le> ln (2::real)" using l2 l2u by (simp add: mult_left_le)
  also have "\<dots> \<le> ln (100::real)" by simp
  finally show "ln 2 * ln 2 \<le> ln (100::real)" .
qed

lemma bf_double_bits_bounds:
  "real n \<le> bf_double_bits n (1 / 100)" "bf_double_bits n (1 / 100) \<le> 14 * real n"
proof -
  have pos: "0 < ln 2 * ln (2::real)" by simp
  have eq: "bf_double_bits n (1 / 100) = real n * (ln 100 / (ln 2 * ln 2))"
    by (simp add: bf_double_bits_def ln_div)
  have "1 \<le> ln 100 / (ln 2 * ln (2::real))" using ln_100_bounds(1) pos by (simp add: le_divide_eq)
  then show "real n \<le> bf_double_bits n (1 / 100)"
    unfolding eq by (metis mult.right_neutral mult_left_mono of_nat_0_le_iff)
  have "ln 100 / (ln 2 * ln (2::real)) \<le> 14" using ln_100_bounds(2) pos by (simp add: divide_le_eq)
  then show "bf_double_bits n (1 / 100) \<le> 14 * real n"
    unfolding eq by (metis mult.commute mult_left_mono of_nat_0_le_iff)
qed

lemma bf_new_ok:
  assumes "0 < n" "14 * n < 2 ^ 64"
  obtains f where "bf_new n (1 / 100) = Inr f" "bf_inv f"
    "n \<le> unat (bf_size f)" "unat (bf_size f) \<le> 14 * n"
proof -
  define m where "m = nat \<lfloor>bf_double_bits n (1 / 100)\<rfloor>"
  have lo: "n \<le> m" using bf_double_bits_bounds(1) [of n] by (simp add: m_def le_nat_iff le_floor_iff)
  have "\<lfloor>bf_double_bits n (1 / 100)\<rfloor> \<le> int (14 * n)"
    using bf_double_bits_bounds(2) [of n] by (simp add: floor_le_iff)
  then have hi: "m \<le> 14 * n" by (simp add: m_def)
  have um: "unat (word_of_nat m :: uint64) = m" using hi assms(2) by simp
  have nz: "(word_of_nat m :: uint64) \<noteq> 0"
    using um lo assms(1) by (metis unat_0 le_0_eq less_irrefl_nat)
  have "\<not> bf_double_bits n (1 / 100) \<le> - 1" using bf_double_bits_bounds(1) [of n] by linarith
  then show ?thesis
    using that assms(1) um nz lo hi
    by (simp add: bf_new_def m_def [symmetric] Let_def bf_inv_def)
qed

section \<open>Properties\<close>

text \<open>
  C39: no false negatives.  Whatever the hash function, building a filter for a
  non-empty number of keys succeeds, adding any list of keys to it never leaves the bit
  array, and every added key is reported as contained.
\<close>

theorem bloom_no_false_negatives:
  assumes "0 < n" "14 * n < 2 ^ 64"
  shows "\<exists>f f'. bf_new n (1 / 100) = Inr f \<and> add_all (bf_add hasher) ks f = Inr f'
           \<and> (\<forall>k\<in>set ks. bf_contains hasher f' k = Inr True)"
proof -
  obtain f where f: "bf_new n (1 / 100) = Inr f" "bf_inv f" using bf_new_ok [OF assms] .
  from bloom.add_all_ok [OF f(2)] f(1) show ?thesis by blast
qed

theorem bloom_no_false_negatives_witness:
  "\<exists>f f'. bf_new 2 (1 / 100) = Inr f \<and> add_all (bf_add (\<lambda>s. word_of_nat (length s))) [''a'', ''bc''] f = Inr f'
     \<and> bf_contains (\<lambda>s. word_of_nat (length s)) f' ''bc'' = Inr True"
  using bloom_no_false_negatives [of 2 "\<lambda>s. word_of_nat (length s)" "[''a'', ''bc'']"] by auto

text \<open>
  Persistence of the filter.  Serialising a filter whose bit array has the
  recorded size succeeds, and deserialising the bytes gives back the same filter, so a
  reloaded table answers membership queries exactly as before.
\<close>

lemma bloom_serialize_roundtrip:
  assumes "bf_inv f" "unat (bf_size f) + 7 < 2 ^ 64"
  shows "\<exists>data. bf_serialize f = Inr data \<and> bf_deserialize data = Inr f
           \<and> length data = 24 + (unat (bf_size f) + 7) div 8"
  using bf_deserialize_serialize [OF assms] by blast

lemma bloom_serialize_roundtrip_example:
  "\<exists>data. bf_serialize \<lparr>bf_bits = [True, False, True], bf_hashes = 1, bf_size = 3\<rparr> = Inr data
     \<and> bf_deserialize data = Inr \<lparr>bf_bits = [True, False, True], bf_hashes = 1, bf_size = 3\<rparr>"
  using bloom_serialize_roundtrip [of "\<lparr>bf_bits = [True, False, True], bf_hashes = 1, bf_size = 3\<rparr>"]
  by (auto simp: bf_inv_def)

end
