(* ===== verification/SSTable.thy ===== *)
theory SSTable
  imports Bloom_Filter File_System
begin

text \<open>
  Sorted string tables (\<open>engine/src/sstable.cpp\<close>): the byte layout that \<open>flush\<close>
  writes, reading the metadata back, the point query with its sparse index and Bloom
  filter, the full scan, and the iterator of the compactions.

  A read that runs past the end of the file into an integer leaves that integer
  indeterminate; using it is an error value.  A short read into a string leaves zero
  bytes, as the buffer was zero-filled.  The file handle that \<open>getFile\<close> caches is not
  part of the state: a table reads the file its path names at the time of the call.

  The main facts: the table that \<open>flush\<close> returns is the one that the constructor
  loads from the file, and \<open>get\<close>, \<open>getData\<close> and the iterator agree with the
  snapshot that was flushed.
\<close>

section \<open>Layout\<close>

definition INDEX_INTERVAL :: nat where
  "INDEX_INTERVAL = 16"

definition BLOOM_FP_RATE :: real where
  "BLOOM_FP_RATE = 1 / 100"

text \<open>Strings are written behind their length, which is cut to 32 bits.\<close>

definition len32 :: "string \<Rightarrow> uint32" where
  "len32 s = word_of_nat (length s)"

definition str32 :: "string \<Rightarrow> bytes" where
  "str32 s = take (unat (len32 s)) s"

definition sst_record :: "string \<Rightarrow> entry \<Rightarrow> bytes" where
  "sst_record k v = put_u64 (ent_seq v) @ [byte_of_type (ent_type v)] @ put_u32 (len32 k)
     @ put_u32 (len32 (ent_value v)) @ str32 k @ str32 (ent_value v)"

definition enc_index :: "index_entry \<Rightarrow> bytes" where
  "enc_index i = put_u32 (len32 (ie_key i)) @ str32 (ie_key i) @ put_u64 (ie_offset i)"

definition dec_index :: "bytes \<Rightarrow> (index_entry \<times> bytes) option" where
  "dec_index bs =
     (case get_u32 bs of None \<Rightarrow> None | Some (keyLen, b1) \<Rightarrow>
        let (key, b2) = read_chars (unat keyLen) b1 in
        (case get_u64 b2 of None \<Rightarrow> None | Some (offset, b3) \<Rightarrow>
           Some (\<lparr>ie_key = key, ie_offset = offset\<rparr>, b3)))"

record sstable =
  sst_path :: string
  sst_min :: string
  sst_max :: string
  sst_meta_off :: "uint64 option"
  sst_index :: "index_entry list"
  sst_bloom :: "bloom_filter option"

definition sst_filename :: "sstable \<Rightarrow> string" where
  "sst_filename t = sst_path t"

section \<open>Opening a table: SSTable(path) and loadMetadata\<close>

definition sst_blank :: "string \<Rightarrow> sstable" where
  "sst_blank path = \<lparr>sst_path = path, sst_min = [], sst_max = [], sst_meta_off = None,
     sst_index = [], sst_bloom = None\<rparr>"

definition sst_parse_metadata :: "string \<Rightarrow> bytes \<Rightarrow> (sstable \<times> bytes) option" where
  "sst_parse_metadata path content =
     (case get_u64 (drop (length content - 8) content) of None \<Rightarrow> None | Some (off, _) \<Rightarrow>
     (case get_u32 (drop (unat off) content) of None \<Rightarrow> None | Some (minKeyLen, b1) \<Rightarrow>
     (case get_u32 b1 of None \<Rightarrow> None | Some (maxKeyLen, b2) \<Rightarrow>
        let (mn, b3) = read_chars (unat minKeyLen) b2;
            (mx, b4) = read_chars (unat maxKeyLen) b3 in
     (case get_u32 b4 of None \<Rightarrow> None | Some (indexSize, b5) \<Rightarrow>
     (case dec_many dec_index (unat indexSize) b5 of None \<Rightarrow> None | Some (index, b6) \<Rightarrow>
     (case get_u32 b6 of None \<Rightarrow> None | Some (bloomSize, b7) \<Rightarrow>
        Some ((sst_blank path)\<lparr>sst_min := mn, sst_max := mx, sst_meta_off := Some off, sst_index := index\<rparr>,
              fst (read_chars (unat bloomSize) b7))))))))"

definition sst_open :: "string \<Rightarrow> file_system \<Rightarrow> kv_error + sstable" where
  "sst_open path fs =
     (case fs_read path fs of
        None \<Rightarrow> Inr (sst_blank path)
      | Some content \<Rightarrow>
          (case sst_parse_metadata path content of
             None \<Rightarrow> Inl UndefinedBehaviour
           | Some (t, bloom_data) \<Rightarrow>
               sum_bind (bf_deserialize bloom_data) (\<lambda>bf. Inr (t\<lparr>sst_bloom := Some bf\<rparr>))))"

section \<open>Writing a table: SSTable::flush\<close>

fun sst_write_entries :: "(string \<Rightarrow> uint64) \<Rightarrow> (string \<times> entry) list \<Rightarrow>
    bytes \<Rightarrow> nat \<Rightarrow> index_entry list \<Rightarrow> bloom_filter \<Rightarrow>
    kv_error + bytes \<times> index_entry list \<times> bloom_filter" where
  "sst_write_entries hasher [] file entry_count index bf = Inr (file, index, bf)"
| "sst_write_entries hasher ((k, v) # m) file entry_count index bf =
     sum_bind (bf_add hasher k bf) (\<lambda>bf'.
       let index' = (if entry_count mod INDEX_INTERVAL = 0
                     then index @ [\<lparr>ie_key = k, ie_offset = word_of_nat (length file)\<rparr>] else index)
       in sst_write_entries hasher m (file @ sst_record k v) (Suc entry_count) index' bf')"

definition sst_name :: "string \<Rightarrow> uint64 \<Rightarrow> string" where
  "sst_name dir_path n = dir_path @ ''sstable_'' @ to_string (unat n) @ ''.bin''"

definition sst_footer :: "string \<Rightarrow> string \<Rightarrow> index_entry list \<Rightarrow> bytes \<Rightarrow> uint64 \<Rightarrow> bytes" where
  "sst_footer mn mx index bloom_data off =
     put_u32 (len32 mn) @ put_u32 (len32 mx) @ str32 mn @ str32 mx
     @ put_u32 (word_of_nat (length index)) @ concat (map enc_index index)
     @ put_u32 (len32 bloom_data) @ str32 bloom_data @ put_u64 off"

definition sst_flush :: "(string \<Rightarrow> uint64) \<Rightarrow> (string \<times> entry) list \<Rightarrow> string \<Rightarrow> uint64 \<Rightarrow>
    file_system \<Rightarrow> kv_error + sstable \<times> file_system" where
  "sst_flush hasher snapshot dir_path flush_counter fs =
     (let full_path = sst_name dir_path flush_counter in
      sum_bind (sst_open full_path fs) (\<lambda>table.
      sum_bind (bf_new (length snapshot) BLOOM_FP_RATE) (\<lambda>bf.
      sum_bind (sst_write_entries hasher snapshot [] 0 (sst_index table) bf) (\<lambda>(file, index, bf').
      if snapshot = [] then Inl UndefinedBehaviour
      else
        let mn = fst (hd snapshot); mx = fst (last snapshot); off = word_of_nat (length file) in
        sum_bind (bf_serialize bf') (\<lambda>bloom_data.
          Inr (table\<lparr>sst_min := mn, sst_max := mx, sst_meta_off := Some off,
                     sst_index := index, sst_bloom := Some bf'\<rparr>,
               fs_write_file full_path (file @ sst_footer mn mx index bloom_data off) fs))))))"

section \<open>Reading entries\<close>

datatype rec_read = Rec_eof | Rec_undef | Rec sstable_entry bytes

definition sst_read_record :: "bytes \<Rightarrow> rec_read" where
  "sst_read_record bs =
     (case get_u64 bs of None \<Rightarrow> Rec_eof | Some (sq, b1) \<Rightarrow>
     (case get_u8 b1 of None \<Rightarrow> Rec_undef | Some (ty, b2) \<Rightarrow>
     (case get_u32 b2 of None \<Rightarrow> Rec_undef | Some (keyLen, b3) \<Rightarrow>
     (case get_u32 b3 of None \<Rightarrow> Rec_undef | Some (valueLen, b4) \<Rightarrow>
        let (k, b5) = read_chars (unat keyLen) b4;
            (v, b6) = (if type_of_byte ty = Et_PUT then read_chars (unat valueLen) b5
                       else (replicate (unat valueLen) (CHR 0x00), b5))
        in Rec \<lparr>se_key = k, se_value = v, se_seq = sq, se_type = type_of_byte ty\<rparr> b6))))"

definition entry_of :: "sstable_entry \<Rightarrow> entry" where
  "entry_of e = \<lparr>ent_value = se_value e, ent_seq = se_seq e, ent_type = se_type e\<rparr>"

lemma sst_read_record_shrinks: "sst_read_record bs = Rec e rest \<Longrightarrow> length rest < length bs"
  by (auto simp: sst_read_record_def read_chars_def Let_def split: option.splits prod.splits if_splits
      dest!: get_u64_length get_u8_length get_u32_length)

text \<open>
  The loop of \<open>get\<close>: \<open>n\<close> is the distance from the read position to \<open>search_end\<close>.
\<close>

function sst_scan :: "string \<Rightarrow> nat \<Rightarrow> bytes \<Rightarrow> kv_error + entry option" where
  "sst_scan key n bs =
     (if n = 0 then Inr None
      else case sst_read_record bs of
        Rec_eof \<Rightarrow> Inr None
      | Rec_undef \<Rightarrow> Inl UndefinedBehaviour
      | Rec e rest \<Rightarrow>
          if se_key e = key then Inr (Some (entry_of e))
          else if se_key e > key then Inr None
          else sst_scan key (n - (length bs - length rest)) rest)"
  by pat_completeness auto
termination
  by (relation "measure (\<lambda>(key, n, bs). length bs)") (auto dest: sst_read_record_shrinks)

declare sst_scan.simps [simp del]

text \<open>The block of the file that can hold the key, from the sparse index.\<close>

definition sst_search_range :: "index_entry list \<Rightarrow> uint64 \<Rightarrow> string \<Rightarrow> nat \<times> nat" where
  "sst_search_range index off key =
     (if index = [] then (0, unat off)
      else let it0 = upper_bound (\<lambda>k i. k < ie_key i) index key;
               it = (if it0 \<noteq> 0 then it0 - 1 else it0);
               search_start = (if it0 \<noteq> 0 then unat (ie_offset (index ! it)) else 0);
               search_end = (if it \<noteq> length index \<and> it + 1 \<noteq> length index
                             then unat (ie_offset (index ! (it + 1))) else unat off)
           in (search_start, search_end))"

definition sst_get :: "(string \<Rightarrow> uint64) \<Rightarrow> file_system \<Rightarrow> sstable \<Rightarrow> string \<Rightarrow> kv_error + entry option" where
  "sst_get hasher fs t key =
     (if key < sst_min t \<or> key > sst_max t then Inr None
      else sum_bind (case sst_bloom t of None \<Rightarrow> Inr True | Some bf \<Rightarrow> bf_contains hasher bf key) (\<lambda>may.
        if \<not> may then Inr None
        else case fs_read (sst_path t) fs of
          None \<Rightarrow> Inl (RuntimeError (''Failed to open SSTable: '' @ sst_path t))
        | Some content \<Rightarrow>
            (case sst_meta_off t of
               None \<Rightarrow> Inl UndefinedBehaviour
             | Some off \<Rightarrow>
                 let (search_start, search_end) = sst_search_range (sst_index t) off key
                 in sst_scan key (search_end - search_start) (drop search_start content))))"

text \<open>The loop of \<open>getData\<close>.\<close>

function sst_collect :: "nat \<Rightarrow> bytes \<Rightarrow> (string \<times> entry) list \<Rightarrow> kv_error + (string \<times> entry) list" where
  "sst_collect n bs data =
     (if n = 0 then Inr data
      else case sst_read_record bs of
        Rec_eof \<Rightarrow> Inr data
      | Rec_undef \<Rightarrow> Inl UndefinedBehaviour
      | Rec e rest \<Rightarrow>
          sst_collect (n - (length bs - length rest)) rest (smap_put (se_key e) (entry_of e) data))"
  by pat_completeness auto
termination
  by (relation "measure (\<lambda>(n, bs, data). length bs)") (auto dest: sst_read_record_shrinks)

declare sst_collect.simps [simp del]

definition sst_getData :: "file_system \<Rightarrow> sstable \<Rightarrow> kv_error + (string \<times> entry) list" where
  "sst_getData fs t =
     (case fs_read (sst_path t) fs of
        None \<Rightarrow> Inl (RuntimeError (''Failed to open SSTable: '' @ sst_path t))
      | Some content \<Rightarrow>
          (case sst_meta_off t of
             None \<Rightarrow> Inl UndefinedBehaviour
           | Some off \<Rightarrow> sst_collect (unat off) content []))"

section \<open>SSTable::Iterator\<close>

text \<open>\<open>it_left\<close> is the distance from the read position to \<open>data_end_\<close>.\<close>

record sst_iter =
  it_rest :: bytes
  it_left :: nat
  it_valid :: bool
  it_current :: sstable_entry

definition iter_readNext :: "sst_iter \<Rightarrow> kv_error + sst_iter" where
  "iter_readNext it =
     (if it_left it = 0 then Inr (it\<lparr>it_valid := False\<rparr>)
      else case sst_read_record (it_rest it) of
        Rec_eof \<Rightarrow> Inr (it\<lparr>it_valid := False, it_rest := []\<rparr>)
      | Rec_undef \<Rightarrow> Inl UndefinedBehaviour
      | Rec e rest \<Rightarrow> Inr \<lparr>it_rest = rest, it_left = it_left it - (length (it_rest it) - length rest),
                          it_valid = True, it_current = e\<rparr>)"

definition iter_new :: "file_system \<Rightarrow> sstable \<Rightarrow> kv_error + sst_iter" where
  "iter_new fs t =
     (case fs_read (sst_path t) fs of
        None \<Rightarrow> Inl (RuntimeError (''Failed to open the SSTable: '' @ sst_path t))
      | Some content \<Rightarrow>
          (case sst_meta_off t of
             None \<Rightarrow> Inl UndefinedBehaviour
           | Some off \<Rightarrow> iter_readNext \<lparr>it_rest = content, it_left = unat off, it_valid = False,
               it_current = \<lparr>se_key = [], se_value = [], se_seq = 0, se_type = Et_PUT\<rparr>\<rparr>))"

definition iter_next :: "sst_iter \<Rightarrow> kv_error + sst_iter" where
  "iter_next it = iter_readNext it"

definition iter_entry :: "sst_iter \<Rightarrow> sstable_entry" where
  "iter_entry it = it_current it"

section \<open>Codecs\<close>

lemma str32_id [simp]: "length s < 2 ^ 32 \<Longrightarrow> str32 s = s"
  by (simp add: str32_def len32_def)

lemma unat_len32 [simp]: "length s < 2 ^ 32 \<Longrightarrow> unat (len32 s) = length s"
  by (simp add: len32_def)

definition key_fits :: "string \<Rightarrow> bool" where
  "key_fits s \<longleftrightarrow> length s < 2 ^ 32"

definition entry_fits :: "string \<times> entry \<Rightarrow> bool" where
  "entry_fits = (\<lambda>(k, e). entry_ok e \<and> length k < 2 ^ 32 \<and> length (ent_value e) < 2 ^ 32)"

interpretation index_codec: codec enc_index dec_index "\<lambda>i. key_fits (ie_key i)"
  by unfold_locales (simp add: enc_index_def dec_index_def key_fits_def read_chars_append)

definition se_of :: "string \<Rightarrow> entry \<Rightarrow> sstable_entry" where
  "se_of k e = \<lparr>se_key = k, se_value = ent_value e, se_seq = ent_seq e, se_type = ent_type e\<rparr>"

lemma entry_of_se_of [simp]: "entry_of (se_of k e) = e"
  by (simp add: entry_of_def se_of_def)

lemma se_of_simps [simp]: "se_key (se_of k e) = k" "se_value (se_of k e) = ent_value e"
  "se_seq (se_of k e) = ent_seq e" "se_type (se_of k e) = ent_type e"
  by (simp_all add: se_of_def)

lemma sst_read_record_rec [simp]:
  assumes "entry_fits (k, e)"
  shows "sst_read_record (sst_record k e @ bs) = Rec (se_of k e) bs"
proof -
  have nt: "named_type (ent_type e)" using assms by (simp add: entry_fits_def entry_ok_named)
  have v: "ent_type e = Et_PUT \<or> ent_value e = []" using assms by (auto simp: entry_fits_def entry_ok_def)
  show ?thesis
    using assms nt v
    by (auto simp: sst_read_record_def sst_record_def entry_fits_def se_of_def read_chars_append
        len32_def)
qed

text \<open>The data section of a table.\<close>

definition data_bytes :: "(string \<times> entry) list \<Rightarrow> bytes" where
  "data_bytes es = concat (map (\<lambda>(k, e). sst_record k e) es)"

lemma data_bytes_simps [simp]:
  "data_bytes [] = []" "data_bytes ((k, e) # es) = sst_record k e @ data_bytes es"
  "data_bytes (as @ bs) = data_bytes as @ data_bytes bs"
  by (simp_all add: data_bytes_def)

lemma sst_record_not_Nil [simp]: "sst_record k e \<noteq> []" "0 < length (sst_record k e)"
  by (simp_all add: sst_record_def)

section \<open>Scanning and collecting a data section\<close>

lemma sst_scan_data:
  assumes "sorted_keys es" "\<forall>x\<in>set es. entry_fits x"
  shows "sst_scan key (length (data_bytes es)) (data_bytes es @ bs) = Inr (map_of es key)"
  using assms
proof (induction es)
  case Nil
  show ?case by (subst sst_scan.simps) simp
next
  case (Cons x es)
  obtain k e where x: "x = (k, e)" by (cases x)
  have fits: "entry_fits (k, e)" using Cons.prems(2) x by simp
  have greater: "\<forall>y\<in>set es. k < fst y" using Cons.prems(1) by (auto simp: x)
  have "map_of es key = None" if "key < k"
    using greater that by (intro map_of_None_greater) (meson less_trans)
  moreover have "sst_scan key (length (data_bytes es)) (data_bytes es @ bs) = Inr (map_of es key)"
    using Cons by simp
  ultimately show ?case
    using fits by (subst sst_scan.simps) (auto simp: x)
qed

lemma sst_collect_data:
  assumes "sorted_keys (acc @ es)" "\<forall>x\<in>set es. entry_fits x"
  shows "sst_collect (length (data_bytes es)) (data_bytes es @ bs) acc = Inr (acc @ es)"
  using assms
proof (induction es arbitrary: acc)
  case Nil
  show ?case by (subst sst_collect.simps) simp
next
  case (Cons x es)
  obtain k e where x: "x = (k, e)" by (cases x)
  have fits: "entry_fits (k, e)" using Cons.prems(2) x by simp
  have "\<forall>y\<in>set acc. fst y < k" using Cons.prems(1) by (auto simp: x sorted_wrt_append)
  then have put: "smap_put k e acc = acc @ [x]" by (simp add: smap_put_snoc x)
  have "sst_collect (length (data_bytes es)) (data_bytes es @ bs) (acc @ [x]) = Inr ((acc @ [x]) @ es)"
    using Cons.prems by (intro Cons.IH) auto
  then show ?case
    using fits put by (subst sst_collect.simps) (simp add: x)
qed

text \<open>An iterator that stands before the entries \<open>es\<close>.\<close>

definition iter_at :: "bytes \<Rightarrow> (string \<times> entry) list \<Rightarrow> sst_iter \<Rightarrow> bool" where
  "iter_at tail es it \<longleftrightarrow>
     (case es of
        [] \<Rightarrow> \<not> it_valid it
      | (k, e) # es' \<Rightarrow> it_valid it \<and> it_current it = se_of k e
          \<and> it_rest it = data_bytes es' @ tail \<and> it_left it = length (data_bytes es'))"

lemma iter_readNext_at:
  assumes "it_rest it = data_bytes es @ tail" "it_left it = length (data_bytes es)"
    and "\<forall>x\<in>set es. entry_fits x"
  obtains it' where "iter_readNext it = Inr it'" "iter_at tail es it'"
proof (cases es)
  case Nil
  with assms show ?thesis by (intro that [of "it\<lparr>it_valid := False\<rparr>"]) (simp_all add: iter_readNext_def iter_at_def)
next
  case (Cons x es')
  obtain k e where x: "x = (k, e)" by (cases x)
  have "entry_fits (k, e)" using assms(3) Cons x by simp
  with Cons assms show ?thesis
    by (intro that [of "\<lparr>it_rest = data_bytes es' @ tail, it_left = length (data_bytes es'),
          it_valid = True, it_current = se_of k e\<rparr>"])
       (simp_all add: iter_readNext_def iter_at_def x)
qed

lemma iter_next_at:
  assumes "iter_at tail (x # es) it" "\<forall>x\<in>set es. entry_fits x"
  obtains it' where "iter_next it = Inr it'" "iter_at tail es it'"
proof -
  have "it_rest it = data_bytes es @ tail" "it_left it = length (data_bytes es)"
    using assms(1) by (auto simp: iter_at_def split: prod.splits)
  from iter_readNext_at [OF this assms(2)] that show ?thesis by (auto simp: iter_next_def)
qed

section \<open>The sparse index\<close>

text \<open>What the write loop adds to the index, starting at entry number \<open>c\<close> and offset \<open>pos\<close>.\<close>

fun index_from :: "nat \<Rightarrow> nat \<Rightarrow> (string \<times> entry) list \<Rightarrow> index_entry list" where
  "index_from c pos [] = []"
| "index_from c pos ((k, e) # es) =
     (if c mod INDEX_INTERVAL = 0 then [\<lparr>ie_key = k, ie_offset = word_of_nat pos\<rparr>] else [])
     @ index_from (Suc c) (pos + length (sst_record k e)) es"

lemma sst_write_entries_eq:
  "sst_write_entries hasher m out c ix bf =
     sum_bind (add_all (bf_add hasher) (map fst m) bf)
       (\<lambda>bf'. Inr (out @ data_bytes m, ix @ index_from c (length out) m, bf'))"
proof (induction m arbitrary: out c ix bf)
  case (Cons x m)
  obtain k e where x: "x = (k, e)" by (cases x)
  show ?case
    by (cases "bf_add hasher k bf") (simp_all add: x Cons Let_def)
qed simp

definition block_index :: "(string \<times> entry) list \<Rightarrow> nat \<Rightarrow> index_entry" where
  "block_index es j = \<lparr>ie_key = fst (es ! j), ie_offset = word_of_nat (length (data_bytes (take j es)))\<rparr>"

lemma index_from_filter:
  "index_from c pos es =
     map (\<lambda>j. \<lparr>ie_key = fst (es ! j), ie_offset = word_of_nat (pos + length (data_bytes (take j es)))\<rparr>)
       (filter (\<lambda>j. (c + j) mod INDEX_INTERVAL = 0) [0..<length es])"
proof (induction es arbitrary: c pos)
  case (Cons x es)
  obtain k e where x: "x = (k, e)" by (cases x)
  have upt: "[0..<length (x # es)] = 0 # map Suc [0..<length es]"
    by (simp only: list.size(4) upt_conv_Cons map_Suc_upt) simp
  show ?case
    unfolding upt by (simp add: x Cons filter_map comp_def add.assoc)
qed simp

lemma filter_multiples: "filter (\<lambda>j. j mod 16 = 0) [0..<n] = map (\<lambda>i. 16 * i) [0..<(n + 15) div (16::nat)]"
proof (induction n)
  case (Suc n)
  show ?case
  proof (cases "n mod 16 = 0")
    case True
    define q where "q = n div 16"
    have q: "n = 16 * q" using True by (auto simp: q_def)
    have "(Suc n + 15) div 16 = Suc q" "(n + 15) div 16 = q" unfolding q by linarith+
    with Suc True q show ?thesis by (simp add: upt_Suc)
  next
    case False
    define q r where "q = n div 16" and "r = n mod 16"
    have n: "n = 16 * q + r" and r: "0 < r" "r < 16" using False by (simp_all add: q_def r_def)
    have "(Suc n + 15) div 16 = q + 1" "(n + 15) div 16 = q + 1" unfolding n using r by linarith+
    then have "(Suc n + 15) div 16 = (n + 15) div 16" by simp
    with Suc False show ?thesis by simp
  qed
qed simp

lemma index_from_start:
  "index_from 0 0 es = map (\<lambda>i. block_index es (16 * i)) [0..<(length es + 15) div 16]"
  by (simp add: index_from_filter INDEX_INTERVAL_def filter_multiples block_index_def comp_def)

lemma sorted_keys_split:
  assumes "sorted_keys es" "lo \<le> hi" "hi \<le> length es"
    and "lo < length es" "fst (es ! lo) \<le> key"
    and "hi < length es \<Longrightarrow> key < fst (es ! hi)"
  shows "map_of es key = map_of (drop lo (take hi es)) key"
proof -
  have es: "es = take lo es @ drop lo (take hi es) @ drop hi es"
    using assms(2) by (metis append_assoc append_take_drop_id min.absorb1 take_take)
  have "\<forall>x\<in>set (take lo es). fst x < key"
  proof
    fix x assume "x \<in> set (take lo es)"
    then obtain i where i: "i < lo" "i < length es" "x = es ! i" by (auto simp: in_set_conv_nth)
    then show "fst x < key" using sorted_keys_nth_mono [OF assms(1), of i lo] assms(4,5) by auto
  qed
  moreover have "\<forall>x\<in>set (drop hi es). key < fst x"
  proof
    fix x assume "x \<in> set (drop hi es)"
    then obtain i where "i < length es - hi" "x = drop hi es ! i" by (auto simp: in_set_conv_nth)
    then have i: "hi + i < length es" "x = es ! (hi + i)" by auto
    show "key < fst x"
      using i sorted_keys_nth_mono [OF assms(1), of hi "hi + i"] assms(6) by (cases i) auto
  qed
  ultimately have "map_of (take lo es) key = None" "map_of (drop hi es) key = None"
    by (simp_all add: map_of_None_less map_of_None_greater)
  then show ?thesis by (subst es) (simp add: map_add_def split: option.splits)
qed

section \<open>A table that holds a sequence of versions\<close>

definition snapshot_ok :: "(string \<times> entry) list \<Rightarrow> bool" where
  "snapshot_ok es \<longleftrightarrow> es \<noteq> [] \<and> sorted_keys es \<and> (\<forall>x\<in>set es. entry_fits x)
     \<and> length (data_bytes es) < 2 ^ 64 \<and> 14 * length es < 2 ^ 32"

definition sst_table_of :: "(string \<Rightarrow> uint64) \<Rightarrow> (string \<times> entry) list \<Rightarrow> sstable \<Rightarrow> bool" where
  "sst_table_of hasher es t \<longleftrightarrow>
     sst_min t = fst (hd es) \<and> sst_max t = fst (last es)
     \<and> sst_meta_off t = Some (word_of_nat (length (data_bytes es)))
     \<and> sst_index t = index_from 0 0 es
     \<and> (\<exists>bf. sst_bloom t = Some bf \<and> bf_inv bf \<and> (\<forall>k\<in>fst ` set es. bf_contains hasher bf k = Inr True))"

definition sst_holds :: "(string \<Rightarrow> uint64) \<Rightarrow> file_system \<Rightarrow> sstable \<Rightarrow> (string \<times> entry) list \<Rightarrow> bool" where
  "sst_holds hasher fs t es \<longleftrightarrow> snapshot_ok es \<and> sst_table_of hasher es t
     \<and> (\<exists>tail. fs_read (sst_path t) fs = Some (data_bytes es @ tail))"

lemma data_bytes_take_le: "length (data_bytes (take j es)) \<le> length (data_bytes es)"
  by (metis append_take_drop_id data_bytes_simps(3) le_add1 length_append)

lemma block_offset:
  "length (data_bytes es) < 2 ^ 64 \<Longrightarrow>
     unat (ie_offset (block_index es j)) = length (data_bytes (take j es))"
  using data_bytes_take_le [of j es] by (simp add: block_index_def)

text \<open>The index leads to a block \<open>[lo, hi)\<close> of entries that is the only place for the key.\<close>

text \<open>The index of a table: one entry for every sixteenth record.\<close>

lemma index_entries:
  assumes "snapshot_ok es"
  shows "length (index_from 0 0 es) = (length es + 15) div 16"
    and "i < (length es + 15) div 16 \<Longrightarrow> ie_key (index_from 0 0 es ! i) = fst (es ! (16 * i))
       \<and> unat (ie_offset (index_from 0 0 es ! i)) = length (data_bytes (take (16 * i) es)) \<and> 16 * i < length es"
proof -
  have "length (data_bytes es) < 2 ^ 64" using assms by (simp add: snapshot_ok_def)
  then show "length (index_from 0 0 es) = (length es + 15) div 16"
    and "i < (length es + 15) div 16 \<Longrightarrow> ie_key (index_from 0 0 es ! i) = fst (es ! (16 * i))
       \<and> unat (ie_offset (index_from 0 0 es ! i)) = length (data_bytes (take (16 * i) es)) \<and> 16 * i < length es"
    by (simp_all add: index_from_start block_offset) (simp add: block_index_def)
qed

text \<open>The binary search in that index.\<close>

lemma index_upper_bound:
  assumes "snapshot_ok es" "fst (hd es) \<le> key" "it = upper_bound (\<lambda>k i. k < ie_key i) (index_from 0 0 es) key"
  shows "0 < it" "it \<le> (length es + 15) div 16" "fst (es ! (16 * (it - 1))) \<le> key"
    "it < (length es + 15) div 16 \<Longrightarrow> key < fst (es ! (16 * it))"
proof -
  let ?L = "(length es + 15) div 16" and ?ix = "index_from 0 0 es"
  have ok: "sorted_keys es" "es \<noteq> []" using assms(1) by (simp_all add: snapshot_ok_def)
  then have L0: "0 < ?L" by (cases es) auto
  note len = index_entries(1) [OF assms(1)]
  have keyi: "ie_key (?ix ! i) = fst (es ! (16 * i))" "16 * i < length es" if "i < ?L" for i
    using index_entries(2) [OF assms(1) that] by simp_all
  have srt: "sorted_wrt (\<lambda>x y. \<not> key < ie_key y \<longrightarrow> \<not> key < ie_key x) ?ix"
    unfolding sorted_wrt_iff_nth_less
  proof (intro allI impI)
    fix i j assume ij: "i < j" "j < length ?ix" and nk: "\<not> key < ie_key (?ix ! j)"
    have "ie_key (?ix ! i) < ie_key (?ix ! j)"
      using ij keyi [of i] keyi [of j] sorted_keys_nth_mono [OF ok(1), of "16 * i" "16 * j"] by (simp add: len)
    with nk show "\<not> key < ie_key (?ix ! i)" by auto
  qed
  have itw: "it = length (takeWhile (\<lambda>x. \<not> key < ie_key x) ?ix)"
    unfolding assms(3) upper_bound_def by (rule bound_search_takeWhile [OF srt])
  show itL: "it \<le> ?L" by (simp add: itw length_takeWhile_le flip: len)
  show upper: "key < fst (es ! (16 * it))" if "it < ?L"
    using that nth_length_takeWhile [of "\<lambda>x. \<not> key < ie_key x" ?ix] keyi(1) [of it]
    by (simp add: itw len)
  show it0: "0 < it"
  proof (rule ccontr)
    assume "\<not> 0 < it"
    then have "key < fst (es ! 0)" using upper L0 by simp
    with assms(2) ok(2) show False by (simp add: hd_conv_nth)
  qed
  have "?ix ! (it - 1) \<in> set (takeWhile (\<lambda>x. \<not> key < ie_key x) ?ix)"
    using it0 by (metis diff_less itw nth_mem takeWhile_nth zero_less_one)
  then show "fst (es ! (16 * (it - 1))) \<le> key"
    using keyi(1) [of "it - 1"] it0 itL by (auto dest!: set_takeWhileD)
qed

lemma sst_search_range_block:
  assumes "snapshot_ok es" "fst (hd es) \<le> key"
  obtains lo hi where "lo < length es" "lo \<le> hi" "hi \<le> length es" "fst (es ! lo) \<le> key"
    "hi < length es \<Longrightarrow> key < fst (es ! hi)"
    "sst_search_range (index_from 0 0 es) (word_of_nat (length (data_bytes es))) key
       = (length (data_bytes (take lo es)), length (data_bytes (take hi es)))"
proof -
  define L where "L = (length es + 15) div 16"
  define it where "it = upper_bound (\<lambda>k i. k < ie_key i) (index_from 0 0 es) key"
  note ub = index_upper_bound [OF assms it_def, folded L_def]
  have len: "length (index_from 0 0 es) = L" and off: "i < L \<Longrightarrow>
      unat (ie_offset (index_from 0 0 es ! i)) = length (data_bytes (take (16 * i) es)) \<and> 16 * i < length es" for i
    using index_entries [OF assms(1)] by (simp_all add: L_def)
  define lo where "lo = 16 * (it - 1)"
  define hi where "hi = (if it < L then 16 * it else length es)"
  have "unat (word_of_nat (length (data_bytes es)) :: uint64) = length (data_bytes es)"
    using assms(1) by (simp add: snapshot_ok_def)
  moreover have "index_from 0 0 es \<noteq> []" using ub(1,2) len by auto
  ultimately have "sst_search_range (index_from 0 0 es) (word_of_nat (length (data_bytes es))) key =
      (unat (ie_offset (index_from 0 0 es ! (it - 1))),
       if it < L then unat (ie_offset (index_from 0 0 es ! it)) else length (data_bytes es))"
    using ub(1,2) by (auto simp: sst_search_range_def it_def [symmetric] len Let_def)
  then have "sst_search_range (index_from 0 0 es) (word_of_nat (length (data_bytes es))) key
       = (length (data_bytes (take lo es)), length (data_bytes (take hi es)))"
    using ub(1,2) off by (auto simp: lo_def hi_def)
  moreover have "lo < length es" "lo \<le> hi" "hi \<le> length es"
    using ub(1,2) off [of "it - 1"] off [of it] by (auto simp: lo_def hi_def)
  ultimately show ?thesis
    using ub(3,4) by (intro that [of lo hi]) (auto simp: lo_def hi_def split: if_splits)
qed

text \<open>Scanning that block finds what the whole table holds for the key.\<close>

lemma sst_scan_block:
  assumes "snapshot_ok es" "fst (hd es) \<le> key"
    and "sst_search_range (index_from 0 0 es) (word_of_nat (length (data_bytes es))) key = (a, b)"
  shows "sst_scan key (b - a) (drop a (data_bytes es @ tail)) = Inr (map_of es key)"
proof -
  have s: "sorted_keys es" "\<forall>x\<in>set es. entry_fits x" using assms(1) by (simp_all add: snapshot_ok_def)
  obtain lo hi where r: "lo < length es" "lo \<le> hi" "hi \<le> length es" "fst (es ! lo) \<le> key"
    "hi < length es \<Longrightarrow> key < fst (es ! hi)"
    "sst_search_range (index_from 0 0 es) (word_of_nat (length (data_bytes es))) key
       = (length (data_bytes (take lo es)), length (data_bytes (take hi es)))"
    using sst_search_range_block [OF assms(1,2)] by metis
  define blk where "blk = drop lo (take hi es)"
  have hi: "take hi es = take lo es @ blk"
    using r(2) by (metis append_take_drop_id blk_def min.absorb1 take_take)
  then have es: "es = take lo es @ blk @ drop hi es"
    by (metis append_assoc append_take_drop_id)
  have ab: "a = length (data_bytes (take lo es))" "b - a = length (data_bytes blk)"
    using assms(3) r(6) by (auto simp: hi)
  have content: "drop a (data_bytes es @ tail) = data_bytes blk @ data_bytes (drop hi es) @ tail"
    unfolding ab(1) by (subst (2) es) simp
  have "sorted_keys blk" "\<forall>x\<in>set blk. entry_fits x"
    using s by (auto simp: blk_def take_map drop_map intro: sorted_wrt_take sorted_wrt_drop
        dest: in_set_takeD in_set_dropD simp flip: take_map drop_map)
  then have "sst_scan key (b - a) (drop a (data_bytes es @ tail)) = Inr (map_of blk key)"
    unfolding content ab(2) by (rule sst_scan_data)
  moreover have "map_of es key = map_of blk key"
    unfolding blk_def using sorted_keys_split [OF s(1) r(2,3,1,4,5)] .
  ultimately show ?thesis by simp
qed

lemma sst_get_holds:
  assumes "sst_holds hasher fs t es"
  shows "sst_get hasher fs t key = Inr (map_of es key)"
proof -
  have ok: "snapshot_ok es" and t: "sst_table_of hasher es t" using assms by (simp_all add: sst_holds_def)
  obtain tail where cont: "fs_read (sst_path t) fs = Some (data_bytes es @ tail)"
    using assms by (auto simp: sst_holds_def)
  obtain bf where bf: "sst_bloom t = Some bf" "bf_inv bf" "\<forall>k\<in>fst ` set es. bf_contains hasher bf k = Inr True"
    using t by (auto simp: sst_table_of_def)
  obtain may where may: "bf_contains hasher bf key = Inr may" using bf_contains_total [OF bf(2)] by blast
  consider (out) "key < fst (hd es) \<or> fst (last es) < key" | (no) "\<not> may" "\<not> (key < fst (hd es) \<or> fst (last es) < key)"
    | (scan) "may" "\<not> (key < fst (hd es) \<or> fst (last es) < key)" by blast
  then show ?thesis
  proof cases
    case out
    then have "map_of es key = None"
      using ok sorted_keys_range by (fastforce simp: map_of_eq_None_iff snapshot_ok_def)
    with out t show ?thesis by (simp add: sst_get_def sst_table_of_def)
  next
    case no
    with may bf(3) have "key \<notin> fst ` set es" by auto
    then have "map_of es key = None" by (simp add: map_of_eq_None_iff)
    with no t bf(1) may show ?thesis by (simp add: sst_get_def sst_table_of_def)
  next
    case scan
    obtain a b where ab: "sst_search_range (index_from 0 0 es) (word_of_nat (length (data_bytes es))) key = (a, b)"
      by fastforce
    have "fst (hd es) \<le> key" using scan(2) by auto
    then have "sst_scan key (b - a) (drop a (data_bytes es @ tail)) = Inr (map_of es key)"
      by (rule sst_scan_block [OF ok _ ab])
    with scan t bf(1) may cont ab show ?thesis by (simp add: sst_get_def sst_table_of_def)
  qed
qed

lemma sst_getData_holds:
  assumes "sst_holds hasher fs t es"
  shows "sst_getData fs t = Inr es"
proof -
  have "snapshot_ok es" "sst_table_of hasher es t" using assms by (simp_all add: sst_holds_def)
  moreover obtain tail where "fs_read (sst_path t) fs = Some (data_bytes es @ tail)"
    using assms by (auto simp: sst_holds_def)
  ultimately show ?thesis
    using sst_collect_data [of "[]" es tail]
    by (simp add: sst_getData_def sst_table_of_def snapshot_ok_def)
qed

lemma iter_new_holds:
  assumes "sst_holds hasher fs t es"
  obtains it tail where "iter_new fs t = Inr it" "iter_at tail es it"
proof -
  have t: "snapshot_ok es" "sst_table_of hasher es t" using assms by (simp_all add: sst_holds_def)
  obtain tail where c: "fs_read (sst_path t) fs = Some (data_bytes es @ tail)"
    using assms by (auto simp: sst_holds_def)
  define it0 where "it0 = \<lparr>it_rest = data_bytes es @ tail, it_left = length (data_bytes es), it_valid = False,
      it_current = \<lparr>se_key = [], se_value = [], se_seq = 0, se_type = Et_PUT\<rparr>\<rparr>"
  obtain it' where "iter_readNext it0 = Inr it'" "iter_at tail es it'"
    using t(1) by (auto simp: it0_def snapshot_ok_def intro: iter_readNext_at [of it0 es tail])
  with t c that show ?thesis by (simp add: iter_new_def sst_table_of_def it0_def snapshot_ok_def)
qed

text \<open>The key range, the data and the point query of a table depend only on its own file.\<close>

lemma sst_holds_cong:
  "fs_read (sst_path t) fs' = fs_read (sst_path t) fs \<Longrightarrow> sst_holds hasher fs' t es = sst_holds hasher fs t es"
  by (simp add: sst_holds_def)

lemma sst_holds_range:
  "sst_holds hasher fs t es \<Longrightarrow> sst_min t = fst (hd es) \<and> sst_max t = fst (last es)
     \<and> es \<noteq> [] \<and> sorted_keys es \<and> (\<forall>x\<in>set es. entry_fits x)"
  by (simp add: sst_holds_def sst_table_of_def snapshot_ok_def)

lemma sst_holds_unique: "sst_holds hasher fs t es \<Longrightarrow> sst_holds hasher fs t es' \<Longrightarrow> es = es'"
  using sst_getData_holds by (metis sum.inject(2))

section \<open>A flushed table holds the snapshot\<close>

lemma sst_flush_new:
  assumes "fs_read (sst_name dir n) fs = None" "snapshot_ok es"
  obtains bf data where
    "bf_inv bf" "\<forall>k\<in>fst ` set es. bf_contains hasher bf k = Inr True"
    "bf_serialize bf = Inr data" "bf_deserialize data = Inr bf" "length data < 2 ^ 32"
    "sst_flush hasher es dir n fs =
       Inr (\<lparr>sst_path = sst_name dir n, sst_min = fst (hd es), sst_max = fst (last es),
             sst_meta_off = Some (word_of_nat (length (data_bytes es))),
             sst_index = index_from 0 0 es, sst_bloom = Some bf\<rparr>,
            fs_write_file (sst_name dir n) (data_bytes es @ sst_footer (fst (hd es)) (fst (last es))
              (index_from 0 0 es) data (word_of_nat (length (data_bytes es)))) fs)"
proof -
  have ne: "es \<noteq> []" and small: "14 * length es < 2 ^ 32" using assms(2) by (simp_all add: snapshot_ok_def)
  obtain f where f: "bf_new (length es) (1 / 100) = Inr f" "bf_inv f" "unat (bf_size f) \<le> 14 * length es"
    using bf_new_ok [of "length es"] ne small by auto
  obtain bf where bf: "add_all (bf_add hasher) (map fst es) f = Inr bf" "bf_inv bf"
      "\<forall>k\<in>set (map fst es). bf_contains hasher bf k = Inr True"
    using bloom.add_all_ok [OF f(2)] by blast
  have size: "unat (bf_size bf) < 2 ^ 32" using f(3) small bf_add_all_dims [OF f(2) bf(1)] by simp
  obtain data where data: "bf_serialize bf = Inr data" "bf_deserialize data = Inr bf"
      "length data = 24 + (unat (bf_size bf) + 7) div 8"
    using bf_deserialize_serialize [OF bf(2)] size by auto
  show ?thesis
  proof (rule that [OF bf(2) _ data(1,2)])
    show "length data < 2 ^ 32" using data(3) size by simp
    show "\<forall>k\<in>fst ` set es. bf_contains hasher bf k = Inr True" using bf(3) by simp
    show "sst_flush hasher es dir n fs =
       Inr (\<lparr>sst_path = sst_name dir n, sst_min = fst (hd es), sst_max = fst (last es),
             sst_meta_off = Some (word_of_nat (length (data_bytes es))),
             sst_index = index_from 0 0 es, sst_bloom = Some bf\<rparr>,
            fs_write_file (sst_name dir n) (data_bytes es @ sst_footer (fst (hd es)) (fst (last es))
              (index_from 0 0 es) data (word_of_nat (length (data_bytes es)))) fs)"
      using assms(1) ne f(1) bf(1) data(1)
      by (simp add: sst_flush_def sst_open_def sst_blank_def BLOOM_FP_RATE_def sst_write_entries_eq Let_def)
  qed
qed

lemma keys_of_index: "i \<in> set (index_from c pos es) \<Longrightarrow> ie_key i \<in> fst ` set es"
  by (induction c pos es rule: index_from.induct) (auto split: if_splits)

lemma length_index_from: "length (index_from c pos es) \<le> length es"
  by (induction c pos es rule: index_from.induct) (auto simp: le_SucI)

lemma sst_parse_footer:
  assumes "length D < 2 ^ 64" "key_fits mn" "key_fits mx" "\<forall>i\<in>set ix. key_fits (ie_key i)"
    and "length ix < 2 ^ 32" "length data < 2 ^ 32"
  shows "sst_parse_metadata path (D @ sst_footer mn mx ix data (word_of_nat (length D))) =
           Some (\<lparr>sst_path = path, sst_min = mn, sst_max = mx, sst_meta_off = Some (word_of_nat (length D)),
                  sst_index = ix, sst_bloom = None\<rparr>, data)"
proof -
  let ?off = "word_of_nat (length D) :: uint64"
  define body where "body = D @ put_u32 (len32 mn) @ put_u32 (len32 mx) @ str32 mn @ str32 mx
     @ put_u32 (word_of_nat (length ix)) @ concat (map enc_index ix) @ put_u32 (len32 data) @ str32 data"
  have split: "D @ sst_footer mn mx ix data ?off = body @ put_u64 ?off"
    by (simp add: body_def sst_footer_def)
  have "get_u64 (drop (length (body @ put_u64 ?off) - 8) (body @ put_u64 ?off)) = Some (?off, [])"
    using get_put_u64 [of ?off "[]"] by simp
  then have last8: "get_u64 (drop (length (D @ sst_footer mn mx ix data ?off) - 8)
      (D @ sst_footer mn mx ix data ?off)) = Some (?off, [])"
    unfolding split .
  have index: "dec_many dec_index (length ix) (concat (map enc_index ix) @ bs) = Some (ix, bs)" for bs
    using index_codec.dec_many_enc [of ix bs] assms(4) by simp
  show ?thesis
    unfolding sst_parse_metadata_def last8
    using assms(1-3,5,6) index
    by (simp add: sst_footer_def key_fits_def read_chars_append len32_def sst_blank_def)
qed

lemma snapshot_keys_fit: "snapshot_ok es \<Longrightarrow> k \<in> fst ` set es \<Longrightarrow> key_fits k"
  by (auto simp: snapshot_ok_def entry_fits_def key_fits_def)

lemma sst_flush_holds:
  assumes "fs_read (sst_name dir n) fs = None" "snapshot_ok es"
  obtains t fs' where "sst_flush hasher es dir n fs = Inr (t, fs')" "sst_path t = sst_name dir n"
    "sst_holds hasher fs' t es" "sst_open (sst_name dir n) fs' = Inr t"
    "fs_inv fs \<Longrightarrow> fs_inv fs'" "\<And>p. fs_inv fs \<Longrightarrow> p \<noteq> sst_name dir n \<Longrightarrow> fs_read p fs' = fs_read p fs"
proof -
  obtain bf data where
    bf: "bf_inv bf" "\<forall>k\<in>fst ` set es. bf_contains hasher bf k = Inr True"
    "bf_serialize bf = Inr data" "bf_deserialize data = Inr bf" "length data < 2 ^ 32"
    "sst_flush hasher es dir n fs =
       Inr (\<lparr>sst_path = sst_name dir n, sst_min = fst (hd es), sst_max = fst (last es),
             sst_meta_off = Some (word_of_nat (length (data_bytes es))),
             sst_index = index_from 0 0 es, sst_bloom = Some bf\<rparr>,
            fs_write_file (sst_name dir n) (data_bytes es @ sst_footer (fst (hd es)) (fst (last es))
              (index_from 0 0 es) data (word_of_nat (length (data_bytes es)))) fs)"
    using sst_flush_new [OF assms, of hasher] by blast
  have ends: "fst (hd es) \<in> fst ` set es" "fst (last es) \<in> fst ` set es" "14 * length es < 2 ^ 32"
    "length (data_bytes es) < 2 ^ 64"
    using assms(2) by (simp_all add: snapshot_ok_def)
  have fits: "key_fits (fst (hd es))" "key_fits (fst (last es))"
    "\<forall>i\<in>set (index_from 0 0 es). key_fits (ie_key i)"
    using ends snapshot_keys_fit [OF assms(2)] keys_of_index by blast+
  have len: "length (index_from 0 0 es) < 2 ^ 32" using length_index_from [of 0 0 es] ends(3) by simp
  show ?thesis
    using sst_parse_footer [OF ends(4) fits len bf(5), of "sst_name dir n"] bf(1-4) assms(2)
    by (intro that [OF bf(6)]) (auto simp: sst_holds_def sst_table_of_def sst_open_def)
qed

definition sst_data :: "file_system \<Rightarrow> sstable \<Rightarrow> (string \<times> entry) list" where
  "sst_data fs t = (case sst_getData fs t of Inr es \<Rightarrow> es | Inl _ \<Rightarrow> [])"

definition sst_ok :: "(string \<Rightarrow> uint64) \<Rightarrow> file_system \<Rightarrow> sstable \<Rightarrow> bool" where
  "sst_ok hasher fs t \<longleftrightarrow> sst_holds hasher fs t (sst_data fs t)"

lemma sst_holds_data: "sst_holds hasher fs t es \<Longrightarrow> sst_data fs t = es"
  by (simp add: sst_data_def sst_getData_holds)

lemma sst_holds_ok: "sst_holds hasher fs t es \<Longrightarrow> sst_ok hasher fs t"
  by (simp add: sst_ok_def sst_holds_data)

lemma sst_ok_iff: "sst_ok hasher fs t \<longleftrightarrow> (\<exists>es. sst_holds hasher fs t es)"
  using sst_holds_ok unfolding sst_ok_def by blast

lemma sst_data_cong: "fs_read (sst_path t) fs' = fs_read (sst_path t) fs \<Longrightarrow> sst_data fs' t = sst_data fs t"
  by (simp add: sst_data_def sst_getData_def)

lemma sst_ok_cong: "fs_read (sst_path t) fs' = fs_read (sst_path t) fs \<Longrightarrow> sst_ok hasher fs' t = sst_ok hasher fs t"
  unfolding sst_ok_def using sst_data_cong sst_holds_cong by metis

interpretation sst: entry_source "sst_get hasher fs" "sst_data fs" "sst_ok hasher fs"
  for hasher fs
proof unfold_locales
  fix t k assume "sst_ok hasher fs t"
  then have holds: "sst_holds hasher fs t (sst_data fs t)" by (simp only: sst_ok_def)
  show "sorted_keys (sst_data fs t)" using sst_holds_range [OF holds] by blast
  show "sst_get hasher fs t k = Inr (map_of (sst_data fs t) k)" by (rule sst_get_holds [OF holds])
qed

section \<open>Properties\<close>

text \<open>
  C38: flushing and reopening.  When no file of that name exists, flushing a
  snapshot in key order succeeds, and constructing a table from the written file loads
  exactly the table that the flush returned: key range, sparse index, metadata offset
  and Bloom filter.  Every other file keeps its contents.
\<close>

theorem sst_flush_open_roundtrip:
  assumes "fs_inv fs" "fs_read (sst_name dir n) fs = None" "snapshot_ok es"
  shows "\<exists>t fs'. sst_flush hasher es dir n fs = Inr (t, fs') \<and> sst_open (sst_name dir n) fs' = Inr t
     \<and> (\<forall>p. p = sst_name dir n \<or> fs_read p fs' = fs_read p fs)"
  using sst_flush_holds [OF assms(2,3), of hasher] assms(1) by metis

theorem sst_flush_open_roundtrip_witness:
  "\<exists>t fs'. sst_flush (\<lambda>s. word_of_nat (length s))
       [(''a'', \<lparr>ent_value = ''x'', ent_seq = 1, ent_type = Et_PUT\<rparr>)] ''d/'' 3 fs_empty = Inr (t, fs')
     \<and> sst_open (sst_name ''d/'' 3) fs' = Inr t"
  using sst_flush_open_roundtrip [of fs_empty "''d/''" 3
      "[(''a'', \<lparr>ent_value = ''x'', ent_seq = 1, ent_type = Et_PUT\<rparr>)]" "\<lambda>s. word_of_nat (length s)"]
  by (auto simp: snapshot_ok_def entry_fits_def entry_ok_def sst_record_def)

text \<open>
  C30: point queries and scans of a flushed table.  For every key, \<open>get\<close> on the table
  returns exactly what the snapshot held for it: the key range test, the Bloom filter
  and the binary search in the sparse index never hide an entry and never return a wrong
  one.  \<open>getData\<close> returns the snapshot itself.
\<close>

theorem sst_get_flushed:
  assumes "fs_read (sst_name dir n) fs = None" "snapshot_ok es"
  shows "\<exists>t fs'. sst_flush hasher es dir n fs = Inr (t, fs') \<and> sst_getData fs' t = Inr es
     \<and> (\<forall>key. sst_get hasher fs' t key = Inr (map_of es key))"
  using sst_flush_holds [OF assms, of hasher] sst_get_holds sst_getData_holds by metis

theorem sst_get_flushed_witness:
  "\<exists>t fs'. sst_flush (\<lambda>s. word_of_nat (length s))
       [(''a'', \<lparr>ent_value = ''x'', ent_seq = 1, ent_type = Et_PUT\<rparr>),
        (''b'', \<lparr>ent_value = [], ent_seq = 2, ent_type = Et_DELETE\<rparr>)] ''d/'' 3 fs_empty = Inr (t, fs')
     \<and> sst_get (\<lambda>s. word_of_nat (length s)) fs' t ''b'' =
         Inr (Some \<lparr>ent_value = [], ent_seq = 2, ent_type = Et_DELETE\<rparr>)
     \<and> sst_get (\<lambda>s. word_of_nat (length s)) fs' t ''c'' = Inr None"
  using sst_get_flushed [of "''d/''" 3 fs_empty
      "[(''a'', \<lparr>ent_value = ''x'', ent_seq = 1, ent_type = Et_PUT\<rparr>),
        (''b'', \<lparr>ent_value = [], ent_seq = 2, ent_type = Et_DELETE\<rparr>)]" "\<lambda>s. word_of_nat (length s)"]
  by (auto simp: snapshot_ok_def entry_fits_def entry_ok_def sst_record_def)

end
