(* ===== verification/Table_Version.thy ===== *)
theory Table_Version
  imports SSTable "HOL-Library.Multiset"
begin

text \<open>
  The set of live tables (\<open>engine/src/table_version.cpp\<close>): per level the metadata of its
  tables, and the tables themselves, which are looked up by searching for their number in
  the file name.  A shared pointer is an optional table.  Versions are copied before they
  are modified, so a version is a value; the version manager is the variable that holds
  the current one.

  A locale states what the engine relies on (lookup after adding and removing tables) and
  proves the effect of replacing tables, which both kinds of compaction use.
\<close>

record table_version =
  tv_levels :: "sstable_meta list list"
  tv_sstables :: "sstable option list"
  version_number :: uint64
  tv_flush_counter :: uint64

definition tv_new :: table_version where
  "tv_new = \<lparr>tv_levels = [], tv_sstables = [], version_number = 0, tv_flush_counter = 0\<rparr>"

text \<open>\<open>std::vector::resize\<close> on a vector of vectors.\<close>

definition resize :: "nat \<Rightarrow> 'a list list \<Rightarrow> 'a list list" where
  "resize n xs = take n xs @ replicate (n - length xs) []"

fun tv_copyFrom :: "table_version option \<Rightarrow> table_version" where
  "tv_copyFrom None = tv_new"
| "tv_copyFrom (Some v) = \<lparr>tv_levels = tv_levels v, tv_sstables = tv_sstables v,
     version_number = version_number v + 1, tv_flush_counter = tv_flush_counter v\<rparr>"

definition name_has_id :: "uint64 \<Rightarrow> sstable \<Rightarrow> bool" where
  "name_has_id i t \<longleftrightarrow> sublist (id_pattern (unat i)) (sst_filename t)"

definition findSSTableById :: "table_version \<Rightarrow> uint64 \<Rightarrow> sstable option" where
  "findSSTableById v i =
     (case find (\<lambda>sst. case sst of None \<Rightarrow> False | Some t \<Rightarrow> name_has_id i t) (tv_sstables v) of
        None \<Rightarrow> None | Some sst \<Rightarrow> sst)"

definition addSSTable :: "sstable \<Rightarrow> sstable_meta \<Rightarrow> table_version \<Rightarrow> kv_error + table_version" where
  "addSSTable sst meta v =
     (let level = unat (meta_level meta);
          levels = (if level \<ge> length (tv_levels v)
                    then resize (unat (meta_level meta + 1)) (tv_levels v) else tv_levels v)
      in if level < length levels
         then Inr (v\<lparr>tv_sstables := tv_sstables v @ [Some sst],
                     tv_levels := levels[level := levels ! level @ [meta]]\<rparr>)
         else Inl UndefinedBehaviour)"

definition removeSSTablesByIds :: "uint64 list \<Rightarrow> table_version \<Rightarrow> table_version" where
  "removeSSTablesByIds ids v =
     v\<lparr>tv_sstables := filter (\<lambda>sst. \<not> (case sst of None \<Rightarrow> True | Some t \<Rightarrow> \<exists>i\<in>set ids. name_has_id i t))
         (tv_sstables v),
       tv_levels := map (filter (\<lambda>meta. meta_id meta \<notin> set ids)) (tv_levels v)\<rparr>"

section \<open>VersionManager\<close>

record version_manager =
  current_version :: "table_version option"

definition vm_new :: version_manager where
  "vm_new = \<lparr>current_version = Some tv_new\<rparr>"

definition getCurrentVersion :: "version_manager \<Rightarrow> table_version option" where
  "getCurrentVersion vm = current_version vm"

definition installVersion :: "table_version \<Rightarrow> version_manager \<Rightarrow> version_manager" where
  "installVersion v vm = vm\<lparr>current_version := Some v\<rparr>"

definition getVersionForModification :: "version_manager \<Rightarrow> table_version" where
  "getVersionForModification vm = tv_copyFrom (current_version vm)"

section \<open>The contract of the table lookup\<close>

locale table_index =
  fixes lookup_id :: "'v \<Rightarrow> uint64 \<Rightarrow> 't option"
    and add :: "'t \<Rightarrow> 'm \<Rightarrow> 'v \<Rightarrow> kv_error + 'v"
    and remove :: "uint64 list \<Rightarrow> 'v \<Rightarrow> 'v"
    and ids :: "'v \<Rightarrow> uint64 set"
    and id_of :: "'m \<Rightarrow> uint64"
    and good :: "'t \<Rightarrow> 'm \<Rightarrow> bool"
    and invar :: "'v \<Rightarrow> bool"
  assumes lookup_dom: "invar v \<Longrightarrow> lookup_id v i = None \<longleftrightarrow> i \<notin> ids v"
    and add_new: "invar v \<Longrightarrow> good t m \<Longrightarrow> id_of m \<notin> ids v \<Longrightarrow>
      \<exists>v'. add t m v = Inr v' \<and> invar v' \<and> ids v' = insert (id_of m) (ids v)
         \<and> lookup_id v' = (lookup_id v)(id_of m \<mapsto> t)"
    and remove_ids: "invar v \<Longrightarrow> invar (remove is v) \<and> ids (remove is v) = ids v - set is
         \<and> (\<forall>i. lookup_id (remove is v) i = (if i \<in> set is then None else lookup_id v i))"
begin

lemma lookup_in: "invar v \<Longrightarrow> i \<in> ids v \<Longrightarrow> \<exists>t. lookup_id v i = Some t"
  using lookup_dom [of v i] by (cases "lookup_id v i") auto

text \<open>What a compaction installs: some tables removed, one new table added.\<close>

lemma replace_tables:
  assumes "invar v" "good t m" "id_of m \<notin> ids v"
  obtains v' where "add t m (remove is v) = Inr v'" "invar v'"
    "ids v' = insert (id_of m) (ids v - set is)" "lookup_id v' (id_of m) = Some t"
    "\<And>i. i \<in> ids v' \<Longrightarrow> i \<noteq> id_of m \<Longrightarrow> lookup_id v' i = lookup_id v i"
proof -
  have r: "invar (remove is v)" "ids (remove is v) = ids v - set is"
    "\<And>i. lookup_id (remove is v) i = (if i \<in> set is then None else lookup_id v i)"
    using remove_ids [OF assms(1), of "is"] by auto
  obtain v' where "add t m (remove is v) = Inr v'" "invar v'" "ids v' = insert (id_of m) (ids (remove is v))"
    "lookup_id v' = (lookup_id (remove is v))(id_of m \<mapsto> t)"
    using add_new [OF r(1) assms(2)] assms(3) r(2) by blast
  then show ?thesis using that r(2,3) by auto
qed

end

section \<open>Well-formed versions\<close>

text \<open>
  Every level entry has exactly one table, and its file is named after the entry's number
  in the directory of the tables.
\<close>

definition tv_ids :: "table_version \<Rightarrow> uint64 set" where
  "tv_ids v = meta_id ` set (concat (tv_levels v))"

definition tv_wf :: "string \<Rightarrow> table_version \<Rightarrow> bool" where
  "tv_wf dir v \<longleftrightarrow> dir_ok dir \<and> distinct (map meta_id (concat (tv_levels v)))
     \<and> (\<exists>its. tv_sstables v = map (Some \<circ> snd) its \<and> distinct (map fst its) \<and> fst ` set its = tv_ids v
          \<and> (\<forall>(i, t)\<in>set its. sst_path t = sst_name dir i))"

definition fits_level :: "string \<Rightarrow> sstable \<Rightarrow> sstable_meta \<Rightarrow> bool" where
  "fits_level dir t m \<longleftrightarrow> sst_path t = sst_name dir (meta_id m) \<and> unat (meta_level m) + 1 < 2 ^ 32"

lemma name_has_id_iff:
  "dir_ok dir \<Longrightarrow> sst_path t = sst_name dir j \<Longrightarrow> name_has_id i t \<longleftrightarrow> i = j"
  using id_pattern_in_path [of dir "unat i" "unat j"]
  by (simp add: name_has_id_def sst_filename_def sst_name_def word_unat_eq_iff)

lemma find_its:
  assumes "dir_ok dir" "\<forall>(i, t)\<in>set its. sst_path t = sst_name dir i"
  shows "(case find (\<lambda>sst. case sst of None \<Rightarrow> False | Some t \<Rightarrow> name_has_id i t) (map (Some \<circ> snd) its) of
            None \<Rightarrow> None | Some sst \<Rightarrow> sst) = map_of its i"
  using assms(2)
proof (induction its)
  case (Cons x its)
  obtain j t where x: "x = (j, t)" by (cases x)
  have "name_has_id i t \<longleftrightarrow> i = j" using assms(1) Cons.prems x by (intro name_has_id_iff) auto
  with Cons x show ?case by auto
qed simp

lemma find_map_of:
  assumes "dir_ok dir" "tv_sstables v = map (Some \<circ> snd) its" "\<forall>(i, t)\<in>set its. sst_path t = sst_name dir i"
  shows "findSSTableById v = map_of its"
  unfolding findSSTableById_def assms(2) using find_its [OF assms(1,3)] by (intro ext) simp

lemma concat_update:
  "i < length xss \<Longrightarrow> mset (concat (xss[i := xss ! i @ ys])) = mset (concat xss) + mset ys"
  by (induction xss arbitrary: i) (auto split: nat.splits)

lemma concat_resize: "length xss \<le> n \<Longrightarrow> concat (resize n xss) = concat xss"
  by (simp add: resize_def)

lemma concat_map_filter: "concat (map (filter P) xss) = filter P (concat xss)"
  by (induction xss) auto

lemma addSSTable_levels:
  assumes "unat (meta_level m) + 1 < 2 ^ 32"
  obtains v' where "addSSTable t m v = Inr v'" "tv_sstables v' = tv_sstables v @ [Some t]"
    "mset (concat (tv_levels v')) = add_mset m (mset (concat (tv_levels v)))"
    "tv_levels v' = (let ls = resize (max (length (tv_levels v)) (Suc (unat (meta_level m)))) (tv_levels v)
                     in ls[unat (meta_level m) := ls ! unat (meta_level m) @ [m]])"
proof -
  define l where "l = unat (meta_level m)"
  have l1: "unat (meta_level m + 1) = Suc l" using assms by (simp add: l_def unat_word_ariths)
  define ls where "ls = resize (max (length (tv_levels v)) (Suc l)) (tv_levels v)"
  have ls: "ls = (if l \<ge> length (tv_levels v) then resize (Suc l) (tv_levels v) else tv_levels v)"
    by (auto simp: ls_def resize_def max_def not_le)
  have len: "l < length ls" by (simp add: ls_def resize_def)
  have "mset (concat (ls[l := ls ! l @ [m]])) = add_mset m (mset (concat (tv_levels v)))"
    using concat_update [OF len, of "[m]"] by (simp add: ls_def concat_resize)
  moreover have "addSSTable t m v =
      Inr (v\<lparr>tv_sstables := tv_sstables v @ [Some t], tv_levels := ls[l := ls ! l @ [m]]\<rparr>)"
    unfolding addSSTable_def Let_def l1 l_def [symmetric] ls [symmetric] using len by simp
  ultimately show ?thesis using that by (simp add: ls_def l_def Let_def)
qed

lemma tv_ids_distinct_mset:
  "mset (concat ls') = add_mset m (mset (concat ls)) \<Longrightarrow> meta_id m \<notin> meta_id ` set (concat ls) \<Longrightarrow>
     distinct (map meta_id (concat ls)) \<Longrightarrow>
     distinct (map meta_id (concat ls')) \<and> set (concat ls') = insert m (set (concat ls))"
proof -
  assume a: "mset (concat ls') = add_mset m (mset (concat ls))" "meta_id m \<notin> meta_id ` set (concat ls)"
    "distinct (map meta_id (concat ls))"
  have "mset (map meta_id (concat ls')) = mset (map meta_id (m # concat ls))" using a(1) by simp
  then have "distinct (map meta_id (concat ls')) \<longleftrightarrow> distinct (map meta_id (m # concat ls))"
    by (rule mset_eq_imp_distinct_iff)
  moreover have "set (concat ls') = insert m (set (concat ls))"
    using a(1) by (metis set_mset_add_mset_insert set_mset_mset)
  ultimately show ?thesis using a(2,3) by simp
qed

lemma tv_add:
  assumes "tv_wf dir v" "fits_level dir t m" "meta_id m \<notin> tv_ids v"
  shows "\<exists>v'. addSSTable t m v = Inr v' \<and> tv_wf dir v' \<and> tv_ids v' = insert (meta_id m) (tv_ids v)
     \<and> findSSTableById v' = (findSSTableById v)(meta_id m \<mapsto> t)"
proof -
  obtain its where d: "dir_ok dir" "distinct (map meta_id (concat (tv_levels v)))"
    and its: "tv_sstables v = map (Some \<circ> snd) its" "distinct (map fst its)" "fst ` set its = tv_ids v"
      "\<forall>(i, t)\<in>set its. sst_path t = sst_name dir i"
    using assms(1) by (auto simp: tv_wf_def)
  obtain v' where v': "addSSTable t m v = Inr v'" "tv_sstables v' = tv_sstables v @ [Some t]"
    "mset (concat (tv_levels v')) = add_mset m (mset (concat (tv_levels v)))"
    using addSSTable_levels [of m t v] assms(2) unfolding fits_level_def by blast
  have lv: "distinct (map meta_id (concat (tv_levels v')))"
    "set (concat (tv_levels v')) = insert m (set (concat (tv_levels v)))"
    using tv_ids_distinct_mset [OF v'(3) assms(3) [unfolded tv_ids_def] d(2)] by simp_all
  have ids: "tv_ids v' = insert (meta_id m) (tv_ids v)" by (simp only: tv_ids_def lv(2) image_insert)
  define its' where "its' = its @ [(meta_id m, t)]"
  have its': "tv_sstables v' = map (Some \<circ> snd) its'" "distinct (map fst its')" "fst ` set its' = tv_ids v'"
      "\<forall>(i, t)\<in>set its'. sst_path t = sst_name dir i"
    using its v'(2) ids assms(2,3) by (auto simp: its'_def fits_level_def)
  have none: "map_of its (meta_id m) = None" using assms(3) its(3) by (simp add: map_of_eq_None_iff)
  have "map_of its' = (map_of its)(meta_id m \<mapsto> t)"
    using none by (auto simp: its'_def map_add_def fun_eq_iff split: option.splits)
  then have "findSSTableById v' = (findSSTableById v)(meta_id m \<mapsto> t)"
    by (simp only: find_map_of [OF d(1) its(1,4)] find_map_of [OF d(1) its'(1,4)])
  moreover have "tv_wf dir v'" using d(1) lv(1) its' by (auto simp: tv_wf_def)
  ultimately show ?thesis using v'(1) ids by blast
qed

lemma tv_remove:
  assumes "tv_wf dir v"
  shows "tv_wf dir (removeSSTablesByIds is v) \<and> tv_ids (removeSSTablesByIds is v) = tv_ids v - set is
     \<and> (\<forall>i. findSSTableById (removeSSTablesByIds is v) i = (if i \<in> set is then None else findSSTableById v i))"
proof -
  obtain its where d: "dir_ok dir" "distinct (map meta_id (concat (tv_levels v)))"
    and its: "tv_sstables v = map (Some \<circ> snd) its" "distinct (map fst its)" "fst ` set its = tv_ids v"
      "\<forall>(i, t)\<in>set its. sst_path t = sst_name dir i"
    using assms by (auto simp: tv_wf_def)
  define its' where "its' = filter (\<lambda>(i, t). i \<notin> set is) its"
  let ?v = "removeSSTablesByIds is v"
  have same: "(\<exists>j\<in>set is. name_has_id j t) \<longleftrightarrow> i \<in> set is" if "(i, t) \<in> set its" for i t
  proof -
    have "sst_path t = sst_name dir i" using that its(4) by auto
    then show ?thesis using name_has_id_iff [OF d(1)] by auto
  qed
  have "filter (\<lambda>sst. \<not> (case sst of None \<Rightarrow> True | Some t \<Rightarrow> \<exists>i\<in>set is. name_has_id i t)) (map (Some \<circ> snd) its)
      = map (Some \<circ> snd) its'"
    unfolding filter_map its'_def using same by (intro arg_cong [where f = "map _"] filter_cong) fastforce+
  then have tabs: "tv_sstables ?v = map (Some \<circ> snd) its'" by (simp add: removeSSTablesByIds_def its(1))
  have lvls: "concat (tv_levels ?v) = filter (\<lambda>m. meta_id m \<notin> set is) (concat (tv_levels v))"
    by (simp add: removeSSTablesByIds_def concat_map_filter)
  have ids: "tv_ids ?v = tv_ids v - set is" by (auto simp: tv_ids_def lvls)
  have its': "distinct (map fst its')" "\<forall>(i, t)\<in>set its'. sst_path t = sst_name dir i"
    using its(2,4) by (auto simp: its'_def distinct_map inj_on_def)
  have "fst ` set its' = fst ` set its - set is" by (force simp: its'_def)
  then have dom: "fst ` set its' = tv_ids ?v" using its(3) ids by simp
  have "distinct (map meta_id (concat (tv_levels ?v)))" unfolding lvls using d(2) by (rule distinct_map_filter)
  then have "tv_wf dir ?v" using d(1) tabs its' dom by (auto simp: tv_wf_def)
  moreover have "map_of its' i = (if i \<in> set is then None else map_of its i)" for i
    unfolding its'_def by (induction its) auto
  ultimately show ?thesis
    using ids by (simp add: find_map_of [OF d(1) its(1,4)] find_map_of [OF d(1) tabs its'(2)])
qed

lemma tv_lookup_dom: "tv_wf dir v \<Longrightarrow> findSSTableById v i = None \<longleftrightarrow> i \<notin> tv_ids v"
  by (auto simp: tv_wf_def find_map_of map_of_eq_None_iff)

interpretation tables: table_index findSSTableById addSSTable removeSSTablesByIds tv_ids meta_id
  "fits_level dir" "tv_wf dir" for dir
  by unfold_locales (fact tv_lookup_dom tv_add tv_remove)+

lemma find_path: "tv_wf dir v \<Longrightarrow> findSSTableById v i = Some t \<Longrightarrow> sst_path t = sst_name dir i"
  by (auto simp: tv_wf_def find_map_of dest: map_of_SomeD)

lemma tv_wf_copy [simp]: "tv_wf dir (tv_copyFrom (Some v)) = tv_wf dir v"
  by (simp add: tv_wf_def tv_ids_def)

lemma tv_wf_empty: "dir_ok dir \<Longrightarrow> concat (tv_levels v) = [] \<Longrightarrow> tv_sstables v = [] \<Longrightarrow> tv_wf dir v"
  by (auto simp: tv_wf_def tv_ids_def simp del: concat_eq_Nil_conv)

section \<open>Properties\<close>

text \<open>
  Replacing tables in a version.  In a well-formed version whose directory does not
  itself contain a table number, removing any tables and adding a new one succeeds, keeps
  the version well-formed, and afterwards the lookup by number (a search in file names)
  finds exactly the new table under its number, the tables that were kept under theirs and
  nothing under the removed numbers.
\<close>

lemma find_after_replace:
  assumes "tv_wf dir v" "fits_level dir t m" "meta_id m \<notin> tv_ids v"
  shows "\<exists>v'. addSSTable t m (removeSSTablesByIds is v) = Inr v' \<and> tv_wf dir v'
     \<and> findSSTableById v' = (\<lambda>i. if i = meta_id m then Some t else if i \<in> set is then None
                                  else findSSTableById v i)"
proof -
  obtain v' where v': "addSSTable t m (removeSSTablesByIds is v) = Inr v'" "tv_wf dir v'"
    "tv_ids v' = insert (meta_id m) (tv_ids v - set is)" "findSSTableById v' (meta_id m) = Some t"
    "\<And>i. i \<in> tv_ids v' \<Longrightarrow> i \<noteq> meta_id m \<Longrightarrow> findSSTableById v' i = findSSTableById v i"
    using tables.replace_tables [OF assms] by metis
  have "findSSTableById v' i = (if i = meta_id m then Some t else if i \<in> set is then None
          else findSSTableById v i)" for i
    using v'(3-5) tv_lookup_dom [OF v'(2), of i] tv_lookup_dom [OF assms(1), of i] by auto
  with v'(1,2) show ?thesis by (intro exI [of _ v']) (simp add: fun_eq_iff)
qed

lemma find_after_replace_example:
  "let t = sst_blank (sst_name ''d/'' 12);
       m = \<lparr>meta_id = 12, minKey = ''a'', maxKey = ''b'', maxSeq = 3, sizeBytes = 0, meta_level = 1\<rparr>
   in \<exists>v'. addSSTable t m (removeSSTablesByIds [1, 2] tv_new) = Inr v' \<and> tv_wf ''d/'' v'
      \<and> findSSTableById v' 12 = Some t \<and> findSSTableById v' 2 = None"
proof -
  let ?t = "sst_blank (sst_name ''d/'' 12)"
  let ?m = "\<lparr>meta_id = 12, minKey = ''a'', maxKey = ''b'', maxSeq = 3, sizeBytes = 0, meta_level = 1\<rparr>"
  have wf: "tv_wf ''d/'' tv_new" by (rule tv_wf_empty) (simp_all add: tv_new_def dir_ok_no_dot)
  have fit: "fits_level ''d/'' ?t ?m" by (simp add: fits_level_def sst_blank_def)
  have new: "meta_id ?m \<notin> tv_ids tv_new" by (simp add: tv_ids_def tv_new_def)
  show ?thesis unfolding Let_def using find_after_replace [OF wf fit new, of "[1, 2]"] by fastforce
qed

end
