(* ===== verification/Metadata_Files.thy ===== *)
theory Metadata_Files
  imports Table_Version
begin

text \<open>
  The text files that record the state of the engine between runs (\<open>metadata.txt\<close>
  with the two counters, \<open>levels.txt\<close> with a line per table), as \<open>saveMetadata\<close>
  writes them and the constructor and \<open>loadLevelMetadata\<close> read them
  (\<open>engine/src/engine.cpp\<close>).

  The stream operations are those of the C++ library: \<open>std::getline\<close>, and extraction
  with \<open>>>\<close>, which skips white space, reads a word or a decimal number, and after a
  failure leaves the remaining variables untouched; these are uninitialised here, so a line
  that fails before its last field is undefined behaviour.

  The round trip holds for tables whose smallest and largest key are words: a key with
  white space or an empty key shifts the fields of its line.
\<close>

definition newline :: char where
  "newline = CHR 0x0A"

section \<open>getline\<close>

text \<open>The state of a stream: what is left, and whether the end was hit.\<close>

definition getline :: "string \<Rightarrow> bytes \<times> bool \<Rightarrow> string \<times> bytes \<times> bool" where
  "getline line = (\<lambda>(bs, eof).
     if eof then (line, bs, True)
     else let l = takeWhile (\<lambda>c. c \<noteq> newline) bs
          in (l, drop (length l + 1) bs, length l = length bs))"

text \<open>The lines a loop \<open>while (std::getline(f, line))\<close> sees.\<close>

function getlines :: "bytes \<Rightarrow> string list" where
  "getlines bs =
     (if bs = [] then []
      else let l = takeWhile (\<lambda>c. c \<noteq> newline) bs in l # getlines (drop (length l + 1) bs))"
  by pat_completeness auto
termination
  by (relation "measure length") (auto simp: length_greater_0_conv [symmetric] simp del: length_greater_0_conv)

declare getlines.simps [simp del]

section \<open>Extraction\<close>

definition read_word :: "string \<Rightarrow> (string \<times> string) option" where
  "read_word s =
     (let t = dropWhile is_space s
      in if t = [] then None else Some (takeWhile (\<lambda>c. \<not> is_space c) t, dropWhile (\<lambda>c. \<not> is_space c) t))"

text \<open>Number, whether the extraction succeeded, and the rest; \<open>w\<close> is the width of the type.\<close>

definition read_uint :: "nat \<Rightarrow> string \<Rightarrow> nat \<times> bool \<times> string" where
  "read_uint w s =
     (let t = dropWhile is_space s;
          neg = (t \<noteq> [] \<and> hd t = CHR ''-'');
          u = (if t \<noteq> [] \<and> (hd t = CHR ''-'' \<or> hd t = CHR ''+'') then tl t else t);
          v = digits_value 0 u;
          rest = dropWhile is_digit u
      in if u = [] \<or> \<not> is_digit (hd u) then (0, False, u)
         else if v \<ge> 2 ^ w then (2 ^ w - 1, False, rest)
         else (if neg then (2 ^ w - v) mod 2 ^ w else v, True, rest))"

section \<open>levels.txt\<close>

definition print_meta :: "sstable_meta \<Rightarrow> string" where
  "print_meta m = to_string (unat (meta_id m)) @ '' '' @ to_string (unat (meta_level m)) @ '' ''
     @ minKey m @ '' '' @ maxKey m @ '' '' @ to_string (unat (maxSeq m)) @ '' ''
     @ to_string (unat (sizeBytes m)) @ [newline]"

definition print_levels :: "sstable_meta list list \<Rightarrow> bytes" where
  "print_levels levels = concat (map print_meta (concat levels))"

definition parse_meta :: "string \<Rightarrow> kv_error + sstable_meta" where
  "parse_meta line =
     (let (i, ok1, s1) = read_uint 64 line in if \<not> ok1 then Inl UndefinedBehaviour else
      let (l, ok2, s2) = read_uint 32 s1 in if \<not> ok2 then Inl UndefinedBehaviour else
      case read_word s2 of None \<Rightarrow> Inl UndefinedBehaviour | Some (mn, s3) \<Rightarrow>
      (case read_word s3 of None \<Rightarrow> Inl UndefinedBehaviour | Some (mx, s4) \<Rightarrow>
       let (q, ok3, s5) = read_uint 64 s4 in if \<not> ok3 then Inl UndefinedBehaviour else
       let (z, _, _) = read_uint 64 s5 in
       Inr \<lparr>meta_id = word_of_nat i, minKey = mn, maxKey = mx, maxSeq = word_of_nat q,
            sizeBytes = word_of_nat z, meta_level = word_of_nat l\<rparr>))"

definition add_meta :: "sstable_meta \<Rightarrow> sstable_meta list list \<Rightarrow> kv_error + sstable_meta list list" where
  "add_meta meta levels =
     (let level = unat (meta_level meta);
          ls = (if level \<ge> length levels then resize (unat (meta_level meta + 1)) levels else levels)
      in if level < length ls then Inr (ls[level := ls ! level @ [meta]]) else Inl UndefinedBehaviour)"

fun load_lines :: "string list \<Rightarrow> sstable_meta list list \<Rightarrow> kv_error + sstable_meta list list" where
  "load_lines [] levels = Inr levels"
| "load_lines (line # lines) levels =
     (if line = [] then load_lines lines levels
      else sum_bind (parse_meta line) (\<lambda>meta. sum_bind (add_meta meta levels) (load_lines lines)))"

text \<open>\<open>loadLevelMetadata\<close>: the version it installs.\<close>

definition loadLevelMetadata :: "string \<Rightarrow> uint64 \<Rightarrow> file_system \<Rightarrow> kv_error + table_version" where
  "loadLevelMetadata data_dir flush_counter fs =
     (case fs_read (data_dir @ ''/levels.txt'') fs of
        None \<Rightarrow> Inr (tv_new\<lparr>tv_levels := resize 4 []\<rparr>)
      | Some content \<Rightarrow>
          sum_bind (load_lines (getlines content) []) (\<lambda>levels.
            Inr (tv_new\<lparr>tv_levels := (if levels = [] then resize 4 [] else levels),
                        tv_flush_counter := flush_counter\<rparr>)))"

text \<open>\<open>loadSSTables\<close>: open the file of every level entry that has one.\<close>

definition table_path :: "string \<Rightarrow> uint64 \<Rightarrow> string" where
  "table_path data_dir i = data_dir @ ''/sstables/sstable_'' @ to_string (unat i) @ ''.bin''"

fun load_tables :: "string \<Rightarrow> file_system \<Rightarrow> sstable_meta list \<Rightarrow> kv_error + sstable option list" where
  "load_tables data_dir fs [] = Inr []"
| "load_tables data_dir fs (meta # metas) =
     (if fs_exists (table_path data_dir (meta_id meta)) fs
      then sum_bind (sst_open (table_path data_dir (meta_id meta)) fs) (\<lambda>t.
           sum_bind (load_tables data_dir fs metas) (\<lambda>ts. Inr (Some t # ts)))
      else load_tables data_dir fs metas)"

definition loadSSTables :: "string \<Rightarrow> file_system \<Rightarrow> version_manager \<Rightarrow> kv_error + version_manager" where
  "loadSSTables data_dir fs vm =
     (let v = getVersionForModification vm in
      sum_bind (load_tables data_dir fs (concat (tv_levels v))) (\<lambda>ts.
        Inr (installVersion (v\<lparr>tv_sstables := tv_sstables v @ ts\<rparr>) vm)))"

section \<open>metadata.txt and saveMetadata\<close>

definition print_counters :: "uint64 \<Rightarrow> uint64 \<Rightarrow> bytes" where
  "print_counters flush_counter seq_number =
     to_string (unat flush_counter) @ [newline] @ to_string (unat seq_number) @ [newline]"

definition parse_counters :: "bytes \<Rightarrow> kv_error + uint64 \<times> uint64" where
  "parse_counters content =
     (let (line1, st1) = getline [] (content, False) in
      sum_bind (stoull line1) (\<lambda>flush_counter.
        let (line2, _) = getline line1 st1 in
        sum_bind (stoull line2) (\<lambda>seq_number. Inr (flush_counter, seq_number))))"

definition saveMetadata :: "string \<Rightarrow> uint64 \<Rightarrow> uint64 \<Rightarrow> table_version \<Rightarrow> file_system \<Rightarrow> file_system" where
  "saveMetadata data_dir flush_counter seq_number v fs =
     fs_write_file (data_dir @ ''/levels.txt'') (print_levels (tv_levels v))
       (fs_write_file (data_dir @ ''/metadata.txt'') (print_counters flush_counter seq_number) fs)"

section \<open>Round trips\<close>

definition wordlike :: "string \<Rightarrow> bool" where
  "wordlike s \<longleftrightarrow> s \<noteq> [] \<and> (\<forall>c\<in>set s. \<not> is_space c)"

lemma newline_space: "is_space newline" "is_space CHR '' ''" "\<not> is_digit newline" "\<not> is_digit CHR '' ''"
  by (simp_all add: newline_def is_space_def is_digit_def)

lemma to_string_wordlike: "wordlike (to_string n)"
  using to_string_digits is_digit_not_space by (auto simp: wordlike_def)

lemma getlines_lines:
  "\<forall>l\<in>set ls. newline \<notin> set l \<Longrightarrow> getlines (concat (map (\<lambda>l. l @ [newline]) ls)) = ls"
proof (induction ls)
  case Nil
  show ?case by (subst getlines.simps) simp
next
  case (Cons l ls)
  let ?r = "concat (map (\<lambda>l. l @ [newline]) ls)"
  have t: "takeWhile (\<lambda>c. c \<noteq> newline) (l @ newline # ?r) = l"
    using Cons.prems by (subst takeWhile_append2) auto
  have "getlines (l @ newline # ?r) = l # getlines ?r"
    by (subst getlines.simps) (simp add: t Let_def)
  with Cons show ?case by simp
qed

lemma getline_line:
  assumes "newline \<notin> set l"
  shows "getline line (l @ newline # bs, False) = (l, bs, False)"
proof -
  have "takeWhile (\<lambda>c. c \<noteq> newline) (l @ newline # bs) = l"
    using assms by (subst takeWhile_append2) auto
  then show ?thesis by (simp add: getline_def Let_def)
qed

lemma to_string_no_newline: "newline \<notin> set (to_string n)"
  using to_string_wordlike newline_space by (auto simp: wordlike_def)

lemma parse_print_counters: "parse_counters (print_counters f q) = Inr (f, q)"
  by (simp add: parse_counters_def print_counters_def getline_line to_string_no_newline stoull_to_string_u64)

lemma dropWhile_spaces: "is_space c \<Longrightarrow> wordlike w \<Longrightarrow> dropWhile is_space (c # w @ r) = w @ r"
  by (cases w) (auto simp: wordlike_def)

lemma read_uint_to_string:
  assumes "n < 2 ^ w" "rest = [] \<or> \<not> is_digit (hd rest)" "pre = [] \<or> pre = '' ''"
  shows "read_uint w (pre @ to_string n @ rest) = (n, True, rest)"
proof -
  obtain c cs where s: "to_string n = c # cs" by (cases "to_string n") auto
  have c: "is_digit c" using to_string_digits [of c n] s by simp
  have ds: "\<forall>c\<in>set (to_string n). is_digit c" by (auto dest: to_string_digits)
  then have v: "digits_value 0 (to_string n @ rest) = n"
    using assms(2) by (simp add: digits_value_append digits_value_to_string digits_value_stop)
  have d: "dropWhile is_digit (to_string n @ rest) = rest"
    using ds assms(2) by (subst dropWhile_append2) (auto simp: dropWhile_eq_self_iff)
  have p: "dropWhile is_space (pre @ to_string n @ rest) = to_string n @ rest"
    using assms(3) dropWhile_spaces [OF newline_space(2) to_string_wordlike, of n rest] c is_digit_not_space [OF c]
    by (auto simp: s)
  show ?thesis
    unfolding read_uint_def p using c is_digit_not_sign [OF c] assms(1) v d by (simp add: s Let_def)
qed

lemma read_word_word:
  assumes "wordlike w" "rest = [] \<or> is_space (hd rest)"
  shows "read_word ('' '' @ w @ rest) = Some (w, rest)"
proof -
  have p: "dropWhile is_space ('' '' @ w @ rest) = w @ rest"
    using dropWhile_spaces [OF newline_space(2) assms(1)] by simp
  have "takeWhile (\<lambda>c. \<not> is_space c) (w @ rest) = w" "dropWhile (\<lambda>c. \<not> is_space c) (w @ rest) = rest"
    using assms by (cases rest; simp add: wordlike_def takeWhile_append2 dropWhile_append2)+
  with assms(1) show ?thesis unfolding read_word_def p by (simp add: wordlike_def)
qed

lemma parse_print_meta:
  assumes "wordlike (minKey m)" "wordlike (maxKey m)"
  obtains line where "print_meta m = line @ [newline]" "newline \<notin> set line" "line \<noteq> []" "parse_meta line = Inr m"
proof -
  let ?a = "to_string (unat (meta_id m))" and ?b = "to_string (unat (meta_level m))"
  let ?c = "to_string (unat (maxSeq m))" and ?d = "to_string (unat (sizeBytes m))"
  define line where "line = ?a @ '' '' @ ?b @ '' '' @ minKey m @ '' '' @ maxKey m @ '' '' @ ?c @ '' '' @ ?d"
  have pr: "print_meta m = line @ [newline]" by (simp add: print_meta_def line_def)
  have nl: "newline \<notin> set s" if "wordlike s" for s using that newline_space by (auto simp: wordlike_def)
  have "newline \<notin> set line"
    using nl [OF assms(1)] nl [OF assms(2)] to_string_no_newline by (simp add: line_def newline_def)
  moreover have "read_uint 64 ([] @ line) = (unat (meta_id m), True, '' '' @ ?b @ '' '' @ minKey m @ '' '' @ maxKey m @ '' '' @ ?c @ '' '' @ ?d)"
    unfolding line_def using newline_space by (intro read_uint_to_string) auto
  then have "read_uint 64 line = (unat (meta_id m), True, '' '' @ ?b @ '' '' @ minKey m @ '' '' @ maxKey m @ '' '' @ ?c @ '' '' @ ?d)"
    by (simp only: append_Nil)
  moreover have "read_uint 32 ('' '' @ ?b @ '' '' @ minKey m @ '' '' @ maxKey m @ '' '' @ ?c @ '' '' @ ?d)
      = (unat (meta_level m), True, '' '' @ minKey m @ '' '' @ maxKey m @ '' '' @ ?c @ '' '' @ ?d)"
    using newline_space by (intro read_uint_to_string) auto
  moreover have "read_word ('' '' @ minKey m @ '' '' @ maxKey m @ '' '' @ ?c @ '' '' @ ?d)
      = Some (minKey m, '' '' @ maxKey m @ '' '' @ ?c @ '' '' @ ?d)"
    using newline_space by (intro read_word_word [OF assms(1)]) auto
  moreover have "read_word ('' '' @ maxKey m @ '' '' @ ?c @ '' '' @ ?d) = Some (maxKey m, '' '' @ ?c @ '' '' @ ?d)"
    using newline_space by (intro read_word_word [OF assms(2)]) auto
  moreover have "read_uint 64 ('' '' @ ?c @ '' '' @ ?d) = (unat (maxSeq m), True, '' '' @ ?d)"
    using newline_space by (intro read_uint_to_string) auto
  moreover have "read_uint 64 ('' '' @ ?d) = (unat (sizeBytes m), True, [])"
    using read_uint_to_string [of "unat (sizeBytes m)" 64 "[]" "'' ''"] by simp
  ultimately show ?thesis
    using that [OF pr] by (simp only: parse_meta_def Let_def prod.case option.case if_False not_True_eq_False) (simp add: line_def)
qed

definition level_of :: "'a list list \<Rightarrow> nat \<Rightarrow> 'a list" where
  "level_of ls l = (if l < length ls then ls ! l else [])"

lemma level_of_resize: "length ls \<le> n \<Longrightarrow> level_of (resize n ls) l = level_of ls l"
  by (auto simp: level_of_def resize_def nth_append)

lemma add_meta_level:
  assumes "unat (meta_level m) + 1 < 2 ^ 32"
  obtains ls' where "add_meta m ls = Inr ls'"
    "\<And>l. level_of ls' l = level_of ls l @ (if l = unat (meta_level m) then [m] else [])"
proof -
  define n where "n = unat (meta_level m)"
  have n1: "unat (meta_level m + 1) = Suc n" using assms by (simp add: n_def unat_word_ariths)
  define ks where "ks = (if n \<ge> length ls then resize (Suc n) ls else ls)"
  have len: "n < length ks" by (simp add: ks_def resize_def)
  have lv: "level_of ks l = level_of ls l" for l by (simp add: ks_def level_of_resize)
  have "add_meta m ls = Inr (ks[n := ks ! n @ [m]])"
    unfolding add_meta_def Let_def n1 n_def [symmetric] ks_def [symmetric] using len by simp
  moreover have "level_of (ks[n := ks ! n @ [m]]) l = level_of ls l @ (if l = n then [m] else [])" for l
    using len lv [of l] by (auto simp: level_of_def)
  ultimately show ?thesis using that by (simp add: n_def)
qed

definition meta_saved :: "sstable_meta \<Rightarrow> bool" where
  "meta_saved m \<longleftrightarrow> wordlike (minKey m) \<and> wordlike (maxKey m) \<and> unat (meta_level m) + 1 < 2 ^ 32"

lemma load_printed:
  assumes "\<forall>m\<in>set ms. meta_saved m"
  shows "\<exists>ls'. load_lines (getlines (concat (map print_meta ms))) ls = Inr ls'
     \<and> (\<forall>l. level_of ls' l = level_of ls l @ filter (\<lambda>m. unat (meta_level m) = l) ms)"
proof -
  define pl where "pl m = butlast (print_meta m)" for m
  have pl: "print_meta m = pl m @ [newline]" "newline \<notin> set (pl m)" "pl m \<noteq> []" "parse_meta (pl m) = Inr m"
    if mem: "m \<in> set ms" for m
  proof -
    obtain line where "print_meta m = line @ [newline]" "newline \<notin> set line" "line \<noteq> []" "parse_meta line = Inr m"
      using parse_print_meta [of m] assms mem unfolding meta_saved_def by metis
    then show "print_meta m = pl m @ [newline]" "newline \<notin> set (pl m)" "pl m \<noteq> []" "parse_meta (pl m) = Inr m"
      by (simp_all add: pl_def)
  qed
  have "concat (map print_meta ms) = concat (map (\<lambda>l. l @ [newline]) (map pl ms))"
    using pl(1) by (simp add: comp_def cong: map_cong)
  then have lines: "getlines (concat (map print_meta ms)) = map pl ms"
    using getlines_lines [of "map pl ms"] pl(2) by (simp only:) auto
  have "\<exists>ls'. load_lines (map pl ns) ls = Inr ls'
     \<and> (\<forall>l. level_of ls' l = level_of ls l @ filter (\<lambda>m. unat (meta_level m) = l) ns)"
    if "set ns \<subseteq> set ms" for ns
    using that
  proof (induction ns arbitrary: ls)
    case (Cons m ns)
    then have m: "m \<in> set ms" by simp
    obtain ls1 where ls1: "add_meta m ls = Inr ls1"
      "\<And>l. level_of ls1 l = level_of ls l @ (if l = unat (meta_level m) then [m] else [])"
      using add_meta_level [of m ls] assms m by (auto simp: meta_saved_def)
    obtain ls2 where "load_lines (map pl ns) ls1 = Inr ls2"
      "\<forall>l. level_of ls2 l = level_of ls1 l @ filter (\<lambda>m. unat (meta_level m) = l) ns"
      using Cons.IH [of ls1] Cons.prems by auto
    with ls1 pl(3,4) [OF m] show ?case by auto
  qed auto
  then show ?thesis unfolding lines by blast
qed

text \<open>Every entry of level \<open>l\<close> says that it is on level \<open>l\<close>.\<close>

definition levels_tagged :: "sstable_meta list list \<Rightarrow> bool" where
  "levels_tagged ls \<longleftrightarrow> (\<forall>l<length ls. \<forall>m\<in>set (ls ! l). unat (meta_level m) = l)"

lemma filter_tagged_from:
  "\<forall>i<length ls. \<forall>m\<in>set (ls ! i). unat (meta_level m) = n + i \<Longrightarrow>
     filter (\<lambda>m. unat (meta_level m) = l) (concat ls) = (if n \<le> l then level_of ls (l - n) else [])"
proof (induction ls arbitrary: n)
  case Nil
  show ?case by (simp add: level_of_def)
next
  case (Cons x xs)
  have x: "\<forall>m\<in>set x. unat (meta_level m) = n" using Cons.prems by fastforce
  have xs: "\<forall>i<length xs. \<forall>m\<in>set (xs ! i). unat (meta_level m) = Suc n + i"
    using Cons.prems by fastforce
  have "filter (\<lambda>m. unat (meta_level m) = l) x = (if l = n then x else [])"
    using x by (auto simp: filter_empty_conv intro: filter_True)
  moreover have "level_of (x # xs) (l - n) = level_of xs (l - Suc n)" if "Suc n \<le> l"
    using that by (simp add: level_of_def Suc_diff_le flip: Suc_diff_Suc)
  moreover have "level_of (x # xs) (l - n) = x" if "l = n" using that by (simp add: level_of_def)
  ultimately show ?case using Cons.IH [OF xs] by auto
qed

lemma filter_tagged: "levels_tagged ls \<Longrightarrow> filter (\<lambda>m. unat (meta_level m) = l) (concat ls) = level_of ls l"
  using filter_tagged_from [of ls 0 l] by (simp add: levels_tagged_def)

lemma fs_read_saved:
  assumes "fs_inv fs" and fs': "fs' = saveMetadata data_dir f q v fs"
  shows "fs_inv fs'" "fs_read (data_dir @ ''/metadata.txt'') fs' = Some (print_counters f q)"
    "fs_read (data_dir @ ''/levels.txt'') fs' = Some (print_levels (tv_levels v))"
    "p \<noteq> data_dir @ ''/metadata.txt'' \<Longrightarrow> p \<noteq> data_dir @ ''/levels.txt'' \<Longrightarrow> fs_read p fs' = fs_read p fs"
  using assms(1) by (simp_all add: fs' saveMetadata_def)

lemma load_levels_file:
  assumes "fs_read (data_dir @ ''/levels.txt'') fs = Some (print_levels (tv_levels v))"
    and "levels_tagged (tv_levels v)" "\<forall>m\<in>set (concat (tv_levels v)). meta_saved m"
  obtains v' where "loadLevelMetadata data_dir f fs = Inr v'"
    "\<And>l. level_of (tv_levels v') l = level_of (tv_levels v) l" "tv_sstables v' = []"
proof -
  obtain ls where ls: "load_lines (getlines (concat (map print_meta (concat (tv_levels v))))) [] = Inr ls"
    "\<And>l. level_of ls l = level_of (tv_levels v) l"
    using load_printed [OF assms(3), of "[]"] filter_tagged [OF assms(2)] by (auto simp: level_of_def [of "[]"])
  have "level_of (if ls = [] then resize 4 [] else ls) l = level_of (tv_levels v) l" for l
    using ls(2) [of l] level_of_resize [of "[] :: sstable_meta list list" 4 l] by (cases "ls = []") simp_all
  with ls(1) show ?thesis
    by (intro that [of "tv_new\<lparr>tv_levels := (if ls = [] then resize 4 [] else ls), tv_flush_counter := f\<rparr>"])
       (simp_all add: loadLevelMetadata_def assms(1) print_levels_def tv_new_def)
qed

section \<open>Properties\<close>

text \<open>
  C36: metadata survives a restart.  After \<open>saveMetadata\<close> the constructor reads back
  both counters, and \<open>loadLevelMetadata\<close> rebuilds every level with the same entries in the
  same order, provided the smallest and largest keys of the tables are non-empty and free
  of white space.
\<close>

theorem metadata_roundtrip:
  assumes "fs_inv fs" "levels_tagged (tv_levels v)" "\<forall>m\<in>set (concat (tv_levels v)). meta_saved m"
  shows "\<exists>content v'. fs_read (data_dir @ ''/metadata.txt'') (saveMetadata data_dir f q v fs) = Some content
     \<and> parse_counters content = Inr (f, q)
     \<and> loadLevelMetadata data_dir f (saveMetadata data_dir f q v fs) = Inr v'
     \<and> (\<forall>l. level_of (tv_levels v') l = level_of (tv_levels v) l)"
proof -
  obtain v' where "loadLevelMetadata data_dir f (saveMetadata data_dir f q v fs) = Inr v'"
    "\<And>l. level_of (tv_levels v') l = level_of (tv_levels v) l"
    using load_levels_file [OF fs_read_saved(3) [OF assms(1) refl] assms(2,3)] by metis
  then show ?thesis using fs_read_saved(2) [OF assms(1) refl] parse_print_counters by blast
qed

definition sample_meta :: "string \<Rightarrow> sstable_meta" where
  "sample_meta k = \<lparr>meta_id = 7, minKey = k, maxKey = ''zz'', maxSeq = 9, sizeBytes = 100, meta_level = 1\<rparr>"

theorem metadata_roundtrip_witness:
  "\<exists>v'. loadLevelMetadata ''d'' 7 (saveMetadata ''d'' 7 10 (tv_new\<lparr>tv_levels := [[], [sample_meta ''aa'']]\<rparr>) fs_empty) = Inr v'
     \<and> level_of (tv_levels v') 1 = [sample_meta ''aa'']"
proof -
  let ?v = "tv_new\<lparr>tv_levels := [[], [sample_meta ''aa'']]\<rparr>"
  have tag: "levels_tagged (tv_levels ?v)"
    by (auto simp: levels_tagged_def sample_meta_def less_Suc_eq)
  have sav: "\<forall>m\<in>set (concat (tv_levels ?v)). meta_saved m"
    by (auto simp: sample_meta_def meta_saved_def wordlike_def is_space_def)
  obtain v' where "loadLevelMetadata ''d'' 7 (saveMetadata ''d'' 7 10 ?v fs_empty) = Inr v'"
    "\<forall>l. level_of (tv_levels v') l = level_of (tv_levels ?v) l"
    using metadata_roundtrip [OF fs_inv_empty tag sav, of "''d''" 7 10] by blast
  then show ?thesis by (intro exI [of _ v']) (simp add: level_of_def)
qed

text \<open>
  A key with a space does not survive a restart.  The line written for a table
  whose smallest key is \<open>a b\<close> is not read back: the words shift by one field, the largest
  key is read as a number, and the extraction fails with fields left uninitialised.
\<close>

lemma metadata_space_key_lost:
  "parse_meta (butlast (print_meta (sample_meta ''a b''))) = Inl UndefinedBehaviour"
proof -
  have "char_of (55::nat) = CHR ''7''" "char_of (49::nat) = CHR ''1''" "char_of (57::nat) = CHR ''9''" "char_of (48::nat) = CHR ''0''"
    by (rule char_of_eqI, simp)+
  then have line: "butlast (print_meta (sample_meta ''a b'')) = ''7 1 a b zz 9 100''"
    by (simp add: print_meta_def sample_meta_def to_string.simps digit_char_def butlast_append)
  show ?thesis
    unfolding line by (simp add: parse_meta_def read_uint_def read_word_def is_space_def is_digit_def Let_def)
qed

end
