(* ===== verification/Write_Queue.thy ===== *)
theory Write_Queue
  imports KV_Types
begin

text \<open>
  The bounded queue between clients and the writer thread (\<open>engine/src/write_queue.cpp\<close>).
  Every method runs under the mutex, apart from \<open>popBatch\<close>, which may give the lock
  away once; what other threads do in that gap is a parameter.  A wait on a condition
  variable is a result of its own: the call is blocked until another thread acts.

  A locale states the queue discipline; from it follows that requests leave the queue
  in the order in which they were accepted, each exactly once, whatever the batch sizes.
\<close>

text \<open>The promise of a request is identified by a number.\<close>

record write_request =
  wr_op :: operation
  wr_key :: string
  wr_value :: string
  wr_completion :: nat

record write_queue =
  wq_queue :: "write_request list"
  wq_max_size :: nat
  wq_shutdown :: bool

definition wq_new :: "nat \<Rightarrow> write_queue" where
  "wq_new max_size = \<lparr>wq_queue = [], wq_max_size = max_size, wq_shutdown = False\<rparr>"

text \<open>\<open>Push_rejected\<close>: the future already holds \<open>false\<close>.\<close>

datatype push_result = Push_blocked | Push_rejected | Push_queued write_queue

definition wq_push :: "write_request \<Rightarrow> write_queue \<Rightarrow> push_result" where
  "wq_push request q =
     (if \<not> (length (wq_queue q) < wq_max_size q \<or> wq_shutdown q) then Push_blocked
      else if wq_shutdown q then Push_rejected
      else Push_queued (q\<lparr>wq_queue := wq_queue q @ [request]\<rparr>))"

datatype pop_result = Pop_blocked | Pop_none | Pop_some write_request write_queue

definition wq_pop :: "write_queue \<Rightarrow> pop_result" where
  "wq_pop q =
     (if wq_queue q = [] \<and> \<not> wq_shutdown q then Pop_blocked
      else case wq_queue q of
        [] \<Rightarrow> Pop_none
      | request # rest \<Rightarrow> Pop_some request (q\<lparr>wq_queue := rest\<rparr>))"

definition wq_do_shutdown :: "write_queue \<Rightarrow> write_queue" where
  "wq_do_shutdown q = q\<lparr>wq_shutdown := True\<rparr>"

definition wq_isShutdown :: "write_queue \<Rightarrow> bool" where
  "wq_isShutdown q = wq_shutdown q"

definition wq_size :: "write_queue \<Rightarrow> nat" where
  "wq_size q = length (wq_queue q)"

text \<open>What clients can do while \<open>popBatch\<close> yields: push (a blocked push waits on), shut down.\<close>

datatype wq_event = Ev_push write_request | Ev_shutdown

fun wq_do_event :: "wq_event \<Rightarrow> write_queue \<Rightarrow> write_queue" where
  "wq_do_event (Ev_push r) q = (case wq_push r q of Push_queued q' \<Rightarrow> q' | _ \<Rightarrow> q)"
| "wq_do_event Ev_shutdown q = wq_do_shutdown q"

text \<open>
  The loop of \<open>popBatch\<close>; \<open>batch_room\<close> is \<open>max_batch_size - batch.size()\<close>.
\<close>

fun wq_take :: "nat \<Rightarrow> write_queue \<Rightarrow> write_request list \<times> write_queue" where
  "wq_take 0 q = ([], q)"
| "wq_take (Suc batch_room) q =
     (case wq_queue q of
        [] \<Rightarrow> ([], q)
      | request # rest \<Rightarrow>
          let (batch, q') = wq_take batch_room (q\<lparr>wq_queue := rest\<rparr>) in (request # batch, q'))"

definition wq_popBatch :: "nat \<Rightarrow> wq_event list \<Rightarrow> write_queue \<Rightarrow> (write_request list \<times> write_queue) option" where
  "wq_popBatch max_batch_size gap q =
     (if wq_queue q = [] \<and> \<not> wq_shutdown q then None
      else if wq_queue q = [] then Some ([], q)
      else Some (wq_take max_batch_size
             (if wq_size q < max_batch_size div 10 then foldl (\<lambda>q e. wq_do_event e q) q gap else q)))"

section \<open>The contract of a first-in first-out queue\<close>

locale fifo =
  fixes contents :: "'q \<Rightarrow> 'r list"
    and push :: "'r \<Rightarrow> 'q \<Rightarrow> 'q option"
    and take_batch :: "nat \<Rightarrow> 'q \<Rightarrow> 'r list \<times> 'q"
  assumes push_contents: "push r q = Some q' \<Longrightarrow> contents q' = contents q @ [r]"
    and take_contents: "take_batch n q = (batch, q') \<Longrightarrow>
      batch = take n (contents q) \<and> contents q' = drop n (contents q)"
begin

lemma take_split: "take_batch n q = (batch, q') \<Longrightarrow> contents q = batch @ contents q'"
  using take_contents append_take_drop_id by metis

text \<open>A consumer that processes batch by batch computes what it would compute one by one.\<close>

lemma batches_fold:
  assumes "take_batch n q = (b1, q1)" "take_batch m q1 = (b2, q2)"
  shows "foldl f (foldl f (foldl f s b1) b2) (contents q2) = foldl f s (contents q)"
  using take_split [OF assms(1)] take_split [OF assms(2)] by simp

lemma take_progress: "0 < n \<Longrightarrow> contents q \<noteq> [] \<Longrightarrow> take_batch n q = (batch, q') \<Longrightarrow>
    length (contents q') < length (contents q) \<and> batch \<noteq> []"
  using take_contents [of n q batch q'] by auto

end

definition wq_try_push :: "write_request \<Rightarrow> write_queue \<Rightarrow> write_queue option" where
  "wq_try_push r q = (case wq_push r q of Push_queued q' \<Rightarrow> Some q' | _ \<Rightarrow> None)"

lemma wq_take_eq: "wq_take n q = (take n (wq_queue q), q\<lparr>wq_queue := drop n (wq_queue q)\<rparr>)"
  by (induction n q rule: wq_take.induct) (auto split: list.splits)

interpretation wq: fifo wq_queue wq_try_push wq_take
  by unfold_locales
     (auto simp: wq_try_push_def wq_push_def wq_take_eq split: if_splits push_result.splits)

section \<open>Clients and consumer\<close>

text \<open>Ghosts: the requests accepted and the requests handed to the writer, in order.\<close>

record wq_sys =
  qs_queue :: write_queue
  qs_accepted :: "write_request list"
  qs_taken :: "write_request list"

fun accepted_by :: "wq_event \<Rightarrow> write_queue \<Rightarrow> write_request list" where
  "accepted_by (Ev_push r) q = (case wq_push r q of Push_queued _ \<Rightarrow> [r] | _ \<Rightarrow> [])"
| "accepted_by Ev_shutdown q = []"

fun accepted_all :: "wq_event list \<Rightarrow> write_queue \<Rightarrow> write_request list" where
  "accepted_all [] q = []"
| "accepted_all (e # es) q = accepted_by e q @ accepted_all es (wq_do_event e q)"

text \<open>The events that fall into the gap of \<open>popBatch\<close>, if it yields at all.\<close>

definition wq_gap :: "nat \<Rightarrow> wq_event list \<Rightarrow> write_queue \<Rightarrow> wq_event list" where
  "wq_gap n gap q = (if wq_queue q \<noteq> [] \<and> wq_size q < n div 10 then gap else [])"

inductive wq_step :: "wq_sys \<Rightarrow> wq_sys \<Rightarrow> bool" where
  client: "wq_step s (s\<lparr>qs_queue := wq_do_event e (qs_queue s),
                        qs_accepted := qs_accepted s @ accepted_by e (qs_queue s)\<rparr>)"
| pop: "wq_pop (qs_queue s) = Pop_some r q \<Longrightarrow>
     wq_step s (s\<lparr>qs_queue := q, qs_taken := qs_taken s @ [r]\<rparr>)"
| batch: "wq_popBatch n gap (qs_queue s) = Some (b, q) \<Longrightarrow>
     wq_step s (s\<lparr>qs_queue := q, qs_taken := qs_taken s @ b,
                  qs_accepted := qs_accepted s @ accepted_all (wq_gap n gap (qs_queue s)) (qs_queue s)\<rparr>)"

definition wq_sys_inv :: "wq_sys \<Rightarrow> bool" where
  "wq_sys_inv s \<longleftrightarrow> qs_taken s @ wq_queue (qs_queue s) = qs_accepted s
     \<and> length (wq_queue (qs_queue s)) \<le> wq_max_size (qs_queue s)"

lemma wq_do_event_queue:
  "wq_queue (wq_do_event e q) = wq_queue q @ accepted_by e q" "wq_max_size (wq_do_event e q) = wq_max_size q"
  "length (wq_queue q) \<le> wq_max_size q \<Longrightarrow> length (wq_queue (wq_do_event e q)) \<le> wq_max_size q"
  by (cases e; simp add: wq_push_def wq_do_shutdown_def)+

lemma wq_events_queue:
  "wq_queue (foldl (\<lambda>q e. wq_do_event e q) q es) = wq_queue q @ accepted_all es q
   \<and> wq_max_size (foldl (\<lambda>q e. wq_do_event e q) q es) = wq_max_size q
   \<and> (length (wq_queue q) \<le> wq_max_size q \<longrightarrow>
      length (wq_queue (foldl (\<lambda>q e. wq_do_event e q) q es)) \<le> wq_max_size q)"
proof (induction es arbitrary: q)
  case (Cons e es)
  show ?case
    using Cons [of "wq_do_event e q"] wq_do_event_queue [where e = e and q = q] by auto
qed simp

lemma wq_popBatch_eq:
  assumes "wq_popBatch n gap q = Some (b, q')"
  defines "q1 \<equiv> foldl (\<lambda>q e. wq_do_event e q) q (wq_gap n gap q)"
  shows "b = take n (wq_queue q1) \<and> wq_queue q' = drop n (wq_queue q1) \<and> wq_max_size q' = wq_max_size q"
  using assms(1) wq_events_queue [of q gap]
  by (auto simp: q1_def wq_popBatch_def wq_gap_def wq_take_eq split: if_splits)

lemma wq_step_inv: "wq_step s t \<Longrightarrow> wq_sys_inv s \<Longrightarrow> wq_sys_inv t"
proof (induction rule: wq_step.induct)
  case (client s e)
  then show ?case using wq_do_event_queue by (auto simp: wq_sys_inv_def)
next
  case (pop s r q)
  then show ?case by (auto simp: wq_sys_inv_def wq_pop_def split: if_splits list.splits)
next
  case (batch n gap s b q)
  define q1 where "q1 = foldl (\<lambda>q e. wq_do_event e q) (qs_queue s) (wq_gap n gap (qs_queue s))"
  have q1: "wq_queue q1 = wq_queue (qs_queue s) @ accepted_all (wq_gap n gap (qs_queue s)) (qs_queue s)"
    "length (wq_queue q1) \<le> wq_max_size (qs_queue s)"
    using wq_events_queue [of "qs_queue s" "wq_gap n gap (qs_queue s)"] batch.prems
    unfolding q1_def wq_sys_inv_def by metis+
  have q: "b = take n (wq_queue q1)" "wq_queue q = drop n (wq_queue q1)" "wq_max_size q = wq_max_size (qs_queue s)"
    using wq_popBatch_eq [OF batch.hyps] by (simp_all add: q1_def)
  have "b @ wq_queue q = wq_queue q1" unfolding q(1,2) by (rule append_take_drop_id)
  moreover have "length (wq_queue q) \<le> length (wq_queue q1)" unfolding q(2) by simp
  ultimately show ?case using batch.prems q1 q(3) by (simp add: wq_sys_inv_def)
qed

lemma wq_steps_inv: "wq_step\<^sup>*\<^sup>* s t \<Longrightarrow> wq_sys_inv s \<Longrightarrow> wq_sys_inv t"
  by (induction rule: rtranclp_induct) (auto intro: wq_step_inv)

text \<open>The writer loop after shutdown: batches until one comes back empty.\<close>

function wq_drain :: "nat \<Rightarrow> write_queue \<Rightarrow> write_request list list" where
  "wq_drain n q =
     (case wq_popBatch (Suc n) [] (wq_do_shutdown q) of
        Some (b # bs, q') \<Rightarrow> (b # bs) # wq_drain n q'
      | _ \<Rightarrow> [])"
  by pat_completeness auto
termination
  by (relation "measure (\<lambda>(n, q). length (wq_queue q))")
     (auto simp: wq_popBatch_def wq_take_eq wq_do_shutdown_def split: if_splits)

declare wq_drain.simps [simp del]

lemma wq_drain_all: "concat (wq_drain n q) = wq_queue q"
proof (induction n q rule: wq_drain.induct)
  case (1 n q)
  show ?case
  proof (cases "wq_queue q")
    case Nil
    then show ?thesis by (subst wq_drain.simps) (simp add: wq_popBatch_def wq_do_shutdown_def)
  next
    case (Cons r rs)
    define q' where "q' = q\<lparr>wq_shutdown := True, wq_queue := drop n rs\<rparr>"
    have pb: "wq_popBatch (Suc n) [] (wq_do_shutdown q) = Some (r # take n rs, q')"
      using Cons by (simp add: wq_popBatch_def wq_take_eq wq_do_shutdown_def q'_def)
    have "concat (wq_drain n q') = drop n rs" using "1.IH" [OF pb] by (simp add: q'_def)
    then show ?thesis by (subst wq_drain.simps) (simp add: pb Cons)
  qed
qed

section \<open>Properties\<close>

text \<open>
  C35: order, exactly-once and the bound.  In every interleaving of pushes, single pops,
  batches and shutdown, the requests handed out so far followed by those still queued are
  exactly the accepted requests in the order of acceptance, and the queue never exceeds
  its maximal size.
\<close>

theorem write_queue_fifo:
  assumes "wq_step\<^sup>*\<^sup>* \<lparr>qs_queue = wq_new m, qs_accepted = [], qs_taken = []\<rparr> t"
  shows "qs_taken t @ wq_queue (qs_queue t) = qs_accepted t
     \<and> length (wq_queue (qs_queue t)) \<le> wq_max_size (qs_queue t)"
  using wq_steps_inv [OF assms] by (simp add: wq_sys_inv_def wq_new_def)

theorem write_queue_fifo_witness:
  "let r = \<lparr>wr_op = Op_PUT, wr_key = ''k'', wr_value = ''v'', wr_completion = 0\<rparr>;
       t = \<lparr>qs_queue = wq_do_event (Ev_push r) (wq_new 5), qs_accepted = [r], qs_taken = []\<rparr>
   in qs_taken t @ wq_queue (qs_queue t) = qs_accepted t"
proof -
  let ?r = "\<lparr>wr_op = Op_PUT, wr_key = ''k'', wr_value = ''v'', wr_completion = 0\<rparr>"
  let ?s = "\<lparr>qs_queue = wq_new 5, qs_accepted = [], qs_taken = []\<rparr>"
  let ?t = "\<lparr>qs_queue = wq_do_event (Ev_push ?r) (wq_new 5), qs_accepted = [?r], qs_taken = []\<rparr>"
  have "wq_step\<^sup>*\<^sup>* ?s ?t"
    using wq_step.client [of ?s "Ev_push ?r"] by (intro r_into_rtranclp) (simp add: wq_push_def wq_new_def)
  then have "qs_taken ?t @ wq_queue (qs_queue ?t) = qs_accepted ?t" by (rule write_queue_fifo [THEN conjunct1])
  then show ?thesis by (simp only: Let_def)
qed

text \<open>
  Shutdown loses no request.  After shutdown a push is rejected at once, never
  blocked, and the writer's loop of batches ends, having received every request that was
  still queued, in order.
\<close>

lemma write_queue_drains:
  "concat (wq_drain n q) = wq_queue q \<and> (\<forall>b\<in>set (wq_drain n q). b \<noteq> [] \<and> length b \<le> Suc n)
     \<and> wq_push r (wq_do_shutdown q) = Push_rejected"
proof -
  have "\<forall>b\<in>set (wq_drain n q). b \<noteq> [] \<and> length b \<le> Suc n"
  proof (induction n q rule: wq_drain.induct)
    case (1 n q)
    show ?case
    proof (cases "wq_popBatch (Suc n) [] (wq_do_shutdown q)")
      case None
      then show ?thesis by (subst wq_drain.simps) simp
    next
      case (Some bq)
      obtain b q' where bq: "bq = (b, q')" by (cases bq)
      have "length b \<le> Suc n"
        using Some bq by (auto simp: wq_popBatch_def wq_take_eq split: if_splits)
      moreover have "\<forall>c\<in>set (wq_drain n q'). c \<noteq> [] \<and> length c \<le> Suc n" if "b = x # xs" for x xs
        using 1 [of "(b, q')" b q' x xs] Some bq that by simp
      ultimately show ?thesis using Some bq by (subst wq_drain.simps) (auto split: list.splits)
    qed
  qed
  then show ?thesis by (simp add: wq_drain_all wq_push_def wq_do_shutdown_def)
qed

lemma write_queue_drains_example:
  "concat (wq_drain 0 \<lparr>wq_queue = [\<lparr>wr_op = Op_DELETE, wr_key = ''k'', wr_value = [], wr_completion = 7\<rparr>],
      wq_max_size = 1, wq_shutdown = False\<rparr>) =
     [\<lparr>wr_op = Op_DELETE, wr_key = ''k'', wr_value = [], wr_completion = 7\<rparr>]"
  using write_queue_drains by simp

end
