(* ===== verification/Command_Parser.thy ===== *)
theory Command_Parser
  imports KV_Types
begin

text \<open>
  The parser of the engine's command line (\<open>engine/src/command_parser.cpp\<close>).  The output
  parameters are part of the result.  A failed \<open>find\<close> returns \<open>npos\<close>, and
  \<open>npos + 1\<close> wraps to \<open>0\<close>, which is where the next search then starts.
\<close>

definition after :: "nat option \<Rightarrow> nat" where
  "after p = (case p of None \<Rightarrow> 0 | Some i \<Rightarrow> i + 1)"

text \<open>The text between the quotation marks found by two searches, the first from position \<open>from\<close>.\<close>

definition quoted :: "string \<Rightarrow> nat \<Rightarrow> (string \<times> nat) option" where
  "quoted input from =
     (let start = find_char input (CHR 0x22) from;
          stop = find_char input (CHR 0x22) (after start)
      in case (start, stop) of
           (Some s, Some e) \<Rightarrow> Some (take (e - s - 1) (drop (s + 1) input), e)
         | _ \<Rightarrow> None)"

definition parseCommand :: "string \<Rightarrow> operation \<times> string \<times> string" where
  "parseCommand input =
     (if take 4 input = ''put('' then
        (case quoted input 0 of
           None \<Rightarrow> (Op_ERROR, [], [])
         | Some (key, endKey) \<Rightarrow>
             (case quoted input (endKey + 1) of
                None \<Rightarrow> (Op_ERROR, key, [])
              | Some (val, _) \<Rightarrow> (Op_PUT, key, val)))
      else if take 4 input = ''get('' then
        (case quoted input 0 of None \<Rightarrow> (Op_ERROR, [], []) | Some (key, _) \<Rightarrow> (Op_GET, key, []))
      else if take 7 input = ''delete('' then
        (case quoted input 0 of None \<Rightarrow> (Op_ERROR, [], []) | Some (key, _) \<Rightarrow> (Op_DELETE, key, []))
      else if take 2 input = ''ls'' then
        (if length input \<noteq> 2 then (Op_ERROR, [], []) else (Op_LS, [], []))
      else if take 5 input = ''flush'' then
        (if length input \<noteq> 5 then (Op_ERROR, [], []) else (Op_FLUSH, [], []))
      else if take 5 input = ''clear'' then
        (if length input \<noteq> 5 then (Op_ERROR, [], []) else (Op_CLEAR, [], []))
      else (Op_ERROR, [], []))"

section \<open>Printing commands\<close>

text \<open>The syntax of the source comment: \<open>put("key", "value")\<close>, \<open>get("key")\<close>, \<open>delete("key")\<close>.\<close>

definition quote :: "string \<Rightarrow> string" where
  "quote s = CHR 0x22 # s @ [CHR 0x22]"

fun print_command :: "operation \<times> string \<times> string \<Rightarrow> string" where
  "print_command (Op_PUT, key, val) = ''put('' @ quote key @ '', '' @ quote val @ '')''"
| "print_command (Op_GET, key, val) = ''get('' @ quote key @ '')''"
| "print_command (Op_DELETE, key, val) = ''delete('' @ quote key @ '')''"
| "print_command (Op_LS, key, val) = ''ls''"
| "print_command (Op_FLUSH, key, val) = ''flush''"
| "print_command (Op_CLEAR, key, val) = ''clear''"
| "print_command _ = []"

lemma quoted_found:
  assumes "length p = n" "CHR 0x22 \<notin> set g" "CHR 0x22 \<notin> set key"
  shows "quoted (p @ g @ quote key @ post) n = Some (key, n + length g + length key + 1)"
proof -
  have a: "find_char (p @ g @ CHR 0x22 # (key @ CHR 0x22 # post)) (CHR 0x22) n = Some (n + length g)"
    using assms by (intro find_char_append)
  have b: "find_char ((p @ g @ [CHR 0x22]) @ key @ CHR 0x22 # post) (CHR 0x22) (n + length g + 1)
      = Some (n + length g + 1 + length key)"
    using assms by (intro find_char_append) auto
  show ?thesis using a b assms(1) by (simp add: quoted_def quote_def after_def)
qed

text \<open>
  Parsing what was printed.  For a key and a value without quotation marks, every
  command written in the documented syntax is parsed to its operation, key and value.
\<close>

lemma parse_print_command:
  assumes "op \<in> {Op_PUT, Op_GET, Op_DELETE}" "CHR 0x22 \<notin> set key" "CHR 0x22 \<notin> set val"
  shows "parseCommand (print_command (op, key, val)) = (op, key, if op = Op_PUT then val else [])"
proof -
  have k: "quoted (pre @ quote key @ post) 0 = Some (key, length pre + length key + 1)"
    if "CHR 0x22 \<notin> set pre" for pre post
    using that assms(2) quoted_found [of "[]" 0 pre key post] by simp
  have v: "quoted ((''put('' @ quote key) @ '', '' @ quote val @ '')'') (length key + 6)
      = Some (val, length key + 6 + length '', '' + length val + 1)"
    using assms(3) by (intro quoted_found) (simp_all add: quote_def)
  consider "op = Op_PUT" | "op = Op_GET" | "op = Op_DELETE" using assms(1) by blast
  then show ?thesis
  proof cases
    case 1
    then show ?thesis using k [of "''put(''"] v by (simp add: parseCommand_def numeral_eq_Suc)
  next
    case 2
    then show ?thesis using k [of "''get(''" "'')''"] by (simp add: parseCommand_def)
  next
    case 3
    then show ?thesis using k [of "''delete(''" "'')''"] by (simp add: parseCommand_def)
  qed
qed

lemma parse_print_command_example:
  "parseCommand (print_command (Op_PUT, ''k1'', ''hello'')) = (Op_PUT, ''k1'', ''hello'')"
  using parse_print_command [of Op_PUT "''k1''" "''hello''"] by simp

end
