(* ===== verification/Compaction_Merge.thy ===== *)
theory Compaction_Merge
  imports SSTable "HOL-Library.Multiset"
begin

text \<open>
  The merge at the heart of both compactions (\<open>engine/src/engine.cpp\<close>, the loops in
  \<open>compactL0toL1\<close> and \<open>compactlevelN\<close>, which are the same code): iterators over the
  input tables, a priority queue of their current entries, and the merged map.

  The priority queue is a list whose \<open>top\<close> is the first of its greatest elements.  Two
  elements that compare equal (same key, same sequence number) can come out of a
  \<open>std::priority_queue\<close> in any order; the result below does not depend on it, since
  equal sequence numbers mean equal versions.

  The main fact: merging yields, in key order, for every key the version with the highest
  sequence number over all inputs, and nothing when that version is a tombstone.
\<close>

section \<open>The contract of a priority queue\<close>

locale max_queue =
  fixes less :: "'e \<Rightarrow> 'e \<Rightarrow> bool"
    and top :: "'q \<Rightarrow> 'e"
    and pop :: "'q \<Rightarrow> 'q"
    and emplace :: "'e \<Rightarrow> 'q \<Rightarrow> 'q"
    and elems :: "'q \<Rightarrow> 'e multiset"
  assumes top_in: "elems q \<noteq> {#} \<Longrightarrow> top q \<in># elems q"
    and top_max: "x \<in># elems q \<Longrightarrow> \<not> less (top q) x"
    and pop_elems: "elems q \<noteq> {#} \<Longrightarrow> elems (pop q) = elems q - {#top q#}"
    and emplace_elems: "elems (emplace x q) = add_mset x (elems q)"
begin

lemma pop_size: "elems q \<noteq> {#} \<Longrightarrow> size (elems (pop q)) < size (elems q)"
  using top_in [of q] by (simp add: pop_elems size_Diff_singleton nonempty_has_size)

lemma pop_subset: "elems q \<noteq> {#} \<Longrightarrow> x \<in># elems (pop q) \<Longrightarrow> x \<in># elems q"
  by (metis in_diffD pop_elems)

end

section \<open>The heap of the compactions\<close>

type_synonym heap_element = "string \<times> uint64 \<times> entry_type \<times> nat"

definition heap_cmp :: "heap_element \<Rightarrow> heap_element \<Rightarrow> bool" where
  "heap_cmp a b =
     (if fst a \<noteq> fst b then fst a > fst b else fst (snd a) < fst (snd b))"

fun pq_best :: "heap_element \<Rightarrow> heap_element list \<Rightarrow> heap_element" where
  "pq_best x [] = x"
| "pq_best x (y # ys) = pq_best (if heap_cmp x y then y else x) ys"

definition pq_top :: "heap_element list \<Rightarrow> heap_element" where
  "pq_top pq = pq_best (hd pq) (tl pq)"

definition pq_pop :: "heap_element list \<Rightarrow> heap_element list" where
  "pq_pop pq = remove1 (pq_top pq) pq"

definition pq_emplace :: "heap_element \<Rightarrow> heap_element list \<Rightarrow> heap_element list" where
  "pq_emplace x pq = pq @ [x]"

lemma pq_best_in: "pq_best x ys \<in> insert x (set ys)"
  by (induction x ys rule: pq_best.induct) (auto split: if_splits)

lemma heap_cmp_trans: "heap_cmp x y \<Longrightarrow> \<not> heap_cmp z y \<Longrightarrow> \<not> heap_cmp z x"
  by (auto simp: heap_cmp_def split: if_splits)

lemma heap_cmp_not_trans: "\<not> heap_cmp z x \<Longrightarrow> \<not> heap_cmp x y \<Longrightarrow> \<not> heap_cmp z y"
  by (auto simp: heap_cmp_def split: if_splits)

lemma pq_best_max: "y \<in> insert x (set ys) \<Longrightarrow> \<not> heap_cmp (pq_best x ys) y"
proof (induction x ys arbitrary: y rule: pq_best.induct)
  case (1 x)
  then show ?case by (simp add: heap_cmp_def)
next
  case (2 x z zs)
  let ?w = "if heap_cmp x z then z else x"
  have w: "\<not> heap_cmp (pq_best ?w zs) ?w" using "2.IH" by simp
  have "\<not> heap_cmp (pq_best ?w zs) x \<and> \<not> heap_cmp (pq_best ?w zs) z"
  proof (cases "heap_cmp x z")
    case True
    then show ?thesis using w heap_cmp_trans [OF True] by simp
  next
    case False
    then show ?thesis using w heap_cmp_not_trans [OF _ False] by simp
  qed
  moreover have "\<not> heap_cmp (pq_best ?w zs) y" if "y \<in> set zs" using "2.IH" that by blast
  ultimately show ?case using "2.prems" by auto
qed

interpretation pq: max_queue heap_cmp pq_top pq_pop pq_emplace mset
proof unfold_locales
  show "pq_top q \<in># mset q" if "mset q \<noteq> {#}" for q
    using that pq_best_in [of "hd q" "tl q"] by (cases q) (auto simp: pq_top_def)
  show "\<not> heap_cmp (pq_top q) x" if "x \<in># mset q" for x q
    using that pq_best_max [of x "hd q" "tl q"] by (cases q) (auto simp: pq_top_def)
qed (auto simp: pq_pop_def pq_emplace_def)

lemma pq_top_min:
  assumes "x \<in> set pq"
  shows "fst (pq_top pq) \<le> fst x" "fst x = fst (pq_top pq) \<Longrightarrow> fst (snd x) \<le> fst (snd (pq_top pq))"
proof -
  have "\<not> heap_cmp (pq_top pq) x" using pq.top_max [of x pq] assms by simp
  then show "fst (pq_top pq) \<le> fst x" "fst x = fst (pq_top pq) \<Longrightarrow> fst (snd x) \<le> fst (snd (pq_top pq))"
    by (auto simp: heap_cmp_def split: if_splits)
qed

lemma pq_pop_distinct: "distinct pq \<Longrightarrow> pq \<noteq> [] \<Longrightarrow> distinct (pq_pop pq) \<and> set (pq_pop pq) = set pq - {pq_top pq}"
  by (simp add: pq_pop_def)

lemma pq_pop_length: "pq \<noteq> [] \<Longrightarrow> length (pq_pop pq) < length pq"
  using pq.pop_size [of pq] by simp

section \<open>The merge loop\<close>

definition heap_of_entry :: "sstable_entry \<Rightarrow> nat \<Rightarrow> heap_element" where
  "heap_of_entry e i = (se_key e, se_seq e, se_type e, i)"

definition push_iter :: "sst_iter \<Rightarrow> nat \<Rightarrow> heap_element list \<Rightarrow> heap_element list" where
  "push_iter it i pq = (if it_valid it then pq_emplace (heap_of_entry (iter_entry it) i) pq else pq)"

text \<open>The loop that fills the heap, from iterator number \<open>i\<close> on.\<close>

fun heap_init :: "sst_iter list \<Rightarrow> nat \<Rightarrow> heap_element list \<Rightarrow> heap_element list" where
  "heap_init [] i pq = pq"
| "heap_init (it # its) i pq = heap_init its (Suc i) (push_iter it i pq)"

text \<open>The inner loop: take every element of the heap that has the same key.\<close>

function merge_same :: "sst_iter list \<Rightarrow> string \<Rightarrow> heap_element list \<Rightarrow> uint64 \<times> entry_type \<times> string \<Rightarrow>
    nat list \<Rightarrow> heap_element list \<times> (uint64 \<times> entry_type \<times> string) \<times> nat list" where
  "merge_same iters key pq highest sameKeyIndices =
     (if pq \<noteq> [] \<and> fst (pq_top pq) = key
      then let (_, s, t, i) = pq_top pq
           in merge_same iters key (pq_pop pq)
                (if s > fst highest then (s, t, se_value (iter_entry (iters ! i))) else highest)
                (sameKeyIndices @ [i])
      else (pq, highest, sameKeyIndices))"
  by pat_completeness auto
termination
  by (relation "measure (\<lambda>(iters, key, pq, h, is). length pq)") (auto dest: pq_pop_length)

declare merge_same.simps [simp del]

text \<open>Advance the iterators of the entries that were taken and put their next entries into the heap.\<close>

fun merge_advance :: "nat list \<Rightarrow> sst_iter list \<Rightarrow> heap_element list \<Rightarrow>
    kv_error + sst_iter list \<times> heap_element list" where
  "merge_advance [] iters pq = Inr (iters, pq)"
| "merge_advance (i # is) iters pq =
     (if i < length iters
      then sum_bind (iter_next (iters ! i)) (\<lambda>it. merge_advance is (iters[i := it]) (push_iter it i pq))
      else Inl UndefinedBehaviour)"

definition merge_turn :: "sst_iter list \<Rightarrow> heap_element list \<Rightarrow> (string \<times> entry) list \<Rightarrow>
    kv_error + sst_iter list \<times> heap_element list \<times> (string \<times> entry) list" where
  "merge_turn iters pq merged_data =
     (let (key, sq, ty, idx) = pq_top pq;
          (pq', (highestSeq, highestType, highestValue), sameKeyIndices) =
             merge_same iters key (pq_pop pq) (sq, ty, se_value (iter_entry (iters ! idx))) [idx];
          merged' = (if highestType = Et_PUT
                     then smap_put key \<lparr>ent_value = highestValue, ent_seq = highestSeq, ent_type = highestType\<rparr> merged_data
                     else merged_data)
      in sum_bind (merge_advance sameKeyIndices iters pq') (\<lambda>(iters', pq''). Inr (iters', pq'', merged')))"

definition merge_size :: "sst_iter list \<Rightarrow> heap_element list \<Rightarrow> nat" where
  "merge_size iters pq = length pq + sum_list (map (length \<circ> it_rest) iters)"

lemma iter_next_shrinks:
  assumes "iter_next it = Inr it'"
  shows "length (it_rest it') + (if it_valid it' then 1 else 0) \<le> length (it_rest it)"
  using assms sst_read_record_shrinks
  by (fastforce simp: iter_next_def iter_readNext_def Suc_le_eq split: if_splits rec_read.splits)

lemma sum_list_update_nat:
  "i < length xs \<Longrightarrow> sum_list (map f (xs[i := y])) + f (xs ! i) = sum_list (map f xs) + (f y :: nat)"
  by (induction xs arbitrary: i) (auto split: nat.splits)

lemma merge_advance_size:
  "merge_advance is iters pq = Inr (iters', pq') \<Longrightarrow> merge_size iters' pq' \<le> merge_size iters pq"
proof (induction "is" arbitrary: iters pq)
  case (Cons i "is")
  then obtain it where it: "i < length iters" "iter_next (iters ! i) = Inr it"
    "merge_advance is (iters[i := it]) (push_iter it i pq) = Inr (iters', pq')"
    by (auto simp: sum_bind_Inr_conv split: if_splits)
  have "merge_size (iters[i := it]) (push_iter it i pq) \<le> merge_size iters pq"
    using iter_next_shrinks [OF it(2)] sum_list_update_nat [OF it(1), of "length \<circ> it_rest" it]
    by (auto simp: merge_size_def push_iter_def pq_emplace_def)
  with Cons.IH [OF it(3)] show ?case by simp
qed simp

lemma merge_same_length: "length (fst (merge_same iters key pq h is)) \<le> length pq"
proof (induction iters key pq h "is" rule: merge_same.induct)
  case (1 iters key pq h "is")
  show ?case
  proof (cases "pq \<noteq> [] \<and> fst (pq_top pq) = key")
    case True
    obtain k s t i where top: "pq_top pq = (k, s, t, i)" by (cases "pq_top pq")
    have "length (fst (merge_same iters key pq h is)) \<le> length (pq_pop pq)"
      using 1 [OF True top [symmetric]] True top by (subst merge_same.simps) (auto simp: Let_def)
    with pq_pop_length [of pq] True show ?thesis by linarith
  qed (subst merge_same.simps, auto)
qed

lemma merge_turn_size:
  assumes "pq \<noteq> []" "merge_turn iters pq merged = Inr (iters', pq', merged')"
  shows "merge_size iters' pq' < merge_size iters pq"
proof -
  obtain key sq ty idx where top: "pq_top pq = (key, sq, ty, idx)" by (cases "pq_top pq")
  obtain pq1 hs ht hv "is" where
    same: "merge_same iters key (pq_pop pq) (sq, ty, se_value (iter_entry (iters ! idx))) [idx] = (pq1, (hs, ht, hv), is)"
    by (metis prod_cases3)
  have "merge_advance is iters pq1 = Inr (iters', pq')"
    using assms(2) by (auto simp: merge_turn_def top same sum_bind_Inr_conv)
  then have "merge_size iters' pq' \<le> merge_size iters pq1" by (rule merge_advance_size)
  moreover have "length pq1 \<le> length (pq_pop pq)"
    using merge_same_length [of iters key "pq_pop pq" "(sq, ty, se_value (iter_entry (iters ! idx)))" "[idx]"] same by simp
  ultimately show ?thesis using pq_pop_length [OF assms(1)] by (simp add: merge_size_def)
qed

function merge_loop :: "sst_iter list \<Rightarrow> heap_element list \<Rightarrow> (string \<times> entry) list \<Rightarrow>
    kv_error + (string \<times> entry) list" where
  "merge_loop iters pq merged_data =
     (if pq = [] then Inr merged_data
      else case merge_turn iters pq merged_data of
        Inl e \<Rightarrow> Inl e
      | Inr (iters', pq', merged') \<Rightarrow> merge_loop iters' pq' merged')"
  by pat_completeness auto
termination
  by (relation "measure (\<lambda>(iters, pq, merged). merge_size iters pq)") (auto dest: merge_turn_size)

declare merge_loop.simps [simp del]

fun open_iters :: "file_system \<Rightarrow> sstable list \<Rightarrow> kv_error + sst_iter list" where
  "open_iters fs [] = Inr []"
| "open_iters fs (t # ts) = sum_bind (iter_new fs t) (\<lambda>it. sum_bind (open_iters fs ts) (\<lambda>its. Inr (it # its)))"

definition merge_tables :: "file_system \<Rightarrow> sstable list \<Rightarrow> kv_error + (string \<times> entry) list" where
  "merge_tables fs tables =
     sum_bind (open_iters fs tables) (\<lambda>iters. merge_loop iters (heap_init iters 0 []) [])"

section \<open>States of the merge\<close>

text \<open>The runs \<open>rs\<close> are what the iterators have not yet passed; the heap holds their first entries.\<close>

definition run_heads :: "(string \<times> entry) list list \<Rightarrow> heap_element set" where
  "run_heads rs = {h. \<exists>i k e r. i < length rs \<and> rs ! i = (k, e) # r \<and> h = (k, ent_seq e, ent_type e, i)}"

abbreviation heap_idx :: "heap_element \<Rightarrow> nat" where
  "heap_idx h \<equiv> snd (snd (snd h))"

definition runs_ok :: "(string \<times> entry) list list \<Rightarrow> sst_iter list \<Rightarrow> bool" where
  "runs_ok rs iters \<longleftrightarrow> length iters = length rs
     \<and> (\<forall>i<length rs. sorted_keys (rs ! i) \<and> (\<forall>x\<in>set (rs ! i). entry_fits x) \<and> (\<exists>tail. iter_at tail (rs ! i) (iters ! i)))"

definition merge_state :: "(string \<times> entry) list list \<Rightarrow> sst_iter list \<Rightarrow> heap_element list \<Rightarrow> nat list \<Rightarrow> bool" where
  "merge_state rs iters pq is \<longleftrightarrow> runs_ok rs iters \<and> distinct pq
     \<and> set pq = {h \<in> run_heads rs. heap_idx h \<notin> set is}
     \<and> distinct is \<and> (\<forall>i\<in>set is. i < length rs \<and> rs ! i \<noteq> [])"

lemma run_heads_iff:
  "(k, s, t, i) \<in> run_heads rs \<longleftrightarrow> i < length rs \<and> (\<exists>e r. rs ! i = (k, e) # r \<and> s = ent_seq e \<and> t = ent_type e)"
  by (auto simp: run_heads_def)

lemma run_heads_idx: "x \<in> run_heads rs \<Longrightarrow> y \<in> run_heads rs \<Longrightarrow> heap_idx x = heap_idx y \<Longrightarrow> x = y"
  by (auto simp: run_heads_def)

lemma runs_ok_step:
  assumes "runs_ok rs iters" "i < length rs" "rs ! i = x # r"
  obtains it where "iter_next (iters ! i) = Inr it" "runs_ok (rs[i := r]) (iters[i := it])"
    "\<exists>tail. iter_at tail r it"
proof -
  obtain tail where "iter_at tail (x # r) (iters ! i)" "\<forall>y\<in>set r. entry_fits y" "sorted_keys r"
    using assms by (auto simp: runs_ok_def)
  moreover from iter_next_at [OF this(1,2)] obtain it
    where "iter_next (iters ! i) = Inr it" "iter_at tail r it" by blast
  ultimately show ?thesis
    using assms by (intro that [of it]) (auto simp: runs_ok_def nth_list_update)
qed

lemma push_iter_heads:
  assumes "iter_at tail r it"
  shows "push_iter it i pq = pq @ (case r of [] \<Rightarrow> [] | (k, e) # _ \<Rightarrow> [(k, ent_seq e, ent_type e, i)])"
  using assms
  by (auto simp: iter_at_def push_iter_def pq_emplace_def heap_of_entry_def iter_entry_def split: list.splits)

lemma run_heads_update:
  assumes "i < length rs"
  shows "run_heads (rs[i := r]) = {h \<in> run_heads rs. heap_idx h \<noteq> i}
     \<union> set (case r of [] \<Rightarrow> [] | (k, e) # _ \<Rightarrow> [(k, ent_seq e, ent_type e, i)])"
  using assms by (auto simp: run_heads_def nth_list_update split: list.splits if_splits)

lemma merge_advance_state:
  "merge_state rs iters pq is \<Longrightarrow>
     \<exists>iters' pq'. merge_advance is iters pq = Inr (iters', pq')
       \<and> merge_state (foldl (\<lambda>rs i. rs[i := tl (rs ! i)]) rs is) iters' pq' []"
proof (induction "is" arbitrary: rs iters pq)
  case (Cons i "is")
  then have i: "i < length rs" "rs ! i \<noteq> []" "runs_ok rs iters" by (auto simp: merge_state_def)
  then obtain x r where r: "rs ! i = x # r" by (cases "rs ! i") auto
  obtain it tail where it: "iter_next (iters ! i) = Inr it" "runs_ok (rs[i := r]) (iters[i := it])" "iter_at tail r it"
    using runs_ok_step [OF i(3,1) r] by metis
  have len: "i < length iters" using i by (simp add: runs_ok_def)
  have "merge_state (rs[i := r]) (iters[i := it]) (push_iter it i pq) is"
    using Cons.prems it(2) i(1) unfolding merge_state_def push_iter_heads [OF it(3)] run_heads_update [OF i(1)]
    by (auto simp: nth_list_update split: list.splits)
  from Cons.IH [OF this] show ?case using it(1) len r by simp
qed simp

lemma merge_same_takes:
  assumes "distinct pq" "\<forall>x\<in>set pq. key \<le> fst x" "\<forall>x\<in>set pq. fst x = key \<longrightarrow> fst (snd x) \<le> fst h"
    and "inj_on heap_idx (set pq)"
  shows "\<exists>pq' js. merge_same iters key pq h is = (pq', h, is @ js) \<and> distinct pq' \<and> distinct js
     \<and> set pq' = {x \<in> set pq. fst x \<noteq> key} \<and> set js = heap_idx ` {x \<in> set pq. fst x = key}"
  using assms
proof (induction "length pq" arbitrary: pq "is" rule: less_induct)
  case less
  show ?case
  proof (cases "pq \<noteq> [] \<and> fst (pq_top pq) = key")
    case True
    obtain s t i where top: "pq_top pq = (key, s, t, i)" using True by (cases "pq_top pq") auto
    have top_in: "(key, s, t, i) \<in> set pq" using pq.top_in [of pq] True top by simp
    have pop: "distinct (pq_pop pq)" "set (pq_pop pq) = set pq - {(key, s, t, i)}"
      using pq_pop_distinct [of pq] less.prems(1) True top by auto
    have "\<not> s > fst h" using less.prems(3) top_in by (auto simp: not_less)
    then have unfold: "merge_same iters key pq h is = merge_same iters key (pq_pop pq) h (is @ [i])"
      using True top by (subst merge_same.simps) simp
    obtain pq' js where IH: "merge_same iters key (pq_pop pq) h (is @ [i]) = (pq', h, (is @ [i]) @ js)"
      "distinct pq'" "distinct js" "set pq' = {x \<in> set (pq_pop pq). fst x \<noteq> key}"
      "set js = heap_idx ` {x \<in> set (pq_pop pq). fst x = key}"
      using less.hyps [of "pq_pop pq" "is @ [i]"] pq_pop_length [of pq] less.prems pop True
      by (auto simp: inj_on_diff)
    have i: "i \<notin> set js"
    proof
      assume "i \<in> set js"
      then obtain x where "x \<in> set pq" "x \<noteq> (key, s, t, i)" "heap_idx x = heap_idx (key, s, t, i)"
        unfolding IH(5) pop(2) by auto
      with inj_onD [OF less.prems(4)] top_in show False by blast
    qed
    have same: "{x \<in> set pq. fst x = key} = insert (key, s, t, i) {x \<in> set (pq_pop pq). fst x = key}"
      using top_in unfolding pop(2) by auto
    have "set (i # js) = heap_idx ` {x \<in> set pq. fst x = key}"
      unfolding same image_insert by (simp only: list.set IH(5) snd_conv)
    moreover have "set pq' = {x \<in> set pq. fst x \<noteq> key}" unfolding IH(4) pop(2) by auto
    ultimately show ?thesis using unfold IH(1-3) i by (intro exI [of _ pq'] exI [of _ "i # js"]) simp
  next
    case False
    have "fst x \<noteq> key" if x: "x \<in> set pq" for x
    proof
      assume "fst x = key"
      then have "fst (pq_top pq) \<le> key" using pq_top_min(1) [OF x] by simp
      moreover have "pq_top pq \<in> set pq" using pq.top_in [of pq] x by (cases pq) auto
      ultimately have "fst (pq_top pq) = key" using less.prems(2) by (simp add: order_antisym)
      with False x show False by (cases pq) auto
    qed
    then have "{x \<in> set pq. fst x \<noteq> key} = set pq" "{x \<in> set pq. fst x = key} = {}" by blast+
    moreover have "merge_same iters key pq h is = (pq, h, is @ [])"
      by (subst merge_same.simps, subst if_not_P [OF False]) simp
    ultimately show ?thesis using less.prems(1) by (intro exI [of _ pq] exI [of _ "[]"]) simp
  qed
qed

section \<open>One turn\<close>

definition newest :: "(string \<times> entry) list list \<Rightarrow> string \<Rightarrow> entry option" where
  "newest rs k = foldl newer None (map (\<lambda>r. map_of r k) rs)"

text \<open>Versions of a key with the same sequence number are the same version.\<close>

definition runs_agree :: "(string \<times> entry) list list \<Rightarrow> bool" where
  "runs_agree rs \<longleftrightarrow> (\<forall>r\<in>set rs. \<forall>r'\<in>set rs. \<forall>k e e'. map_of r k = Some e \<longrightarrow> map_of r' k = Some e' \<longrightarrow>
     ent_seq e = ent_seq e' \<longrightarrow> e = e')"

lemma newest_eqI:
  assumes "runs_agree rs" "r \<in> set rs" "map_of r k = Some e"
    and "\<And>r' e'. r' \<in> set rs \<Longrightarrow> map_of r' k = Some e' \<Longrightarrow> ent_seq e' \<le> ent_seq e"
  shows "newest rs k = Some e"
proof -
  have e: "Some e \<in> set (map (\<lambda>r. map_of r k) rs)" using assms(2,3) by force
  then have "newest rs k \<noteq> None"
    unfolding newest_def by (induction rs) (auto simp: foldl_newer [of "map_of _ _"])
  then obtain x where x: "newest rs k = Some x" by blast
  then have "Some x \<in> set (map (\<lambda>r. map_of r k) rs)"
    unfolding newest_def using foldl_newer_mem by blast
  then obtain r' where r': "r' \<in> set rs" "map_of r' k = Some x" by auto
  have "ent_seq e \<le> ent_seq x" using foldl_newer_max [OF x [unfolded newest_def]] e by blast
  with assms(4) [OF r'] have "ent_seq x = ent_seq e" by simp
  with assms(1-3) r' x show ?thesis unfolding runs_agree_def by metis
qed

lemma newest_None_iff: "newest rs k = None \<longleftrightarrow> (\<forall>r\<in>set rs. k \<notin> fst ` set r)"
  unfolding newest_def by (induction rs) (auto simp: foldl_newer [of "map_of _ _"] map_of_eq_None_iff)

lemma newest_mem: "newest rs k = Some e \<Longrightarrow> \<exists>r\<in>set rs. map_of r k = Some e"
  using foldl_newer_mem [of None "map (\<lambda>r. map_of r k) rs" e] by (auto simp: newest_def)

definition drop_key :: "string \<Rightarrow> (string \<times> entry) list list \<Rightarrow> (string \<times> entry) list list" where
  "drop_key k = map (filter (\<lambda>x. fst x \<noteq> k))"

lemma map_of_drop: "map_of (filter (\<lambda>x. fst x \<noteq> k) r) j = (if j = k then None else map_of r j)"
  by (induction r) auto

lemma newest_drop_key: "newest (drop_key k rs) j = (if j = k then None else newest rs j)"
proof (cases "j = k")
  case True
  then show ?thesis unfolding newest_None_iff [of "drop_key k rs" j, THEN iffD2] by (auto simp: drop_key_def newest_None_iff)
next
  case False
  then show ?thesis by (simp add: newest_def drop_key_def map_of_drop comp_def)
qed

lemma runs_agree_drop_key: "runs_agree rs \<Longrightarrow> runs_agree (drop_key k rs)"
  unfolding runs_agree_def drop_key_def by (auto simp: map_of_drop split: if_splits)

lemma nth_foldl_tl:
  "distinct is \<Longrightarrow> \<forall>i\<in>set is. i < length rs \<Longrightarrow>
     length (foldl (\<lambda>rs i. rs[i := tl (rs ! i)]) rs is) = length rs \<and>
     (\<forall>j<length rs. foldl (\<lambda>rs i. rs[i := tl (rs ! i)]) rs is ! j = (if j \<in> set is then tl (rs ! j) else rs ! j))"
  by (induction "is" arbitrary: rs) (auto simp: nth_list_update)

lemma sorted_drop_min:
  assumes "sorted_keys r" "\<forall>x\<in>set r. k \<le> fst x"
  shows "filter (\<lambda>x. fst x \<noteq> k) r = (case r of [] \<Rightarrow> [] | x # r' \<Rightarrow> if fst x = k then r' else r)"
proof (cases r)
  case (Cons x r')
  have "\<forall>y\<in>set r'. fst x < fst y" using assms(1) Cons by auto
  moreover have "\<forall>y\<in>set r'. fst y \<noteq> k" if "k \<le> fst x" using calculation that by auto
  ultimately show ?thesis using assms(2) Cons by auto
qed simp

lemma merge_state_runs: "merge_state rs iters pq is \<Longrightarrow> i < length rs \<Longrightarrow>
    sorted_keys (rs ! i) \<and> (\<forall>x\<in>set (rs ! i). entry_fits x) \<and> (\<exists>tail. iter_at tail (rs ! i) (iters ! i))"
  by (simp add: merge_state_def runs_ok_def)

lemma merge_top_head:
  assumes "merge_state rs iters pq []" "pq_top pq = (key, s, t, idx)" "pq \<noteq> []"
  obtains e r where "idx < length rs" "rs ! idx = (key, e) # r" "s = ent_seq e" "t = ent_type e"
    "se_value (iter_entry (iters ! idx)) = ent_value e"
proof -
  have "(key, s, t, idx) \<in> run_heads rs"
    using pq.top_in [of pq] assms by (simp add: merge_state_def)
  then obtain e r where r: "idx < length rs" "rs ! idx = (key, e) # r" "s = ent_seq e" "t = ent_type e"
    by (auto simp: run_heads_iff)
  moreover obtain tail where "iter_at tail (rs ! idx) (iters ! idx)"
    using merge_state_runs [OF assms(1) r(1)] by blast
  ultimately show ?thesis using that by (simp add: iter_at_def iter_entry_def)
qed

lemma merge_top_least:
  assumes "merge_state rs iters pq []" "r \<in> set rs" "x \<in> set r"
  shows "fst (pq_top pq) \<le> fst x"
    and "fst x = fst (pq_top pq) \<Longrightarrow> ent_seq (snd x) \<le> fst (snd (pq_top pq))"
proof -
  obtain i where i: "i < length rs" "r = rs ! i" using assms(2) by (auto simp: in_set_conv_nth)
  obtain y r' where r: "rs ! i = y # r'" using assms(3) i by (cases "rs ! i") auto
  have h: "(fst y, ent_seq (snd y), ent_type (snd y), i) \<in> set pq"
    using assms(1) i(1) r by (cases y) (auto simp: merge_state_def run_heads_iff)
  have top: "fst (pq_top pq) \<le> fst y" using pq_top_min(1) [OF h] by simp
  have s: "sorted_keys (y # r')" using merge_state_runs [OF assms(1) i(1)] r by simp
  have x: "x = y \<or> fst y < fst x" using s assms(3) i(2) r by auto
  with top show "fst (pq_top pq) \<le> fst x" by auto
  assume "fst x = fst (pq_top pq)"
  with x top have "x = y" by auto
  with \<open>fst x = fst (pq_top pq)\<close> show "ent_seq (snd x) \<le> fst (snd (pq_top pq))"
    using pq_top_min(2) [OF h] by simp
qed

lemma drop_key_heads:
  assumes "merge_state rs iters pq []" "distinct is"
    and "\<And>i. i \<in> set is \<longleftrightarrow> i < length rs \<and> (\<exists>e r. rs ! i = (fst (pq_top pq), e) # r)"
  shows "foldl (\<lambda>rs i. rs[i := tl (rs ! i)]) rs is = drop_key (fst (pq_top pq)) rs"
proof (rule nth_equalityI)
  have len: "\<forall>i\<in>set is. i < length rs" using assms(3) by blast
  note tls = nth_foldl_tl [OF assms(2) len]
  show "length (foldl (\<lambda>rs i. rs[i := tl (rs ! i)]) rs is) = length (drop_key (fst (pq_top pq)) rs)"
    using tls by (simp add: drop_key_def)
  fix i assume "i < length (foldl (\<lambda>rs i. rs[i := tl (rs ! i)]) rs is)"
  then have i: "i < length rs" using tls by simp
  have least: "\<forall>x\<in>set (rs ! i). fst (pq_top pq) \<le> fst x"
    using merge_top_least(1) [OF assms(1) nth_mem [OF i]] by blast
  have sorted: "sorted_keys (rs ! i)" using merge_state_runs [OF assms(1) i] by blast
  have "drop_key (fst (pq_top pq)) rs ! i = (if i \<in> set is then tl (rs ! i) else rs ! i)"
    unfolding drop_key_def nth_map [OF i] sorted_drop_min [OF sorted least] assms(3)
    using i by (cases "rs ! i") auto
  with tls i show "foldl (\<lambda>rs i. rs[i := tl (rs ! i)]) rs is ! i = drop_key (fst (pq_top pq)) rs ! i" by simp
qed

text \<open>The inner loop after the top element was taken: it collects exactly the runs that start with the key.\<close>

lemma merge_same_state:
  assumes "merge_state rs iters pq []" "pq \<noteq> []" "pq_top pq = (key, s, t, idx)"
  obtains pq' "is" where "merge_same iters key (pq_pop pq) (s, t, v) [idx] = (pq', (s, t, v), is)"
    "merge_state rs iters pq' is"
    "\<And>i. i \<in> set is \<longleftrightarrow> i < length rs \<and> (\<exists>e r. rs ! i = (key, e) # r)"
proof -
  have st: "distinct pq" "set pq = run_heads rs" "runs_ok rs iters" using assms(1) by (auto simp: merge_state_def)
  have top_in: "(key, s, t, idx) \<in> run_heads rs" using pq.top_in [of pq] assms(2,3) st(2) by simp
  have pop: "distinct (pq_pop pq)" "set (pq_pop pq) = run_heads rs - {(key, s, t, idx)}"
    using pq_pop_distinct [OF st(1) assms(2)] st(2) assms(3) by auto
  have inj: "inj_on heap_idx (run_heads rs)" using run_heads_idx by (intro inj_onI) blast
  have least: "key \<le> fst x \<and> (fst x = key \<longrightarrow> fst (snd x) \<le> s)" if "x \<in> run_heads rs" for x
    using pq_top_min [of x pq] that st(2) assms(3) by simp
  have sub: "set (pq_pop pq) \<subseteq> run_heads rs" using pop(2) by blast
  have "\<exists>pq' js. merge_same iters key (pq_pop pq) (s, t, v) [idx] = (pq', (s, t, v), [idx] @ js) \<and> distinct pq'
     \<and> distinct js \<and> set pq' = {x \<in> set (pq_pop pq). fst x \<noteq> key}
     \<and> set js = heap_idx ` {x \<in> set (pq_pop pq). fst x = key}"
    by (rule merge_same_takes [OF pop(1)]) (use least sub inj_on_subset [OF inj sub] in auto)
  then obtain pq' js where same: "merge_same iters key (pq_pop pq) (s, t, v) [idx] = (pq', (s, t, v), idx # js)"
    "distinct pq'" "distinct js" "set pq' = {x \<in> set (pq_pop pq). fst x \<noteq> key}"
    "set js = heap_idx ` {x \<in> set (pq_pop pq). fst x = key}"
    by auto
  have keys: "{x \<in> run_heads rs. fst x = key} = insert (key, s, t, idx) {x \<in> set (pq_pop pq). fst x = key}"
    using top_in unfolding pop(2) by auto
  have idxs: "set (idx # js) = heap_idx ` {x \<in> run_heads rs. fst x = key}"
    unfolding keys image_insert by (simp only: list.set same(5) snd_conv)
  have mem: "i \<in> set (idx # js) \<longleftrightarrow> i < length rs \<and> (\<exists>e r. rs ! i = (key, e) # r)" for i
    unfolding idxs by (auto simp: run_heads_def image_iff intro!: exI [of _ i])
  have "idx \<notin> set js"
  proof
    assume "idx \<in> set js"
    then obtain x where "x \<in> run_heads rs" "x \<noteq> (key, s, t, idx)" "heap_idx x = heap_idx (key, s, t, idx)"
      unfolding same(5) pop(2) by auto
    with inj_onD [OF inj] top_in show False by blast
  qed
  moreover have "set pq' = {h \<in> run_heads rs. heap_idx h \<notin> set (idx # js)}"
    unfolding same(4) pop(2) idxs using inj_onD [OF inj] by auto
  moreover have "\<forall>i\<in>set (idx # js). i < length rs \<and> rs ! i \<noteq> []"
    using mem by (metis list.distinct(1))
  ultimately have "merge_state rs iters pq' (idx # js)"
    unfolding merge_state_def using st(3) same(2,3) by simp
  then show ?thesis using that same(1) mem by blast
qed

lemma merge_turn_state:
  assumes "merge_state rs iters pq []" "pq \<noteq> []" "runs_agree rs"
  obtains iters' pq' e where "newest rs (fst (pq_top pq)) = Some e"
    "merge_turn iters pq merged =
       Inr (iters', pq', if ent_type e = Et_PUT then smap_put (fst (pq_top pq)) e merged else merged)"
    "merge_state (drop_key (fst (pq_top pq)) rs) iters' pq' []"
proof -
  obtain key s t idx where top: "pq_top pq = (key, s, t, idx)" by (cases "pq_top pq")
  obtain e r where h: "idx < length rs" "rs ! idx = (key, e) # r" "s = ent_seq e" "t = ent_type e"
    "se_value (iter_entry (iters ! idx)) = ent_value e"
    using merge_top_head [OF assms(1) top assms(2)] .
  obtain pq2 "is" where same: "merge_same iters key (pq_pop pq) (s, t, ent_value e) [idx] = (pq2, (s, t, ent_value e), is)"
    "merge_state rs iters pq2 is" "\<And>i. i \<in> set is \<longleftrightarrow> i < length rs \<and> (\<exists>e r. rs ! i = (key, e) # r)"
    using merge_same_state [OF assms(1,2) top] by metis
  obtain iters' pq' where adv: "merge_advance is iters pq2 = Inr (iters', pq')"
    "merge_state (foldl (\<lambda>rs i. rs[i := tl (rs ! i)]) rs is) iters' pq' []"
    using merge_advance_state [OF same(2)] by blast
  have "foldl (\<lambda>rs i. rs[i := tl (rs ! i)]) rs is = drop_key key rs"
    using drop_key_heads [OF assms(1), of "is"] same(2,3) top by (simp add: merge_state_def)
  moreover have "newest rs key = Some e"
  proof (rule newest_eqI [OF assms(3) nth_mem [OF h(1)]])
    show "map_of (rs ! idx) key = Some e" using h(2) by simp
    show "ent_seq e' \<le> ent_seq e" if "r' \<in> set rs" "map_of r' key = Some e'" for r' e'
      using merge_top_least(2) [OF assms(1) that(1) map_of_SomeD [OF that(2)]] top h(3) by simp
  qed
  moreover have "\<lparr>ent_value = ent_value e, ent_seq = s, ent_type = t\<rparr> = e" using h(3,4) by simp
  then have "merge_turn iters pq merged =
      Inr (iters', pq', if ent_type e = Et_PUT then smap_put key e merged else merged)"
    using adv(1) same(1) h(5) by (auto simp: merge_turn_def top simp flip: h(4))
  ultimately show ?thesis using that [of e iters' pq'] adv(2) top by simp
qed

section \<open>The whole merge\<close>

text \<open>What a reader may see of a version: nothing for a tombstone.\<close>

definition live :: "entry option \<Rightarrow> entry option" where
  "live v = (case v of None \<Rightarrow> None | Some e \<Rightarrow> if ent_type e = Et_PUT then Some e else None)"

lemma live_simps [simp]: "live None = None"
  "live (Some e) = (if ent_type e = Et_PUT then Some e else None)"
  by (simp_all add: live_def)

lemma merge_loop_correct:
  assumes "merge_state rs iters pq []" "runs_agree rs" "sorted_keys merged"
    and "\<forall>x\<in>set merged. \<forall>r\<in>set rs. \<forall>y\<in>set r. fst x < fst y"
  shows "\<exists>m. merge_loop iters pq merged = Inr m \<and> sorted_keys m
     \<and> (\<forall>k. map_of m k = (if newest rs k = None then map_of merged k else live (newest rs k)))"
  using assms
proof (induction iters pq merged arbitrary: rs rule: merge_loop.induct)
  case (1 iters pq merged)
  show ?case
  proof (cases "pq = []")
    case True
    have "r = []" if "r \<in> set rs" for r
    proof (rule ccontr)
      assume "r \<noteq> []"
      with that obtain i x r' where "i < length rs" "rs ! i = x # r'" by (metis in_set_conv_nth neq_Nil_conv)
      then have "(fst x, ent_seq (snd x), ent_type (snd x), i) \<in> set pq"
        using "1.prems"(1) by (cases x) (auto simp: merge_state_def run_heads_iff)
      with True show False by simp
    qed
    then have "newest rs k = None" for k unfolding newest_None_iff by fastforce
    with True "1.prems"(3) show ?thesis by (subst merge_loop.simps) simp
  next
    case False
    define key where "key = fst (pq_top pq)"
    obtain iters' pq' e where t: "newest rs key = Some e"
      "merge_turn iters pq merged = Inr (iters', pq', if ent_type e = Et_PUT then smap_put key e merged else merged)"
      "merge_state (drop_key key rs) iters' pq' []"
      using merge_turn_state [OF "1.prems"(1) False "1.prems"(2)] unfolding key_def by metis
    define merged' where "merged' = (if ent_type e = Et_PUT then smap_put key e merged else merged)"
    have less: "fst x < key" if "x \<in> set merged" for x
      using newest_mem [OF t(1)] "1.prems"(4) that map_of_SomeD by fastforce
    have "key < fst y" if "r \<in> set rs" "y \<in> set r" "fst y \<noteq> key" for r y
      using merge_top_least(1) [OF "1.prems"(1) that(1,2)] that(3) by (simp add: key_def)
    moreover have "fst x \<le> key" if "x \<in> set merged'" for x
      using that less [of x] by (auto simp: merged'_def less_imp_le split: if_splits dest!: set_smap_put)
    ultimately have "\<forall>x\<in>set merged'. \<forall>r\<in>set (drop_key key rs). \<forall>y\<in>set r. fst x < fst y"
      unfolding drop_key_def by (fastforce intro: le_less_trans [of _ key])
    moreover have "sorted_keys merged'" using "1.prems"(3) by (simp add: merged'_def)
    ultimately obtain m where m: "merge_loop iters' pq' merged' = Inr m" "sorted_keys m"
      "\<forall>k. map_of m k = (if newest (drop_key key rs) k = None then map_of merged' k else live (newest (drop_key key rs) k))"
      using "1.IH" [OF False t(2) refl refl t(3) runs_agree_drop_key [OF "1.prems"(2)]] unfolding merged'_def by blast
    have "map_of merged key = None" using less by (rule map_of_None_less [rule_format])
    then have "map_of m k = (if newest rs k = None then map_of merged k else live (newest rs k))" for k
      using m(3) t(1) by (auto simp: newest_drop_key merged'_def)
    with m(1,2) False t(2) show ?thesis unfolding merged'_def by (subst merge_loop.simps) simp
  qed
qed

definition heads_from :: "nat \<Rightarrow> (string \<times> entry) list list \<Rightarrow> heap_element set" where
  "heads_from n rs = {h. \<exists>i k e r. i < length rs \<and> rs ! i = (k, e) # r \<and> h = (k, ent_seq e, ent_type e, n + i)}"

lemma heads_from_Cons:
  "heads_from n (r # rs) = set (case r of [] \<Rightarrow> [] | (k, e) # _ \<Rightarrow> [(k, ent_seq e, ent_type e, n)]) \<union> heads_from (Suc n) rs"
proof -
  have heads: "heads_from m qs = {h. \<exists>i<length qs. \<exists>k e r. qs ! i = (k, e) # r \<and> h = (k, ent_seq e, ent_type e, m + i)}"
    for m qs by (auto simp: heads_from_def)
  show ?thesis
    unfolding heads list.size(4) add_Suc_right add_0_right Ex_less_Suc2 by (auto split: list.splits)
qed

lemma heap_init_heads:
  "list_all2 (\<lambda>r it. \<exists>tail. iter_at tail r it) rs its \<Longrightarrow> distinct pq \<Longrightarrow> \<forall>h\<in>set pq. heap_idx h < n \<Longrightarrow>
     distinct (heap_init its n pq) \<and> set (heap_init its n pq) = set pq \<union> heads_from n rs"
proof (induction rs its arbitrary: n pq rule: list_all2_induct)
  case Nil
  then show ?case by (simp add: heads_from_def)
next
  case (Cons r rs it its)
  obtain tail where "iter_at tail r it" using Cons.hyps(1) by blast
  note push = push_iter_heads [OF this, of n pq]
  have "distinct (push_iter it n pq)" "\<forall>h\<in>set (push_iter it n pq). heap_idx h < Suc n"
    using Cons.prems by (auto simp: push less_Suc_eq split: list.splits)
  from Cons.IH [OF this] show ?case by (auto simp: push heads_from_Cons)
qed

lemma open_iters_ok:
  assumes "list_all2 (sst_holds hasher fs) ts rs"
  obtains its where "open_iters fs ts = Inr its" "list_all2 (\<lambda>r it. \<exists>tail. iter_at tail r it) rs its"
  using assms
proof (induction ts rs arbitrary: thesis rule: list_all2_induct)
  case (Cons t ts r rs)
  obtain it tail where it: "iter_new fs t = Inr it" "iter_at tail r it"
    using iter_new_holds [OF Cons.hyps(1)] by metis
  obtain its where "open_iters fs ts = Inr its" "list_all2 (\<lambda>r it. \<exists>tail. iter_at tail r it) rs its"
    using Cons.IH by blast
  with it show ?case by (intro Cons.prems [of "it # its"]) auto
qed simp

lemma merge_tables_correct:
  assumes "list_all2 (sst_holds hasher fs) ts rs" "runs_agree rs"
  obtains m where "merge_tables fs ts = Inr m" "sorted_keys m" "\<And>k. map_of m k = live (newest rs k)"
proof -
  obtain its where its: "open_iters fs ts = Inr its" "list_all2 (\<lambda>r it. \<exists>tail. iter_at tail r it) rs its"
    using open_iters_ok [OF assms(1)] .
  have ok: "sorted_keys (rs ! i) \<and> (\<forall>x\<in>set (rs ! i). entry_fits x)" if "i < length rs" for i
    using list_all2_nthD2 [OF assms(1) that] sst_holds_range by blast
  have "runs_ok rs its"
    using its(2) ok by (auto simp: runs_ok_def list_all2_conv_all_nth)
  moreover have "heads_from 0 rs = run_heads rs" by (simp add: heads_from_def run_heads_def)
  ultimately have "merge_state rs its (heap_init its 0 []) []"
    using heap_init_heads [OF its(2), of "[]" 0] by (simp add: merge_state_def)
  then obtain m where "merge_loop its (heap_init its 0 []) [] = Inr m" "sorted_keys m"
    "\<forall>k. map_of m k = (if newest rs k = None then None else live (newest rs k))"
    using merge_loop_correct [OF _ assms(2), of its "heap_init its 0 []" "[]"] by auto
  then show ?thesis using that [of m] its(1) by (auto simp: merge_tables_def)
qed

section \<open>Properties\<close>

text \<open>
  C29: the merge of a compaction.  For input tables that hold the runs \<open>rs\<close>, in which
  versions of a key with equal sequence numbers are equal, the merge terminates without
  error; its result is in key order, and it holds for a key exactly the version with the
  highest sequence number over all inputs, or nothing when there is none or when that
  version is a tombstone.
\<close>

theorem compaction_merge_newest:
  assumes "list_all2 (sst_holds hasher fs) ts rs" "runs_agree rs"
  shows "\<exists>m. merge_tables fs ts = Inr m \<and> sorted_keys m \<and> (\<forall>k. map_of m k = live (newest rs k))"
  using merge_tables_correct [OF assms] by blast

definition one_put :: "(string \<times> entry) list" where
  "one_put = [(''a'', \<lparr>ent_value = ''x'', ent_seq = 1, ent_type = Et_PUT\<rparr>)]"

lemma one_put_ok: "snapshot_ok one_put"
  by (simp add: one_put_def snapshot_ok_def entry_fits_def entry_ok_def sst_record_def)

theorem compaction_merge_newest_witness:
  "\<exists>t fs m. sst_flush (\<lambda>s. 0) one_put ''d/'' 1 fs_empty = Inr (t, fs) \<and> merge_tables fs [t] = Inr m
     \<and> map_of m ''a'' = Some \<lparr>ent_value = ''x'', ent_seq = 1, ent_type = Et_PUT\<rparr>"
proof -
  obtain t fs where t: "sst_flush (\<lambda>s. 0) one_put ''d/'' 1 fs_empty = Inr (t, fs)" "sst_holds (\<lambda>s. 0) fs t one_put"
    using sst_flush_holds [of "''d/''" 1 fs_empty one_put "\<lambda>s. 0", OF fs_read_empty one_put_ok] by metis
  have "list_all2 (sst_holds (\<lambda>s. 0) fs) [t] [one_put]" "runs_agree [one_put]"
    using t(2) by (simp_all add: runs_agree_def)
  from compaction_merge_newest [OF this] obtain m where
    "merge_tables fs [t] = Inr m" "\<forall>k. map_of m k = live (newest [one_put] k)" by blast
  with t(1) show ?thesis by (auto simp: newest_def one_put_def)
qed

end
