(* ===== verification/Storage_Engine.thy ===== *)
theory Storage_Engine
  imports MemTable LRU_Cache Write_Ahead_Log Metadata_Files Write_Queue Command_Parser Compaction_Merge
begin

text \<open>
  The storage engine (\<open>engine/src/engine.cpp\<close>): its state, the start and the recovery,
  reads, the writer thread, the flush thread, the compaction thread and the command
  interface.

  Each background thread is modelled by one turn of its loop, as a function on the state
  of the engine; the file system is part of that state.  \<open>hasher\<close> stands for
  \<open>std::hash\<close>, \<open>zcrc\<close> for \<open>crc32\<close> of zlib.  Turns are atomic here and a
  \<open>wal_.flush()\<close> is one that finds the synchronisation thread idle; the interleavings
  inside the log are the subject of the theory of the log.  Waiting for another thread is
  the result \<open>None\<close>; an exception that leaves a function is an error value.
  Directories are not part of the file system model, so creating them has no effect.
\<close>

record engine =
  e_data_dir :: string
  e_wal :: wal
  e_mem :: memtable
  e_imm :: "memtable option"
  e_vm :: version_manager
  e_flush_counter :: uint64
  e_seq :: uint64
  e_cache :: "lru_cache option"
  e_queue :: write_queue
  e_writer_shutdown :: bool
  e_flush_pending :: bool
  e_shutdown :: bool
  e_compaction_needed :: bool
  e_compaction_in_progress :: bool
  e_compaction_paused :: bool
  e_fs :: file_system

definition log_path :: "string \<Rightarrow> string" where
  "log_path data_dir = data_dir @ ''/log.bin''"

definition sst_dir :: "string \<Rightarrow> string" where
  "sst_dir data_dir = data_dir @ ''/sstables/''"

text \<open>Dereferencing the current version; the pointer is never null after construction.\<close>

definition with_version :: "engine \<Rightarrow> (table_version \<Rightarrow> kv_error + 'a) \<Rightarrow> kv_error + 'a" where
  "with_version e f =
     (case getCurrentVersion (e_vm e) of None \<Rightarrow> Inl UndefinedBehaviour | Some v \<Rightarrow> f v)"

section \<open>Start: constructor and recover\<close>

fun recover_apply :: "wal_entry \<Rightarrow> memtable \<times> uint64 \<Rightarrow> memtable \<times> uint64" where
  "recover_apply (n, op, key, val) (mem, mx) =
     ((case op of
         Op_PUT \<Rightarrow> snd (mt_put key val n mem)
       | Op_DELETE \<Rightarrow> snd (mt_del key n mem)
       | _ \<Rightarrow> mem), max mx n)"

definition recover :: "crc \<Rightarrow> engine \<Rightarrow> engine" where
  "recover zcrc e =
     (if wal_empty (wal_path (e_wal e)) (e_fs e) then e
      else let (mem, maxSeqNumber) =
                 fold recover_apply (wal_replay zcrc (wal_path (e_wal e)) (e_fs e)) (e_mem e, e_seq e)
           in e\<lparr>e_mem := mem, e_seq := maxSeqNumber + 1\<rparr>)"

definition engine_init :: "string \<Rightarrow> nat \<Rightarrow> file_system \<Rightarrow> engine" where
  "engine_init data_dir cache_size fs =
     (let (w, fs') = wal_open (log_path data_dir) fs
      in \<lparr>e_data_dir = data_dir, e_wal = w, e_mem = mt_new, e_imm = None, e_vm = vm_new,
          e_flush_counter = 0, e_seq = 1,
          e_cache = (if cache_size > 0 then Some (lru_new cache_size) else None),
          e_queue = wq_new 10000, e_writer_shutdown = False, e_flush_pending = False,
          e_shutdown = False, e_compaction_needed = False, e_compaction_in_progress = False,
          e_compaction_paused = False, e_fs = fs'\<rparr>)"

definition engine_load :: "engine \<Rightarrow> kv_error + engine" where
  "engine_load e =
     (case fs_read (e_data_dir e @ ''/metadata.txt'') (e_fs e) of
        None \<Rightarrow>
          Inr (e\<lparr>e_flush_counter := 0, e_vm := installVersion (tv_new\<lparr>tv_levels := resize 4 []\<rparr>) (e_vm e)\<rparr>)
      | Some content \<Rightarrow>
          sum_bind (parse_counters content) (\<lambda>(fc, sq).
          sum_bind (loadLevelMetadata (e_data_dir e) fc (e_fs e)) (\<lambda>v.
          sum_bind (loadSSTables (e_data_dir e) (e_fs e) (installVersion v (e_vm e))) (\<lambda>vm.
            Inr (e\<lparr>e_flush_counter := fc, e_seq := sq, e_vm := vm\<rparr>)))))"

definition engine_open :: "crc \<Rightarrow> string \<Rightarrow> nat \<Rightarrow> file_system \<Rightarrow> kv_error + engine" where
  "engine_open zcrc data_dir cache_size fs =
     sum_bind (engine_load (engine_init data_dir cache_size fs)) (\<lambda>e. Inr (recover zcrc e))"

section \<open>Reads\<close>

text \<open>The loop over level 0.\<close>

fun get_l0 :: "(string \<Rightarrow> uint64) \<Rightarrow> file_system \<Rightarrow> table_version \<Rightarrow> string \<Rightarrow> sstable_meta list \<Rightarrow>
    entry option \<Rightarrow> kv_error + entry option" where
  "get_l0 hasher fs v key [] candidate = Inr candidate"
| "get_l0 hasher fs v key (meta # metas) candidate =
     (case findSSTableById v (meta_id meta) of
        None \<Rightarrow> get_l0 hasher fs v key metas candidate
      | Some sst \<Rightarrow> sum_bind (sst_get hasher fs sst key) (\<lambda>record.
          get_l0 hasher fs v key metas (newer candidate record)))"

text \<open>The loop over the levels, from level number \<open>level\<close> on.\<close>

fun get_levels :: "(string \<Rightarrow> uint64) \<Rightarrow> file_system \<Rightarrow> table_version \<Rightarrow> string \<Rightarrow> nat \<Rightarrow>
    sstable_meta list list \<Rightarrow> entry option \<Rightarrow> kv_error + entry option" where
  "get_levels hasher fs v key level [] candidate = Inr candidate"
| "get_levels hasher fs v key level (metas # rest) candidate =
     (if metas = [] then get_levels hasher fs v key (Suc level) rest candidate
      else if level = 0 then
        sum_bind (get_l0 hasher fs v key metas candidate) (\<lambda>cand.
          if cand \<noteq> None then Inr cand else get_levels hasher fs v key (Suc level) rest cand)
      else
        let it = lower_bound (\<lambda>meta k. maxKey meta < k) metas key;
            go_on = (\<lambda>cand. if cand \<noteq> None then Inr cand else get_levels hasher fs v key (Suc level) rest cand)
        in if it \<noteq> length metas \<and> key \<ge> minKey (metas ! it) then
             (case findSSTableById v (meta_id (metas ! it)) of
                None \<Rightarrow> go_on candidate
              | Some sst \<Rightarrow> sum_bind (sst_get hasher fs sst key) (\<lambda>record.
                  if record \<noteq> None then Inr (newer candidate record) else go_on candidate))
           else go_on candidate)"

definition get_uncached :: "(string \<Rightarrow> uint64) \<Rightarrow> string \<Rightarrow> engine \<Rightarrow> kv_error + entry option" where
  "get_uncached hasher key e =
     with_version e (\<lambda>v.
       let mem = mt_get (e_mem e) key;
           imm = (case e_imm e of None \<Rightarrow> None | Some t \<Rightarrow> mt_get t key)
       in sum_bind (get_levels hasher (e_fs e) v key 0 (tv_levels v) (newer mem imm)) (\<lambda>candidate.
            Inr (case candidate of None \<Rightarrow> None | Some c \<Rightarrow> if ent_type c = Et_DELETE then None else Some c)))"

definition engine_get :: "(string \<Rightarrow> uint64) \<Rightarrow> string \<Rightarrow> engine \<Rightarrow> kv_error + entry option \<times> engine" where
  "engine_get hasher key e =
     (case e_cache e of
        None \<Rightarrow> sum_bind (get_uncached hasher key e) (\<lambda>r. Inr (r, e))
      | Some c \<Rightarrow>
          (let (cached, c') = lru_get key c; e' = e\<lparr>e_cache := Some c'\<rparr> in
           case cached of
             Some x \<Rightarrow> Inr (Some x, e')
           | None \<Rightarrow> sum_bind (get_uncached hasher key e') (\<lambda>r.
               case r of
                 None \<Rightarrow> Inr (None, e')
               | Some x \<Rightarrow> sum_bind (lru_put key x c') (\<lambda>c''. Inr (Some x, e'\<lparr>e_cache := Some c''\<rparr>)))))"

section \<open>Writes\<close>

definition invalidate_cache :: "string \<Rightarrow> engine \<Rightarrow> engine" where
  "invalidate_cache key e = e\<lparr>e_cache := map_option (lru_invalidate key) (e_cache e)\<rparr>"

definition clear_cache :: "engine \<Rightarrow> engine" where
  "clear_cache e = e\<lparr>e_cache := map_option lru_clear (e_cache e)\<rparr>"

text \<open>The body of the loop over a batch: the success flag of the request and the new state.\<close>

definition write_one :: "crc \<Rightarrow> write_request \<Rightarrow> engine \<Rightarrow> bool \<times> engine" where
  "write_one zcrc request e =
     (case wr_op request of
        Op_PUT \<Rightarrow>
          (let (ok, mem) = mt_put (wr_key request) (wr_value request) (e_seq e) (e_mem e) in
           if ok then
             (True, invalidate_cache (wr_key request)
                (e\<lparr>e_mem := mem,
                   e_wal := wal_append zcrc Op_PUT (wr_key request) (wr_value request) (e_seq e) (e_wal e),
                   e_seq := e_seq e + 1\<rparr>))
           else (False, e\<lparr>e_mem := mem\<rparr>))
      | Op_DELETE \<Rightarrow>
          (True, invalidate_cache (wr_key request)
             (e\<lparr>e_mem := snd (mt_del (wr_key request) (e_seq e) (e_mem e)),
                e_wal := wal_append zcrc Op_DELETE (wr_key request) [] (e_seq e) (e_wal e),
                e_seq := e_seq e + 1\<rparr>))
      | _ \<Rightarrow> (False, e))"

fun write_batch :: "crc \<Rightarrow> write_request list \<Rightarrow> engine \<Rightarrow> (nat \<times> bool) list \<times> engine" where
  "write_batch zcrc [] e = ([], e)"
| "write_batch zcrc (r # rs) e =
     (let (ok, e1) = write_one zcrc r e; (results, e2) = write_batch zcrc rs e1
      in ((wr_completion r, ok) # results, e2))"

definition engine_wal_flush :: "engine \<Rightarrow> engine" where
  "engine_wal_flush e = (let (w, fs) = wal_flush (e_wal e, e_fs e) in e\<lparr>e_wal := w, e_fs := fs\<rparr>)"

definition kMemTableThreshold :: nat where
  "kMemTableThreshold = 8 * 1024 * 1024"

text \<open>\<open>None\<close>: the call waits for the flush thread.\<close>

definition checkFlush :: "bool \<Rightarrow> engine \<Rightarrow> engine option" where
  "checkFlush debug e =
     (if mt_getSize (e_mem e) \<ge> kMemTableThreshold \<or> debug then
        let e1 = engine_wal_flush e in
        if e_imm e1 \<noteq> None \<and> \<not> e_shutdown e1 then None
        else if e_shutdown e1 then Some e1
        else Some (e1\<lparr>e_imm := Some (mt_copy_into (mt_snapshot (e_mem e1)) mt_new),
                      e_mem := mt_clear (e_mem e1),
                      e_flush_pending := True,
                      e_fs := fs_remove (log_path (e_data_dir e1)) (e_fs e1)\<rparr>)
      else Some e)"

definition engine_flush :: "engine \<Rightarrow> engine option" where
  "engine_flush e = checkFlush True e"

definition MAX_BATCH_SIZE :: nat where
  "MAX_BATCH_SIZE = 1000"

text \<open>
  \<open>writerThreadLoop\<close>.  The first part of a turn takes a batch, applies it and makes the
  log durable; \<open>gap\<close> is what clients do while \<open>popBatch\<close> yields.  The second part is
  \<open>checkFlush\<close>, which may wait, and then the answers \<open>(completion, success)\<close> go out.
  An empty batch ends the thread.
\<close>

definition writer_apply :: "crc \<Rightarrow> wq_event list \<Rightarrow> engine \<Rightarrow> ((nat \<times> bool) list \<times> engine) option" where
  "writer_apply zcrc gap e =
     (case wq_popBatch MAX_BATCH_SIZE gap (e_queue e) of
        None \<Rightarrow> None
      | Some (batch, q) \<Rightarrow>
          if batch = [] then None
          else let (results, e1) = write_batch zcrc batch (e\<lparr>e_queue := q\<rparr>)
               in Some (results, engine_wal_flush e1))"

definition writer_exits :: "engine \<Rightarrow> bool" where
  "writer_exits e \<longleftrightarrow> wq_popBatch MAX_BATCH_SIZE [] (e_queue e) = Some ([], e_queue e)"

definition writer_turn :: "crc \<Rightarrow> wq_event list \<Rightarrow> engine \<Rightarrow> ((nat \<times> bool) list \<times> engine) option" where
  "writer_turn zcrc gap e =
     (case writer_apply zcrc gap e of
        None \<Rightarrow> None
      | Some (results, e1) \<Rightarrow> map_option (\<lambda>e2. (results, e2)) (checkFlush False e1))"

definition engine_push :: "operation \<Rightarrow> string \<Rightarrow> string \<Rightarrow> nat \<Rightarrow> engine \<Rightarrow> push_result \<times> engine" where
  "engine_push op key val completion e =
     (let r = wq_push \<lparr>wr_op = op, wr_key = key, wr_value = val, wr_completion = completion\<rparr> (e_queue e)
      in (r, case r of Push_queued q \<Rightarrow> e\<lparr>e_queue := q\<rparr> | _ \<Rightarrow> e))"

definition putAsync :: "string \<Rightarrow> string \<Rightarrow> nat \<Rightarrow> engine \<Rightarrow> push_result \<times> engine" where
  "putAsync key val = engine_push Op_PUT key val"

definition delAsync :: "string \<Rightarrow> nat \<Rightarrow> engine \<Rightarrow> push_result \<times> engine" where
  "delAsync key = engine_push Op_DELETE key []"

section \<open>The flush thread\<close>

definition file_size :: "string \<Rightarrow> file_system \<Rightarrow> kv_error + uint64" where
  "file_size p fs = (case fs_read p fs of None \<Rightarrow> Inl (RuntimeError p) | Some bs \<Rightarrow> Inr (word_of_nat (length bs)))"

definition scheduleCompaction :: "engine \<Rightarrow> engine" where
  "scheduleCompaction e = e\<lparr>e_compaction_needed := True\<rparr>"

definition flush_ready :: "engine \<Rightarrow> bool" where
  "flush_ready e \<longleftrightarrow> e_shutdown e \<or> e_flush_pending e"

definition new_meta :: "uint64 \<Rightarrow> uint32 \<Rightarrow> (string \<times> entry) list \<Rightarrow> uint64 \<Rightarrow> uint64 \<Rightarrow> sstable_meta" where
  "new_meta i level data seq_number size_bytes =
     \<lparr>meta_id = i, minKey = fst (hd data), maxKey = fst (last data), maxSeq = seq_number - 1,
      sizeBytes = size_bytes, meta_level = level\<rparr>"

text \<open>One turn of \<open>flushThreadLoop\<close> after its wait.\<close>

definition flush_turn :: "(string \<Rightarrow> uint64) \<Rightarrow> engine \<Rightarrow> kv_error + engine" where
  "flush_turn hasher e =
     (case e_imm e of
        None \<Rightarrow> Inr e
      | Some memtable_to_flush \<Rightarrow>
          (let e0 = e\<lparr>e_flush_pending := False\<rparr>; snapshot = mt_snapshot memtable_to_flush in
           if snapshot = [] then Inr (e0\<lparr>e_imm := None\<rparr>)
           else
             let dir_path = sst_dir (e_data_dir e0);
                 fc = e_flush_counter e0 + 1;
                 e1 = e0\<lparr>e_flush_counter := fc\<rparr> in
             sum_bind (sst_flush hasher snapshot dir_path fc (e_fs e1)) (\<lambda>(newSSTable, fs1).
             sum_bind (file_size (sst_name dir_path fc) fs1) (\<lambda>size_bytes.
             sum_bind (addSSTable newSSTable (new_meta fc 0 snapshot (e_seq e1) size_bytes)
                         (getVersionForModification (e_vm e1))) (\<lambda>v.
               let v' = v\<lparr>tv_flush_counter := fc\<rparr>;
                   e2 = e1\<lparr>e_vm := installVersion v' (e_vm e1),
                           e_fs := saveMetadata (e_data_dir e1) fc (e_seq e1) v' fs1\<rparr>
               in Inr ((scheduleCompaction (clear_cache e2))\<lparr>e_imm := None\<rparr>))))))"

section \<open>Compaction\<close>

definition key_range :: "sstable_meta list \<Rightarrow> string \<times> string" where
  "key_range metas =
     foldl (\<lambda>(mn, mx) meta. (if minKey meta < mn then minKey meta else mn, if maxKey meta > mx then maxKey meta else mx))
       (minKey (hd metas), maxKey (hd metas)) metas"

definition overlaps :: "string \<Rightarrow> string \<Rightarrow> sstable_meta \<Rightarrow> bool" where
  "overlaps mn mx meta \<longleftrightarrow> \<not> (maxKey meta < mn \<or> minKey meta > mx)"

text \<open>The tables of a level that a compaction takes: identifier and table of each entry that qualifies and is found.\<close>

fun select_tables :: "table_version \<Rightarrow> (sstable_meta \<Rightarrow> bool) \<Rightarrow> sstable_meta list \<Rightarrow> (uint64 \<times> sstable) list" where
  "select_tables v P [] = []"
| "select_tables v P (meta # metas) =
     (if P meta then
        (case findSSTableById v (meta_id meta) of
           None \<Rightarrow> select_tables v P metas
         | Some sst \<Rightarrow> (meta_id meta, sst) # select_tables v P metas)
      else select_tables v P metas)"

text \<open>
  The end of both compactions: write the merged table to level \<open>target\<close>, install the
  new version, save the metadata and delete the input files.  \<open>pre\<close> is what is done to
  the copy of the version first.
\<close>

definition finish_compaction :: "(string \<Rightarrow> uint64) \<Rightarrow> (table_version \<Rightarrow> table_version) \<Rightarrow> uint32 \<Rightarrow>
    uint64 list \<Rightarrow> (string \<times> entry) list \<Rightarrow> engine \<Rightarrow> kv_error + engine" where
  "finish_compaction hasher pre target idsToRemove merged_data e =
     (if merged_data = [] then Inr e
      else
        let dir_path = sst_dir (e_data_dir e);
            fc = e_flush_counter e + 1;
            e1 = e\<lparr>e_flush_counter := fc\<rparr> in
        sum_bind (sst_flush hasher merged_data dir_path fc (e_fs e1)) (\<lambda>(newSSTable, fs1).
        sum_bind (file_size (sst_name dir_path fc) fs1) (\<lambda>size_bytes.
        sum_bind (addSSTable newSSTable (new_meta fc target merged_data (e_seq e1) size_bytes)
                    (removeSSTablesByIds idsToRemove (pre (getVersionForModification (e_vm e1))))) (\<lambda>v.
          let l = unat target;
              v' = v\<lparr>tv_flush_counter := fc,
                     tv_levels := (if l < length (tv_levels v)
                                   then (tv_levels v)[l := sort_key minKey (tv_levels v ! l)] else tv_levels v)\<rparr>;
              fs2 = saveMetadata (e_data_dir e1) fc (e_seq e1) v' fs1;
              fs3 = foldl (\<lambda>fs i. fs_remove (table_path (e_data_dir e1) i) fs) fs2 idsToRemove
          in Inr (clear_cache (e1\<lparr>e_vm := installVersion v' (e_vm e1), e_fs := fs3\<rparr>))))))"

definition compactL0toL1 :: "(string \<Rightarrow> uint64) \<Rightarrow> engine \<Rightarrow> kv_error + engine" where
  "compactL0toL1 hasher e =
     with_version e (\<lambda>oldVersion.
       if tv_levels oldVersion = [] \<or> tv_levels oldVersion ! 0 = [] then Inr e
       else
         let (mn, mx) = key_range (tv_levels oldVersion ! 0);
             l0 = select_tables oldVersion (\<lambda>_. True) (tv_levels oldVersion ! 0);
             l1 = (if length (tv_levels oldVersion) > 1
                   then select_tables oldVersion (overlaps mn mx) (tv_levels oldVersion ! 1) else [])
         in sum_bind (merge_tables (e_fs e) (map snd l0 @ map snd l1)) (\<lambda>merged_data.
              finish_compaction hasher id 1 (map fst l0 @ map fst l1) merged_data e))"

definition compactlevelN :: "(string \<Rightarrow> uint64) \<Rightarrow> uint32 \<Rightarrow> engine \<Rightarrow> kv_error + engine" where
  "compactlevelN hasher level e =
     with_version e (\<lambda>oldVersion.
       let l = unat level; next = unat (level + 1) in
       if level = 0 \<or> l \<ge> length (tv_levels oldVersion) then Inr e
       else if tv_levels oldVersion ! l = [] then Inr e
       else
         let srcMeta = hd (tv_levels oldVersion ! l) in
         case findSSTableById oldVersion (meta_id srcMeta) of
           None \<Rightarrow> Inr e
         | Some srcSSTable \<Rightarrow>
             let nl = (if next < length (tv_levels oldVersion)
                       then select_tables oldVersion (overlaps (minKey srcMeta) (maxKey srcMeta))
                              (tv_levels oldVersion ! next) else [])
             in sum_bind (merge_tables (e_fs e) (srcSSTable # map snd nl)) (\<lambda>merged_data.
                  finish_compaction hasher
                    (\<lambda>v. if length (tv_levels v) \<le> next
                         then v\<lparr>tv_levels := resize (unat (level + 2)) (tv_levels v)\<rparr> else v)
                    (level + 1) (meta_id srcMeta # map fst nl) merged_data e))"

definition klevelSizes :: "uint64 list" where
  "klevelSizes = [0, 10 * 1024 * 1024, 100 * 1024 * 1024, 1024 * 1024 * 1024]"

definition shouldCompact :: "uint32 \<Rightarrow> table_version option \<Rightarrow> bool" where
  "shouldCompact level version =
     (case version of
        None \<Rightarrow> False
      | Some v \<Rightarrow>
          let l = unat level in
          if l \<ge> length (tv_levels v) \<or> tv_levels v ! l = [] then False
          else if level = 0 then length (tv_levels v ! 0) \<ge> 4
          else if l \<ge> length klevelSizes then False
          else foldl (\<lambda>sum meta. sum + sizeBytes meta) 0 (tv_levels v ! l) > klevelSizes ! l)"

fun maybeCompact_from :: "(string \<Rightarrow> uint64) \<Rightarrow> uint32 list \<Rightarrow> engine \<Rightarrow> kv_error + engine" where
  "maybeCompact_from hasher [] e = Inr e"
| "maybeCompact_from hasher (level # ls) e =
     sum_bind (if shouldCompact level (getCurrentVersion (e_vm e))
               then (if level = 0 then compactL0toL1 hasher e else compactlevelN hasher level e)
               else Inr e)
       (maybeCompact_from hasher ls)"

definition maybeCompactBackground :: "(string \<Rightarrow> uint64) \<Rightarrow> engine \<Rightarrow> kv_error + engine" where
  "maybeCompactBackground hasher e = maybeCompact_from hasher [0, 1, 2] e"

definition compaction_ready :: "engine \<Rightarrow> bool" where
  "compaction_ready e \<longleftrightarrow> e_shutdown e \<or> e_compaction_needed e \<and> \<not> e_compaction_paused e"

text \<open>One turn of \<open>compactionThreadLoop\<close> after its wait.\<close>

definition compaction_turn :: "(string \<Rightarrow> uint64) \<Rightarrow> engine \<Rightarrow> kv_error + engine" where
  "compaction_turn hasher e =
     (if e_shutdown e then Inr e
      else if e_compaction_needed e \<and> \<not> e_compaction_paused e then
        sum_bind (maybeCompactBackground hasher (e\<lparr>e_compaction_needed := False, e_compaction_in_progress := True\<rparr>))
          (\<lambda>e'. Inr (e'\<lparr>e_compaction_in_progress := False\<rparr>))
      else Inr e)"

definition pauseCompaction :: "engine \<Rightarrow> engine" where
  "pauseCompaction e = e\<lparr>e_compaction_paused := True\<rparr>"

definition resumeCompaction :: "engine \<Rightarrow> engine" where
  "resumeCompaction e = scheduleCompaction (e\<lparr>e_compaction_paused := False\<rparr>)"

section \<open>clearData\<close>

text \<open>\<open>std::filesystem::remove_all\<close>.\<close>

definition fs_remove_all :: "string \<Rightarrow> file_system \<Rightarrow> file_system" where
  "fs_remove_all d fs = fs\<lparr>fs_names := (\<lambda>p. if p = d \<or> take (length d + 1) p = d @ ''/'' then None else fs_names fs p)\<rparr>"

text \<open>The directory that is removed is the literal \<open>data\<close>, not the data directory of the engine.\<close>

definition clearData :: "engine \<Rightarrow> engine" where
  "clearData e =
     clear_cache (e\<lparr>e_fs := fs_remove_all ''data'' (e_fs e), e_mem := mt_clear (e_mem e),
        e_flush_counter := 0, e_seq := 1,
        e_vm := installVersion (tv_new\<lparr>tv_levels := resize 4 []\<rparr>) (e_vm e)\<rparr>)"

section \<open>Blocking calls\<close>

text \<open>
  A client that waits for its answer: the request is queued and the writer thread takes its
  turn.  \<open>None\<close>: the call does not return before another thread acts.
\<close>

definition engine_put :: "crc \<Rightarrow> string \<Rightarrow> string \<Rightarrow> nat \<Rightarrow> engine \<Rightarrow> (bool \<times> engine) option" where
  "engine_put zcrc key val c e =
     (case putAsync key val c e of
        (Push_blocked, _) \<Rightarrow> None
      | (Push_rejected, e1) \<Rightarrow> Some (False, e1)
      | (Push_queued _, e1) \<Rightarrow>
          (case writer_turn zcrc [] e1 of
             None \<Rightarrow> None
           | Some (results, e2) \<Rightarrow> map_option (\<lambda>ok. (ok, e2)) (map_of results c)))"

definition engine_del :: "(string \<Rightarrow> uint64) \<Rightarrow> crc \<Rightarrow> string \<Rightarrow> nat \<Rightarrow> engine \<Rightarrow> kv_error + (bool \<times> engine) option" where
  "engine_del hasher zcrc key c e =
     sum_bind (engine_get hasher key e) (\<lambda>(r, e0).
       let existed = (r \<noteq> None) in
       Inr (case delAsync key c e0 of
              (Push_blocked, _) \<Rightarrow> None
            | (Push_rejected, e1) \<Rightarrow> Some (existed, e1)
            | (Push_queued _, e1) \<Rightarrow>
                (case writer_turn zcrc [] e1 of
                   None \<Rightarrow> None
                 | Some (results, e2) \<Rightarrow> map_option (\<lambda>ok. (existed, e2)) (map_of results c))))"

section \<open>ls and the command interface\<close>

definition print_entry :: "string \<times> entry \<Rightarrow> string" where
  "print_entry = (\<lambda>(k, v). k @ '' '' @ (if ent_type v = Et_DELETE then ''<TOMBSTONE>'' else ent_value v) @ '' ''
     @ to_string (unat (ent_seq v)) @ [newline])"

definition print_table_entry :: "string \<times> entry \<Rightarrow> string" where
  "print_table_entry = (\<lambda>(k, v). k @ '' '' @ ent_value v @ '' '' @ to_string (unat (ent_seq v)) @ [newline])"

definition print_memtable :: "string \<Rightarrow> (string \<times> entry) list \<Rightarrow> string" where
  "print_memtable title m =
     (if m = [] then [] else title @ [newline] @ concat (map print_entry m) @ [newline])"

text \<open>\<open>rfind\<close>: the last position where the pattern occurs.\<close>

definition rfind :: "string \<Rightarrow> string \<Rightarrow> nat option" where
  "rfind s pat =
     find (\<lambda>i. take (length pat) (drop i s) = pat) (rev [0..<Suc (length s - length pat)])"

definition ls_number :: "string \<Rightarrow> string option" where
  "ls_number path =
     (case (rfind path ''_'', rfind path ''.bin'') of
        (Some u, Some d) \<Rightarrow> if u \<ge> d then None else Some (take (d - u - 1) (drop (u + 1) path))
      | _ \<Rightarrow> None)"

fun ls_tables :: "file_system \<Rightarrow> sstable option list \<Rightarrow> kv_error + string" where
  "ls_tables fs [] = Inr []"
| "ls_tables fs (None # ts) = ls_tables fs ts"
| "ls_tables fs (Some sst # ts) =
     (if \<not> fs_exists (sst_filename sst) fs then ls_tables fs ts
      else case ls_number (sst_filename sst) of
        None \<Rightarrow> ls_tables fs ts
      | Some numberStr \<Rightarrow>
          sum_bind (sst_getData fs sst) (\<lambda>data.
          sum_bind (ls_tables fs ts) (\<lambda>out.
            Inr (''SSTable '' @ numberStr @ '':'' @ [newline] @ concat (map print_table_entry data) @ [newline] @ out))))"

definition engine_ls :: "engine \<Rightarrow> kv_error + string" where
  "engine_ls e =
     with_version e (\<lambda>v.
       sum_bind (ls_tables (e_fs e) (rev (tv_sstables v))) (\<lambda>out.
         Inr (print_memtable ''Memtable (active):'' (mt_snapshot (e_mem e))
              @ (case e_imm e of None \<Rightarrow> [] | Some t \<Rightarrow> print_memtable ''Memtable (immutable, flushing):'' (mt_snapshot t))
              @ out)))"

text \<open>What a command prints, and the state after it; \<open>c\<close> names the promise of a write.\<close>

definition handleCommand :: "(string \<Rightarrow> uint64) \<Rightarrow> crc \<Rightarrow> nat \<Rightarrow> string \<Rightarrow> engine \<Rightarrow> kv_error + (string \<times> engine) option" where
  "handleCommand hasher zcrc c input e =
     (let (op, key, val) = parseCommand input in
      case op of
        Op_PUT \<Rightarrow> Inr (map_option (\<lambda>(_, e'). ([], e')) (engine_put zcrc key val c e))
      | Op_GET \<Rightarrow> sum_bind (engine_get hasher key e) (\<lambda>(r, e').
          Inr (Some ((case r of None \<Rightarrow> [] | Some x \<Rightarrow> ent_value x) @ [newline], e')))
      | Op_LS \<Rightarrow> sum_bind (engine_ls e) (\<lambda>out. Inr (Some (out, e)))
      | Op_FLUSH \<Rightarrow> Inr (map_option (\<lambda>e'. ([], e')) (engine_flush e))
      | Op_CLEAR \<Rightarrow> Inr (Some ([], clearData e))
      | Op_DELETE \<Rightarrow> sum_bind (engine_del hasher zcrc key c e) (\<lambda>r.
          Inr (map_option (\<lambda>(_, e'). ([], e')) r))
      | _ \<Rightarrow> Inr (Some ([], e)))"

section \<open>Destructor\<close>

text \<open>The writer works off the closed queue; when \<open>checkFlush\<close> waits, the flush thread takes its turn.\<close>

fun drain_batches :: "(string \<Rightarrow> uint64) \<Rightarrow> crc \<Rightarrow> write_request list list \<Rightarrow> engine \<Rightarrow>
    kv_error + (nat \<times> bool) list \<times> engine" where
  "drain_batches hasher zcrc [] e = Inr ([], e)"
| "drain_batches hasher zcrc (batch # batches) e =
     (let (results, e1) = write_batch zcrc batch e;
          e2 = engine_wal_flush e1 in
      sum_bind (case checkFlush False e2 of
                  Some e3 \<Rightarrow> Inr e3
                | None \<Rightarrow> sum_bind (flush_turn hasher e2) (\<lambda>e3.
                    case checkFlush False e3 of Some e4 \<Rightarrow> Inr e4 | None \<Rightarrow> Inl UndefinedBehaviour))
        (\<lambda>e5. sum_bind (drain_batches hasher zcrc batches e5) (\<lambda>(more, e6). Inr (results @ more, e6))))"

definition engine_close :: "(string \<Rightarrow> uint64) \<Rightarrow> crc \<Rightarrow> engine \<Rightarrow> kv_error + (nat \<times> bool) list \<times> engine" where
  "engine_close hasher zcrc e =
     (let batches = wq_drain (MAX_BATCH_SIZE - 1) (e_queue e) in
      sum_bind (drain_batches hasher zcrc batches
                  (e\<lparr>e_writer_shutdown := True, e_queue := (wq_do_shutdown (e_queue e))\<lparr>wq_queue := []\<rparr>\<rparr>))
        (\<lambda>(answers, e1).
      sum_bind (flush_turn hasher (e1\<lparr>e_shutdown := True\<rparr>)) (\<lambda>e2.
        let (w, fs) = wal_close full_write (e_wal e2, e_fs e2)
        in Inr (answers, e2\<lparr>e_wal := w, e_fs := fs\<rparr>))))"

end
