(* ===== verification/Engine_Reads.thy ===== *)
theory Engine_Reads
  imports Storage_Engine
begin

text \<open>
  What a read of the engine returns.  The layers of the engine, from the youngest to the
  oldest, are the memtable, the immutable memtable and the levels of tables; a layer is a
  set of runs (sorted sequences of versions).  The invariant says that a younger layer
  never holds an older version of a key than an older layer, and that the tables of a level
  below level 0 have disjoint key ranges in ascending order.  Under it, the early exits of
  \<open>get\<close> and its binary search are sound: \<open>get\<close> returns the version with the highest
  sequence number over all layers.
\<close>

section \<open>Runs and layers\<close>

definition run_of :: "file_system \<Rightarrow> table_version \<Rightarrow> sstable_meta \<Rightarrow> (string \<times> entry) list" where
  "run_of fs v m = (case findSSTableById v (meta_id m) of None \<Rightarrow> [] | Some t \<Rightarrow> sst_data fs t)"

definition table_layers :: "file_system \<Rightarrow> table_version \<Rightarrow> (string \<times> entry) list list list" where
  "table_layers fs v = map (map (run_of fs v)) (tv_levels v)"

definition mem_run :: "memtable option \<Rightarrow> (string \<times> entry) list" where
  "mem_run t = (case t of None \<Rightarrow> [] | Some t \<Rightarrow> mt_snapshot t)"

definition engine_layers :: "engine \<Rightarrow> (string \<times> entry) list list list" where
  "engine_layers e = [mt_snapshot (e_mem e)] # [mem_run (e_imm e)]
     # (case current_version (e_vm e) of None \<Rightarrow> [] | Some v \<Rightarrow> table_layers (e_fs e) v)"

text \<open>The version of a key that counts.\<close>

definition engine_view :: "engine \<Rightarrow> string \<Rightarrow> entry option" where
  "engine_view e k = newest (concat (engine_layers e)) k"

definition older_than :: "(string \<times> entry) list list \<Rightarrow> (string \<times> entry) list list \<Rightarrow> bool" where
  "older_than A B \<longleftrightarrow> (\<forall>r\<in>set A. \<forall>r'\<in>set B. \<forall>k a b. map_of r k = Some a \<longrightarrow> map_of r' k = Some b \<longrightarrow> ent_seq b \<le> ent_seq a)"

definition layers_ok :: "(string \<times> entry) list list list \<Rightarrow> bool" where
  "layers_ok Ls \<longleftrightarrow> sorted_wrt older_than Ls \<and> runs_agree (concat Ls)"

lemma newest_append: "newest (rs @ rs') k = newer (newest rs k) (newest rs' k)"
  using foldl_newer [of "newest rs k" "map (\<lambda>r. map_of r k) rs'"] by (simp add: newest_def)

lemma newest_simps [simp]: "newest [] k = None" "newest [r] k = map_of r k"
  "newest (r # rs) k = newer (map_of r k) (newest rs k)"
  using newest_append [of "[r]" rs k] by (simp_all add: newest_def)

lemma newest_set:
  assumes "runs_agree rs" "set rs' = set rs"
  shows "newest rs' k = newest rs k"
proof (cases "newest rs k")
  case None
  with assms(2) show ?thesis using newest_None_iff [of rs k] newest_None_iff [of rs' k] by simp
next
  case (Some e)
  obtain r where r: "r \<in> set rs" "map_of r k = Some e" using newest_mem [OF Some] by blast
  have "newest rs' k = Some e"
  proof (rule newest_eqI [of rs' r])
    show "runs_agree rs'" using assms by (simp add: runs_agree_def)
    show "r \<in> set rs'" "map_of r k = Some e" using r assms(2) by auto
    show "ent_seq e' \<le> ent_seq e" if "r' \<in> set rs'" "map_of r' k = Some e'" for r' e'
    proof -
      have "Some e' \<in> set (map (\<lambda>r. map_of r k) rs)" using that assms(2) by force
      then show ?thesis using foldl_newer_max [of None _ e e'] Some by (auto simp: newest_def)
    qed
  qed
  with Some show ?thesis by simp
qed

text \<open>When a younger layer has the key, the older layers do not matter.\<close>

lemma newer_older:
  assumes "older_than A B" "newest A k \<noteq> None"
  shows "newer (newest A k) (newest B k) = newest A k"
proof -
  obtain a where a: "newest A k = Some a" using assms(2) by blast
  show ?thesis
  proof (cases "newest B k")
    case (Some b)
    obtain r r' where "r \<in> set A" "map_of r k = Some a" "r' \<in> set B" "map_of r' k = Some b"
      using newest_mem [OF a] newest_mem [OF Some] by blast
    with assms(1) have "ent_seq b \<le> ent_seq a" unfolding older_than_def by blast
    with a Some show ?thesis by simp
  qed simp
qed

section \<open>Versions that can be read\<close>

definition meta_ok :: "(string \<Rightarrow> uint64) \<Rightarrow> file_system \<Rightarrow> table_version \<Rightarrow> sstable_meta \<Rightarrow> bool" where
  "meta_ok hasher fs v m \<longleftrightarrow> (\<exists>t. findSSTableById v (meta_id m) = Some t \<and> sst_ok hasher fs t
     \<and> minKey m = sst_min t \<and> maxKey m = sst_max t)"

definition disjoint_level :: "sstable_meta list \<Rightarrow> bool" where
  "disjoint_level metas \<longleftrightarrow> sorted_wrt (\<lambda>a b. maxKey a < minKey b) metas"

definition version_ok :: "(string \<Rightarrow> uint64) \<Rightarrow> file_system \<Rightarrow> string \<Rightarrow> table_version \<Rightarrow> bool" where
  "version_ok hasher fs dir v \<longleftrightarrow> tv_wf dir v \<and> levels_tagged (tv_levels v)
     \<and> (\<forall>m\<in>set (concat (tv_levels v)). meta_ok hasher fs v m)
     \<and> (\<forall>l<length (tv_levels v). l = 0 \<or> disjoint_level (tv_levels v ! l))"

lemma meta_ok_run:
  assumes "meta_ok hasher fs v m"
  shows "run_of fs v m \<noteq> []" "sorted_keys (run_of fs v m)" "\<forall>x\<in>set (run_of fs v m). entry_fits x"
    "minKey m = fst (hd (run_of fs v m))" "maxKey m = fst (last (run_of fs v m))"
    "\<And>k. k \<in> fst ` set (run_of fs v m) \<Longrightarrow> minKey m \<le> k \<and> k \<le> maxKey m"
    "minKey m \<le> maxKey m"
proof -
  obtain t where t: "findSSTableById v (meta_id m) = Some t" "sst_ok hasher fs t" "minKey m = sst_min t" "maxKey m = sst_max t"
    using assms by (auto simp: meta_ok_def)
  have run: "run_of fs v m = sst_data fs t" by (simp add: run_of_def t(1))
  note r = sst_holds_range [OF t(2) [unfolded sst_ok_def]]
  show ne: "run_of fs v m \<noteq> []" and s: "sorted_keys (run_of fs v m)" and "\<forall>x\<in>set (run_of fs v m). entry_fits x"
    and mn: "minKey m = fst (hd (run_of fs v m))" and mx: "maxKey m = fst (last (run_of fs v m))"
    using r t(3,4) by (simp_all add: run)
  show "minKey m \<le> k \<and> k \<le> maxKey m" if "k \<in> fst ` set (run_of fs v m)" for k
    using that sorted_keys_range [OF s] unfolding mn mx by auto
  show "minKey m \<le> maxKey m"
    using sorted_keys_range [OF s hd_in_set [OF ne]] unfolding mn mx by simp
qed

lemma meta_ok_get:
  assumes "meta_ok hasher fs v m"
  obtains t where "findSSTableById v (meta_id m) = Some t" "sst_get hasher fs t k = Inr (map_of (run_of fs v m) k)"
proof -
  obtain t where t: "findSSTableById v (meta_id m) = Some t" "sst_ok hasher fs t"
    using assms by (auto simp: meta_ok_def)
  with sst.lookup_data [OF t(2)] show ?thesis by (intro that [of t]) (simp_all add: run_of_def)
qed

section \<open>Level 0\<close>

lemma get_l0_newest:
  "\<forall>m\<in>set metas. meta_ok hasher fs v m \<Longrightarrow>
     get_l0 hasher fs v key metas cand = Inr (newer cand (newest (map (run_of fs v) metas) key))"
proof (induction metas arbitrary: cand)
  case (Cons m metas)
  obtain t where "findSSTableById v (meta_id m) = Some t" "sst_get hasher fs t key = Inr (map_of (run_of fs v m) key)"
    using meta_ok_get [of hasher fs v m key] Cons.prems by auto
  with Cons show ?case by (simp add: newer_assoc)
qed simp

section \<open>Deeper levels\<close>

lemma newest_NoneI: "\<forall>m\<in>set ms. k \<notin> fst ` set (f m) \<Longrightarrow> newest (map f ms) k = None"
  by (simp add: newest_None_iff)

lemma out_of_range:
  "meta_ok hasher fs v m \<Longrightarrow> key < minKey m \<or> maxKey m < key \<Longrightarrow> key \<notin> fst ` set (run_of fs v m)"
  using meta_ok_run(6) [of hasher fs v m key] by (meson leD)

lemma level_search:
  assumes "\<forall>m\<in>set metas. meta_ok hasher fs v m" "disjoint_level metas"
    and it_def: "it = lower_bound (\<lambda>meta k. maxKey meta < k) metas key"
  shows "it \<le> length metas"
    "newest (map (run_of fs v) metas) key =
      (if it \<noteq> length metas \<and> key \<ge> minKey (metas ! it) then map_of (run_of fs v (metas ! it)) key else None)"
proof -
  have dis: "maxKey (metas ! i) < minKey (metas ! j)" if "i < j" "j < length metas" for i j
    using assms(2) that by (auto simp: disjoint_level_def sorted_wrt_iff_nth_less)
  have ok: "meta_ok hasher fs v (metas ! i)" if "i < length metas" for i using assms(1) that by simp
  have "sorted_wrt (\<lambda>x y. maxKey y < key \<longrightarrow> maxKey x < key) metas"
    unfolding sorted_wrt_iff_nth_less
    using dis meta_ok_run(7) [OF ok] by (meson less_le_trans less_trans)
  then have it: "it = length (takeWhile (\<lambda>m. maxKey m < key) metas)"
    unfolding it_def lower_bound_def by (rule bound_search_takeWhile)
  show le: "it \<le> length metas" by (simp add: it length_takeWhile_le)
  have before: "newest (map (run_of fs v) (take it metas)) key = None"
  proof (rule newest_NoneI, rule ballI)
    fix m assume "m \<in> set (take it metas)"
    moreover have "take it metas = takeWhile (\<lambda>m. maxKey m < key) metas" by (simp add: it flip: takeWhile_eq_take)
    ultimately have "m \<in> set metas" "maxKey m < key" by (auto dest: set_takeWhileD)
    then show "key \<notin> fst ` set (run_of fs v m)" using assms(1) out_of_range by blast
  qed
  show "newest (map (run_of fs v) metas) key =
      (if it \<noteq> length metas \<and> key \<ge> minKey (metas ! it) then map_of (run_of fs v (metas ! it)) key else None)"
  proof (cases "it = length metas")
    case True
    with before show ?thesis by simp
  next
    case False
    with le have lt: "it < length metas" by simp
    have ge: "key \<le> maxKey (metas ! it)"
      using nth_length_takeWhile [of "\<lambda>m. maxKey m < key" metas] lt by (simp add: it)
    have after: "newest (map (run_of fs v) (drop (Suc it) metas)) key = None"
    proof (rule newest_NoneI, rule ballI)
      fix m assume "m \<in> set (drop (Suc it) metas)"
      then obtain i where i: "m = metas ! (Suc it + i)" "Suc it + i < length metas" by (auto simp: in_set_conv_nth)
      then have "key < minKey m" using dis [of it "Suc it + i"] ge by auto
      then show "key \<notin> fst ` set (run_of fs v m)" using i ok out_of_range by metis
    qed
    have "metas = take it metas @ metas ! it # drop (Suc it) metas" using lt by (rule id_take_nth_drop)
    then have "newest (map (run_of fs v) metas) key = map_of (run_of fs v (metas ! it)) key"
      by (metis before after list.map(2) map_append newest_append newest_simps(3) newer_None newer.simps(1))
    moreover have "map_of (run_of fs v (metas ! it)) key = None" if "\<not> key \<ge> minKey (metas ! it)"
      using that out_of_range [OF ok [OF lt], of key] by (simp add: map_of_eq_None_iff not_le)
    ultimately show ?thesis using lt by auto
  qed
qed

section \<open>The loop over the levels\<close>

lemma newest_concat: "newest (concat (A # Ls)) k = newer (newest A k) (newest (concat Ls) k)"
  by (simp add: newest_append)

lemma older_concat: "\<forall>B\<in>set Ls. older_than A B \<Longrightarrow> older_than A (concat Ls)"
  by (auto simp: older_than_def)

lemma get_levels_newest:
  assumes "\<forall>ms\<in>set levels. \<forall>m\<in>set ms. meta_ok hasher fs v m"
    and "\<forall>i<length levels. level + i = 0 \<or> disjoint_level (levels ! i)"
    and "sorted_wrt older_than (C # map (map (run_of fs v)) levels)"
  shows "get_levels hasher fs v key level levels (newest C key) =
     Inr (newest (concat (C # map (map (run_of fs v)) levels)) key)"
  using assms
proof (induction levels arbitrary: level C)
  case (Cons metas rest)
  let ?A = "map (run_of fs v) metas"
  have rest: "\<forall>ms\<in>set rest. \<forall>m\<in>set ms. meta_ok hasher fs v m"
    "\<forall>i<length rest. Suc level + i = 0 \<or> disjoint_level (rest ! i)"
    using Cons.prems(1) Cons.prems(2) [rule_format, of "Suc _"] by auto
  have ok: "\<forall>m\<in>set metas. meta_ok hasher fs v m" using Cons.prems(1) by simp
  have CA: "older_than C ?A" and Crest: "sorted_wrt older_than (C # map (map (run_of fs v)) rest)"
    and Arest: "sorted_wrt older_than (?A # map (map (run_of fs v)) rest)"
    using Cons.prems(3) by auto
  have srt: "sorted_wrt older_than ((C @ ?A) # map (map (run_of fs v)) rest)"
    using Crest Arest by (auto simp: older_than_def)
  define cA where "cA = newest (C @ ?A) key"
  define res where "res = newest (concat (C # ?A # map (map (run_of fs v)) rest)) key"
  have res: "res = newest (concat ((C @ ?A) # map (map (run_of fs v)) rest)) key" by (simp add: res_def)
  have cA: "cA = newer (newest C key) (newest ?A key)" by (simp add: cA_def newest_append)
  have go: "get_levels hasher fs v key (Suc level) rest cA = Inr res"
    unfolding cA_def res by (rule Cons.IH [OF rest srt])
  have stop: "res = cA" if "cA \<noteq> None"
    using newer_older [OF older_concat, of _ "C @ ?A" key] srt that
    unfolding res newest_concat cA_def by simp
  have "get_levels hasher fs v key level (metas # rest) (newest C key) = Inr res"
  proof (cases "metas = [] \<or> level = 0")
    case True
    then show ?thesis using go stop get_l0_newest [OF ok, of key "newest C key"] by (auto simp: cA)
  next
    case False
    define it where "it = lower_bound (\<lambda>meta k. maxKey meta < k) metas key"
    have "disjoint_level metas" using Cons.prems(2) False by (auto dest: spec [of _ 0])
    note search = level_search [OF ok this it_def]
    have none: "cA = newest C key" if "newest ?A key = None" using that cA by simp
    show ?thesis
    proof (cases "it \<noteq> length metas \<and> key \<ge> minKey (metas ! it)")
      case found: True
      then have "meta_ok hasher fs v (metas ! it)" using ok search(1) by simp
      then obtain t where t: "findSSTableById v (meta_id (metas ! it)) = Some t"
        "sst_get hasher fs t key = Inr (newest ?A key)"
        using meta_ok_get [of hasher fs v "metas ! it" key] search(2) found by auto
      then show ?thesis
        using False found go stop none cA by (cases "newest ?A key") (auto simp: it_def [symmetric] Let_def)
    next
      case not_found: False
      then have "newest ?A key = None" using search(2) by (simp only: if_False)
      then show ?thesis using False not_found go stop none by (auto simp: it_def [symmetric] Let_def)
    qed
  qed
  then show ?case by (simp add: res_def)
qed simp

section \<open>The invariant of the engine\<close>

definition all_runs :: "engine \<Rightarrow> (string \<times> entry) list list" where
  "all_runs e = concat (engine_layers e)"

text \<open>Every version the engine holds was written: it is well-formed, fits the file format and has a number below the next one.\<close>

definition versions_ok :: "engine \<Rightarrow> bool" where
  "versions_ok e \<longleftrightarrow> (\<forall>r\<in>set (all_runs e). \<forall>x\<in>set r. entry_fits x \<and> ent_seq (snd x) < e_seq e)"

text \<open>The cache only holds live values that count.\<close>

definition cache_ok :: "engine \<Rightarrow> bool" where
  "cache_ok e \<longleftrightarrow> (\<forall>c. e_cache e = Some c \<longrightarrow> lru_inv c
     \<and> lru.coherent c (\<lambda>k. live (engine_view e k)))"

definition engine_inv :: "(string \<Rightarrow> uint64) \<Rightarrow> engine \<Rightarrow> bool" where
  "engine_inv hasher e \<longleftrightarrow> fs_inv (e_fs e) \<and> mt_inv (e_mem e) \<and> (\<forall>t. e_imm e = Some t \<longrightarrow> mt_inv t)
     \<and> (\<exists>v. current_version (e_vm e) = Some v \<and> version_ok hasher (e_fs e) (sst_dir (e_data_dir e)) v
          \<and> (\<forall>i\<in>tv_ids v. i \<le> e_flush_counter e))
     \<and> layers_ok (engine_layers e) \<and> versions_ok e \<and> cache_ok e
     \<and> (\<forall>i. e_flush_counter e < i \<longrightarrow> fs_read (sst_name (sst_dir (e_data_dir e)) i) (e_fs e) = None)"

lemma entry_ok_live: "entry_ok x \<Longrightarrow> (if ent_type x = Et_DELETE then None else Some x) = live (Some x)"
  by (auto simp: entry_ok_def)

lemma live_view:
  assumes "\<And>x. engine_view e k = Some x \<Longrightarrow> entry_ok x"
  shows "(case engine_view e k of None \<Rightarrow> None | Some c \<Rightarrow> if ent_type c = Et_DELETE then None else Some c)
     = live (engine_view e k)"
  using assms entry_ok_live by (cases "engine_view e k") auto

lemma view_entry:
  assumes "versions_ok e" "engine_view e k = Some x"
  shows "entry_ok x" "entry_fits (k, x)" "ent_seq x < e_seq e"
proof -
  obtain r where "r \<in> set (all_runs e)" "map_of r k = Some x"
    using newest_mem assms(2) unfolding engine_view_def all_runs_def by blast
  then have "entry_fits (k, x) \<and> ent_seq x < e_seq e"
    using assms(1) map_of_SomeD unfolding versions_ok_def by fastforce
  then show "entry_ok x" "entry_fits (k, x)" "ent_seq x < e_seq e" by (auto simp: entry_fits_def)
qed

lemma get_uncached_view:
  assumes "engine_inv hasher e"
  shows "get_uncached hasher key e = Inr (live (engine_view e key))"
proof -
  obtain v where v: "current_version (e_vm e) = Some v" "version_ok hasher (e_fs e) (sst_dir (e_data_dir e)) v"
    using assms by (auto simp: engine_inv_def)
  let ?C = "[mt_snapshot (e_mem e), mem_run (e_imm e)]"
  have layers: "engine_layers e = [mt_snapshot (e_mem e)] # [mem_run (e_imm e)] # table_layers (e_fs e) v"
    by (simp add: engine_layers_def v(1))
  have "sorted_wrt older_than (engine_layers e)" using assms by (simp add: engine_inv_def layers_ok_def)
  then have "sorted_wrt older_than (?C # table_layers (e_fs e) v)"
    unfolding layers by (auto simp: older_than_def)
  then have "get_levels hasher (e_fs e) v key 0 (tv_levels v) (newest ?C key)
      = Inr (newest (concat (?C # table_layers (e_fs e) v)) key)"
    using v(2) unfolding table_layers_def by (intro get_levels_newest) (auto simp: version_ok_def)
  moreover have "newest ?C key = newer (mt_get (e_mem e) key) (case e_imm e of None \<Rightarrow> None | Some t \<Rightarrow> mt_get t key)"
    by (auto simp: mt_get_def mt_snapshot_def mem_run_def split: option.splits)
  moreover have "newest (concat (?C # table_layers (e_fs e) v)) key = engine_view e key"
    by (simp add: engine_view_def layers)
  ultimately show ?thesis
    using assms live_view [of e key] view_entry(1) [of e key] v(1)
    by (simp add: get_uncached_def with_version_def getCurrentVersion_def engine_inv_def)
qed

text \<open>Reads change only the cache, and the invariant and what the engine holds do not depend on it.\<close>

lemma engine_layers_cong:
  "e_mem e' = e_mem e \<Longrightarrow> e_imm e' = e_imm e \<Longrightarrow> e_vm e' = e_vm e \<Longrightarrow> e_fs e' = e_fs e \<Longrightarrow>
     engine_layers e' = engine_layers e"
  by (simp add: engine_layers_def split: option.split)

lemma engine_layers_cache [simp]: "engine_layers (e\<lparr>e_cache := c\<rparr>) = engine_layers e"
  by (rule engine_layers_cong) simp_all

lemma engine_view_cache [simp]: "engine_view (e\<lparr>e_cache := c\<rparr>) = engine_view e"
  by (intro ext) (simp add: engine_view_def)

lemma engine_inv_cache:
  "engine_inv hasher e \<Longrightarrow> cache_ok (e\<lparr>e_cache := c\<rparr>) \<Longrightarrow> engine_inv hasher (e\<lparr>e_cache := c\<rparr>)"
  by (simp add: engine_inv_def versions_ok_def all_runs_def)

lemma engine_get_correct:
  assumes "engine_inv hasher e"
  obtains e' where "engine_get hasher key e = Inr (live (engine_view e key), e')" "engine_inv hasher e'"
    "engine_view e' = engine_view e" "\<exists>c. e' = e\<lparr>e_cache := c\<rparr>"
proof (cases "e_cache e")
  case None
  with get_uncached_view [OF assms] assms show ?thesis
    by (intro that [of e]) (auto simp: engine_get_def intro: exI [of _ "e_cache e"])
next
  case (Some c)
  let ?b = "\<lambda>k. live (engine_view e k)"
  have c: "lru_inv c" "lru.coherent c ?b" using assms Some by (auto simp: engine_inv_def cache_ok_def)
  define c1 where "c1 = snd (lru_get key c)"
  have c1: "lru_inv c1" "lru.coherent c1 ?b"
    unfolding c1_def using lru.get_invar [OF c(1)] lru.coherent_get [OF c] by auto
  have inv1: "engine_inv hasher (e\<lparr>e_cache := Some c1\<rparr>)"
    using engine_inv_cache [OF assms] c1 by (simp add: cache_ok_def)
  show ?thesis
  proof (cases "fst (lru_get key c)")
    case hit: (Some x)
    then have "?b key = Some x" using lru.coherent_hit [OF c] by simp
    with hit Some inv1 show ?thesis
      by (intro that [of "e\<lparr>e_cache := Some c1\<rparr>"]) (auto simp: engine_get_def c1_def split: prod.splits)
  next
    case miss: None
    have get: "get_uncached hasher key (e\<lparr>e_cache := Some c1\<rparr>) = Inr (?b key)"
      using get_uncached_view [OF inv1] by simp
    show ?thesis
    proof (cases "?b key")
      case None
      with get miss Some inv1 show ?thesis
        by (intro that [of "e\<lparr>e_cache := Some c1\<rparr>"]) (auto simp: engine_get_def c1_def split: prod.splits)
    next
      case (Some x)
      obtain c2 where c2: "lru_put key x c1 = Inr c2" using lru.put_ok [OF c1(1)] by blast
      have "lru_inv c2 \<and> lru.coherent c2 ?b" using lru.coherent_put [OF c1 Some c2] .
      then have "engine_inv hasher (e\<lparr>e_cache := Some c2\<rparr>)"
        using engine_inv_cache [OF assms] by (simp add: cache_ok_def)
      with get miss Some c2 \<open>e_cache e = Some c\<close> show ?thesis
        by (intro that [of "e\<lparr>e_cache := Some c2\<rparr>"]) (auto simp: engine_get_def c1_def split: prod.splits)
    qed
  qed
qed

section \<open>A new engine\<close>

lemma layers_ok_empty: "\<forall>A\<in>set Ls. \<forall>r\<in>set A. r = [] \<Longrightarrow> layers_ok Ls"
proof -
  assume a: "\<forall>A\<in>set Ls. \<forall>r\<in>set A. r = []"
  have "sorted_wrt older_than Ls"
    using a by (induction Ls) (auto simp: older_than_def)
  moreover have "r = []" if "r \<in> set (concat Ls)" for r using a that by auto
  then have "runs_agree (concat Ls)" unfolding runs_agree_def by fastforce
  ultimately show ?thesis by (simp add: layers_ok_def)
qed

lemma engine_fresh:
  assumes "dir_ok (sst_dir dir)"
  obtains e where "engine_open zcrc dir n fs_empty = Inr e" "engine_inv hasher e" "\<And>k. engine_view e k = None"
    "e_data_dir e = dir" "e_mem e = mt_new" "e_imm e = None" "e_seq e = 1" "e_queue e = wq_new 10000"
    "\<not> e_shutdown e" "e_fs e = snd (wal_open (log_path dir) fs_empty)" "e_wal e = fst (wal_open (log_path dir) fs_empty)"
    "e_flush_counter e = 0" "current_version (e_vm e) = Some (tv_new\<lparr>tv_levels := resize 4 []\<rparr>)"
proof -
  obtain w fs where wf: "wal_open (log_path dir) fs_empty = (w, fs)" by fastforce
  obtain i where open_fs: "fs_open_create (log_path dir) fs_empty = (i, fs)" "wal_path w = log_path dir"
    using wf by (auto simp: wal_open_def split: prod.splits)
  have rd: "fs_read p fs = (if p = log_path dir then Some [] else None)" for p
    using fs_open_create_props(3) [OF fs_inv_empty open_fs(1), of p] by simp
  have fsi: "fs_inv fs" using fs_open_create_props(2) [OF fs_inv_empty open_fs(1)] .
  define v where "v = tv_new\<lparr>tv_levels := resize 4 []\<rparr>"
  define e where "e = (engine_init dir n fs_empty)\<lparr>e_flush_counter := 0, e_vm := installVersion v vm_new\<rparr>"
  have vl: "tv_levels v = [[], [], [], []]" by (simp add: v_def resize_def eval_nat_numeral)
  have f: "e_data_dir e = dir" "e_mem e = mt_new" "e_imm e = None" "e_seq e = 1" "e_queue e = wq_new 10000"
    "\<not> e_shutdown e" "e_fs e = fs" "e_wal e = w" "current_version (e_vm e) = Some v" "e_flush_counter e = 0"
    "e_cache e = (if n > 0 then Some (lru_new n) else None)"
    by (simp_all add: e_def engine_init_def wf installVersion_def)
  have md: "fs_read (dir @ ''/metadata.txt'') fs = None" using rd by (simp add: log_path_def)
  have "engine_load (engine_init dir n fs_empty) = Inr e"
    using md by (simp add: engine_load_def e_def engine_init_def wf v_def)
  moreover have "wal_empty (wal_path (e_wal e)) (e_fs e)" using rd by (simp add: wal_empty_def f open_fs(2))
  ultimately have op: "engine_open zcrc dir n fs_empty = Inr e" by (simp add: engine_open_def recover_def)
  have layers: "engine_layers e = [[[]], [[]], [], [], [], []]"
    by (simp add: engine_layers_def f table_layers_def vl mt_snapshot_def mt_new_def mem_run_def)
  have view: "engine_view e k = None" for k by (simp add: engine_view_def layers)
  have "tv_wf (sst_dir dir) v" using assms by (intro tv_wf_empty) (simp_all add: vl, simp add: v_def tv_new_def)
  then have "version_ok hasher fs (sst_dir dir) v"
    by (auto simp: version_ok_def vl levels_tagged_def less_Suc_eq disjoint_level_def)
  moreover have "tv_ids v = {}" by (simp add: tv_ids_def vl)
  moreover have "layers_ok (engine_layers e)" unfolding layers by (rule layers_ok_empty) auto
  moreover have "versions_ok e" by (simp add: versions_ok_def all_runs_def layers)
  moreover have "cache_ok e" using view f(11) by (auto simp: cache_ok_def lru.coherent_def lru_contents_def lru_new_def lru_inv_def)
  moreover have "sst_name (sst_dir dir) j \<noteq> log_path dir" for j
    by (simp add: sst_name_def sst_dir_def log_path_def)
  ultimately have "engine_inv hasher e"
    using f fsi rd by (simp add: engine_inv_def)
  with op view f wf show ?thesis by (intro that [of e]) (auto simp: v_def)
qed

section \<open>Properties\<close>

text \<open>
  C5: what a read returns.  In every state that satisfies the invariant, a read succeeds
  and returns the version of the key with the highest sequence number over the memtable,
  the immutable memtable and all tables of all levels, and nothing when there is none or
  when it is a tombstone: neither the cache, nor the early exits over the levels, nor the
  binary search in a level changes the answer.  The read changes nothing but the cache, and
  the invariant is kept.
\<close>

theorem engine_get_newest:
  assumes "engine_inv hasher e"
  shows "\<exists>c. engine_get hasher key e = Inr (live (newest (concat (engine_layers e)) key), e\<lparr>e_cache := c\<rparr>)
     \<and> engine_inv hasher (e\<lparr>e_cache := c\<rparr>)"
  using engine_get_correct [OF assms, of key] unfolding engine_view_def by metis

theorem engine_get_newest_witness:
  "\<exists>e c. engine_open (\<lambda>c b. c) ''d'' 3 fs_empty = Inr e
     \<and> engine_get (\<lambda>s. 0) ''k'' e = Inr (None, e\<lparr>e_cache := c\<rparr>)"
proof -
  have d: "dir_ok (sst_dir ''d'')" by (rule dir_ok_no_dot) (simp add: sst_dir_def)
  obtain e where e: "engine_open (\<lambda>c b. c) ''d'' 3 fs_empty = Inr e" "engine_inv (\<lambda>s. 0) e" "engine_view e ''k'' = None"
    using engine_fresh [OF d, of "\<lambda>c b. c" 3 "\<lambda>s. 0"] by metis
  show ?thesis using engine_get_newest [OF e(2), of "''k''"] e(1,3) by (auto simp: engine_view_def)
qed

end
