(* ===== verification/Engine_Writes.thy ===== *)
theory Engine_Writes
  imports Engine_Reads
begin

text \<open>
  Writes, the hand-over of a full memtable and the flush thread.  Against the abstract
  specification, a map from keys to values, a batch of requests is the sequence of its
  updates, and neither the hand-over nor writing the immutable memtable out as a table of
  level 0 changes the map.  All of them keep the invariant of the reads.
\<close>

section \<open>Frames\<close>

text \<open>The part of the file system the tables live in.\<close>

definition same_tables :: "string \<Rightarrow> file_system \<Rightarrow> file_system \<Rightarrow> bool" where
  "same_tables dir fs fs' \<longleftrightarrow> (\<forall>i. fs_read (sst_name dir i) fs' = fs_read (sst_name dir i) fs)"

lemma run_of_cong: "tv_wf dir v \<Longrightarrow> same_tables dir fs fs' \<Longrightarrow> run_of fs' v m = run_of fs v m"
  by (auto simp: run_of_def same_tables_def find_path intro!: sst_data_cong split: option.split)

lemma table_layers_cong: "tv_wf dir v \<Longrightarrow> same_tables dir fs fs' \<Longrightarrow> table_layers fs' v = table_layers fs v"
  by (simp add: table_layers_def run_of_cong)

lemma meta_ok_cong: "tv_wf dir v \<Longrightarrow> same_tables dir fs fs' \<Longrightarrow> meta_ok hasher fs' v m = meta_ok hasher fs v m"
  unfolding meta_ok_def same_tables_def using find_path sst_ok_cong by metis

lemma version_ok_cong:
  "version_ok hasher fs dir v \<Longrightarrow> same_tables dir fs fs' \<Longrightarrow> version_ok hasher fs' dir v"
  by (auto simp: version_ok_def meta_ok_cong [of dir v fs fs'])

definition engine_version :: "engine \<Rightarrow> table_version" where
  "engine_version e = (case current_version (e_vm e) of Some v \<Rightarrow> v | None \<Rightarrow> tv_new)"

abbreviation engine_dir :: "engine \<Rightarrow> string" where
  "engine_dir e \<equiv> sst_dir (e_data_dir e)"

lemma engine_inv_version:
  assumes "engine_inv hasher e"
  shows "current_version (e_vm e) = Some (engine_version e)"
    "version_ok hasher (e_fs e) (engine_dir e) (engine_version e)"
    "\<forall>i\<in>tv_ids (engine_version e). i \<le> e_flush_counter e"
    "engine_layers e = [mt_snapshot (e_mem e)] # [mem_run (e_imm e)] # table_layers (e_fs e) (engine_version e)"
    "tv_wf (engine_dir e) (engine_version e)"
  using assms by (auto simp: engine_inv_def engine_version_def engine_layers_def version_ok_def)

lemma engine_layers_fs:
  assumes "engine_inv hasher e" "same_tables (engine_dir e) (e_fs e) fs"
    and "e_mem e' = e_mem e" "e_imm e' = e_imm e" "e_vm e' = e_vm e" "e_fs e' = fs"
  shows "engine_layers e' = engine_layers e"
  using assms table_layers_cong [OF engine_inv_version(5) [OF assms(1)] assms(2)] engine_inv_version(1) [OF assms(1)]
  by (simp add: engine_layers_def)

text \<open>Changing nothing but bookkeeping, and the file system outside the tables, keeps the invariant.\<close>

lemma engine_inv_frame:
  assumes "engine_inv hasher e" "same_tables (engine_dir e) (e_fs e) (e_fs e')" "fs_inv (e_fs e')"
    and "e_mem e' = e_mem e" "e_imm e' = e_imm e" "e_vm e' = e_vm e" "e_data_dir e' = e_data_dir e"
    and "e_flush_counter e' = e_flush_counter e" "e_seq e' = e_seq e" "e_cache e' = e_cache e"
  shows "engine_inv hasher e' \<and> engine_layers e' = engine_layers e"
proof -
  have layers: "engine_layers e' = engine_layers e"
    using engine_layers_fs [OF assms(1,2)] assms(4-6) by simp
  then have "versions_ok e' = versions_ok e" "cache_ok e' = cache_ok e"
    using assms(9,10) by (simp_all add: versions_ok_def all_runs_def cache_ok_def engine_view_def)
  moreover have "version_ok hasher (e_fs e') (engine_dir e) (engine_version e)"
    using version_ok_cong [OF engine_inv_version(2) [OF assms(1)] assms(2)] .
  ultimately show ?thesis
    using assms engine_inv_version(1,3) [OF assms(1)] layers unfolding engine_inv_def same_tables_def by simp
qed

lemma sst_name_not_log: "sst_name (sst_dir dir) i \<noteq> log_path dir"
  by (simp add: sst_name_def sst_dir_def log_path_def)

lemma sst_name_not_meta: "sst_name (sst_dir dir) i \<noteq> dir @ ''/metadata.txt''" "sst_name (sst_dir dir) i \<noteq> dir @ ''/levels.txt''"
  by (simp_all add: sst_name_def sst_dir_def)

section \<open>The log file\<close>

text \<open>The descriptor of the log is an inode that no other file has.\<close>

definition wal_ok :: "engine \<Rightarrow> bool" where
  "wal_ok e \<longleftrightarrow> wal_inv (e_wal e) \<and> wal_path (e_wal e) = log_path (e_data_dir e)
     \<and> (\<exists>fd. wal_fd (e_wal e) = Some fd \<and> fd < fs_next (e_fs e)
          \<and> (\<forall>p. fs_names (e_fs e) p = Some fd \<longrightarrow> p = log_path (e_data_dir e)))"

lemma fs_append_other: "fs_names fs q \<noteq> Some fd \<Longrightarrow> fs_read q (fs_append_fd fd bs fs) = fs_read q fs"
  by (auto simp: fs_read_def fs_append_fd_def map_option_case split: option.splits)

lemma engine_wal_flush_frame [simp]:
  "e_mem (engine_wal_flush e) = e_mem e" "e_imm (engine_wal_flush e) = e_imm e" "e_seq (engine_wal_flush e) = e_seq e"
  "e_data_dir (engine_wal_flush e) = e_data_dir e" "e_shutdown (engine_wal_flush e) = e_shutdown e"
  "e_vm (engine_wal_flush e) = e_vm e" "e_flush_counter (engine_wal_flush e) = e_flush_counter e"
  by (simp_all add: engine_wal_flush_def split: prod.splits)

lemma engine_wal_flush_eq:
  assumes "wal_ok e"
  obtains fd where "wal_fd (e_wal e) = Some fd"
    "engine_wal_flush e = e\<lparr>e_wal := e_wal (engine_wal_flush e),
       e_fs := (if write_buffer (e_wal e) = [] then e_fs e else fs_append_fd fd (write_buffer (e_wal e)) (e_fs e))\<rparr>"
    "wal_inv (e_wal (engine_wal_flush e))" "wal_fd (e_wal (engine_wal_flush e)) = Some fd"
    "wal_path (e_wal (engine_wal_flush e)) = wal_path (e_wal e)" "write_buffer (e_wal (engine_wal_flush e)) = []"
proof -
  obtain fd where fd: "wal_fd (e_wal e) = Some fd" using assms by (auto simp: wal_ok_def)
  define w where "w = (flush_request (e_wal e))\<lparr>sync_requested := False\<rparr>"
  have w: "wal_inv w" "wal_fd w = Some fd" "write_buffer w = write_buffer (e_wal e)" "wal_path w = wal_path (e_wal e)"
    using assms fd by (simp_all add: w_def flush_request_def wal_ok_def wal_inv_def)
  have "wal_flush (e_wal e, e_fs e) = doSync full_write (w, e_fs e)"
    by (simp add: wal_flush_def syncThreadTurn_def w_def)
  then show ?thesis
    using fd w by (intro that [of fd]) (simp_all add: engine_wal_flush_def doSync_full [OF w(1,2)] wal_inv_def)
qed

lemma engine_wal_flush_inv:
  assumes "engine_inv hasher e" "wal_ok e"
  shows "engine_inv hasher (engine_wal_flush e) \<and> wal_ok (engine_wal_flush e)
     \<and> engine_layers (engine_wal_flush e) = engine_layers e"
proof -
  obtain fd where fd: "wal_fd (e_wal e) = Some fd"
    "engine_wal_flush e = e\<lparr>e_wal := e_wal (engine_wal_flush e),
       e_fs := (if write_buffer (e_wal e) = [] then e_fs e else fs_append_fd fd (write_buffer (e_wal e)) (e_fs e))\<rparr>"
    "wal_inv (e_wal (engine_wal_flush e))" "wal_fd (e_wal (engine_wal_flush e)) = Some fd"
    "wal_path (e_wal (engine_wal_flush e)) = wal_path (e_wal e)"
    using engine_wal_flush_eq [OF assms(2)] .
  have own: "fs_names (e_fs e) p = Some fd \<Longrightarrow> p = log_path (e_data_dir e)" "fd < fs_next (e_fs e)" for p
    using assms(2) fd(1) by (auto simp: wal_ok_def)
  have fsi: "fs_inv (e_fs e)" using assms(1) by (simp add: engine_inv_def)
  have "fs_names (e_fs e) (sst_name (engine_dir e) i) \<noteq> Some fd" for i
    using own(1) sst_name_not_log by blast
  then have same: "same_tables (engine_dir e) (e_fs e) (e_fs (engine_wal_flush e))"
    unfolding same_tables_def by (subst fd(2)) (simp add: fs_append_other)
  have fsi': "fs_inv (e_fs (engine_wal_flush e))" by (subst fd(2)) (use fsi in simp)
  have "engine_inv hasher (engine_wal_flush e) \<and> engine_layers (engine_wal_flush e) = engine_layers e"
    by (rule engine_inv_frame [OF assms(1) same fsi']) (subst fd(2), simp)+
  moreover have "e_data_dir (engine_wal_flush e) = e_data_dir e" by (subst fd(2)) simp
  moreover have "fs_names (e_fs (engine_wal_flush e)) = fs_names (e_fs e)" "fs_next (e_fs (engine_wal_flush e)) = fs_next (e_fs e)"
    by (subst fd(2), simp add: fs_append_fd_def)+
  ultimately show ?thesis using fd(3-5) own assms(2) by (auto simp: wal_ok_def)
qed

section \<open>One write\<close>

definition request_ok :: "write_request \<Rightarrow> bool" where
  "request_ok r \<longleftrightarrow> (wr_op r = Op_PUT \<or> wr_op r = Op_DELETE) \<and> length (wr_key r) < 2 ^ 32 \<and> length (wr_value r) < 2 ^ 32"

definition request_entry :: "write_request \<Rightarrow> uint64 \<Rightarrow> entry" where
  "request_entry r n =
     (if wr_op r = Op_PUT then \<lparr>ent_value = wr_value r, ent_seq = n, ent_type = Et_PUT\<rparr>
      else \<lparr>ent_value = [], ent_seq = n, ent_type = Et_DELETE\<rparr>)"

lemma request_entry_simps [simp]: "ent_seq (request_entry r n) = n"
  "request_ok r \<Longrightarrow> entry_fits (wr_key r, request_entry r n)"
  by (auto simp: request_entry_def request_ok_def entry_fits_def entry_ok_def)

lemma write_one_eq:
  assumes "request_ok r"
  shows "write_one zcrc r e =
     (True, invalidate_cache (wr_key r)
        (e\<lparr>e_mem := \<lparr>mt_map = smap_put (wr_key r) (request_entry r (e_seq e)) (mt_map (e_mem e))\<rparr>,
           e_wal := wal_append zcrc (wr_op r) (wr_key r) (ent_value (request_entry r (e_seq e))) (e_seq e) (e_wal e),
           e_seq := e_seq e + 1\<rparr>))"
  using assms by (cases "e_mem e") (auto simp: write_one_def request_ok_def request_entry_def mt_put_def mt_del_def Let_def)

text \<open>Putting the newest version of a key into the youngest layer.\<close>

lemma layers_put:
  assumes "layers_ok ([m] # Ls)" "\<forall>r\<in>set (concat ([m] # Ls)). \<forall>x\<in>set r. ent_seq (snd x) < ent_seq en"
  shows "layers_ok ([smap_put k en m] # Ls)"
    "newest (concat ([smap_put k en m] # Ls)) j = (if j = k then Some en else newest (concat ([m] # Ls)) j)"
proof -
  have below: "ent_seq x < ent_seq en" if "r \<in> set (concat ([m] # Ls))" "map_of r i = Some x" for r i x
    using assms(2) that map_of_SomeD by fastforce
  have agree: "runs_agree ([m] @ concat Ls)" and srt: "sorted_wrt older_than ([m] # Ls)"
    using assms(1) by (simp_all add: layers_ok_def)
  have "older_than [smap_put k en m] B" if B: "B \<in> set Ls" for B
  proof -
    have "older_than [m] B" using srt B by simp
    moreover have "ent_seq b \<le> ent_seq en" if "r \<in> set B" "map_of r i = Some b" for r i b
      using below [OF _ that(2)] that(1) B by (auto intro: less_imp_le)
    ultimately show ?thesis by (auto simp: older_than_def)
  qed
  moreover have "runs_agree (smap_put k en m # concat Ls)"
    using agree below unfolding runs_agree_def by (auto split: if_splits) (metis less_irrefl)+
  ultimately show ok: "layers_ok ([smap_put k en m] # Ls)" using srt by (simp add: layers_ok_def)
  show "newest (concat ([smap_put k en m] # Ls)) j = (if j = k then Some en else newest (concat ([m] # Ls)) j)"
  proof (cases "j = k")
    case True
    have "newest (smap_put k en m # concat Ls) k = Some en"
    proof (rule newest_eqI [of _ "smap_put k en m"])
      show "runs_agree (smap_put k en m # concat Ls)" using ok by (simp add: layers_ok_def)
      show "ent_seq e' \<le> ent_seq en" if "r' \<in> set (smap_put k en m # concat Ls)" "map_of r' k = Some e'" for r' e'
        using that below [of r' k e'] by (auto intro: less_imp_le)
    qed simp_all
    with True show ?thesis by simp
  next
    case False
    then show ?thesis by simp
  qed
qed

lemma unat_seq_Suc: "unat (n :: uint64) + 1 < 2 ^ 64 \<Longrightarrow> unat (n + 1) = unat n + 1"
  by (simp add: unat_word_ariths)

lemma seq_less_Suc: "unat n + 1 < 2 ^ 64 \<Longrightarrow> x \<le> n \<Longrightarrow> x < (n + 1 :: uint64)"
  using unat_seq_Suc [of n] by (simp add: word_less_nat_alt word_le_nat_alt)

lemma write_one_correct:
  assumes "engine_inv hasher e" "wal_ok e" "request_ok r" "unat (e_seq e) + 1 < 2 ^ 64"
    and e'_def: "e' = snd (write_one zcrc r e)"
  shows "engine_inv hasher e'" "wal_ok e'"
    "engine_view e' = (engine_view e)(wr_key r \<mapsto> request_entry r (e_seq e))"
    "e_seq e' = e_seq e + 1" "e_fs e' = e_fs e" "e_shutdown e' = e_shutdown e" "e_imm e' = e_imm e"
    "e_data_dir e' = e_data_dir e"
proof -
  let ?k = "wr_key r" and ?en = "request_entry r (e_seq e)"
  define mem where "mem = \<lparr>mt_map = smap_put ?k ?en (mt_map (e_mem e))\<rparr>"
  have e': "e' = invalidate_cache ?k (e\<lparr>e_mem := mem,
      e_wal := wal_append zcrc (wr_op r) ?k (ent_value ?en) (e_seq e) (e_wal e), e_seq := e_seq e + 1\<rparr>)"
    by (simp add: e'_def write_one_eq [OF assms(3)] mem_def)
  have f: "e_mem e' = mem" "e_imm e' = e_imm e" "e_vm e' = e_vm e" "e_flush_counter e' = e_flush_counter e"
    "e_cache e' = map_option (lru_invalidate ?k) (e_cache e)"
    "e_wal e' = wal_append zcrc (wr_op r) ?k (ent_value ?en) (e_seq e) (e_wal e)"
    by (simp_all add: e' invalidate_cache_def)
  show s: "e_seq e' = e_seq e + 1" and fs: "e_fs e' = e_fs e" and "e_shutdown e' = e_shutdown e"
    and "e_imm e' = e_imm e" and dd: "e_data_dir e' = e_data_dir e"
    by (simp_all add: e' invalidate_cache_def)
  show "wal_ok e'" using assms(2) by (auto simp: wal_ok_def f(6) fs dd append_write_buffer)
  note ver = engine_inv_version [OF assms(1)]
  have layers': "engine_layers e' = [smap_put ?k ?en (mt_snapshot (e_mem e))] # [mem_run (e_imm e)] # table_layers (e_fs e) (engine_version e)"
    using ver(1) by (simp add: engine_layers_def f fs mem_def mt_snapshot_def)
  have vok: "versions_ok e" and lok: "layers_ok (engine_layers e)" using assms(1) by (simp_all add: engine_inv_def)
  have below: "\<forall>r\<in>set (concat (engine_layers e)). \<forall>x\<in>set r. ent_seq (snd x) < ent_seq ?en"
    using vok by (simp add: versions_ok_def all_runs_def)
  note put = layers_put [OF lok [unfolded ver(4)] below [unfolded ver(4)], of ?k, folded layers' ver(4)]
  show view: "engine_view e' = (engine_view e)(?k \<mapsto> ?en)"
    using put(2) by (auto simp: engine_view_def fun_eq_iff)
  have "entry_fits x \<and> ent_seq (snd x) < e_seq e'" if "q \<in> set (all_runs e')" "x \<in> set q" for q x
  proof -
    have "x = (?k, ?en) \<or> (\<exists>q\<in>set (all_runs e). x \<in> set q)"
      using that by (auto simp: all_runs_def layers' ver(4) dest!: set_smap_put)
    then show ?thesis
      using vok seq_less_Suc [OF assms(4)] assms(3) unfolding versions_ok_def s by (auto intro: less_imp_le)
  qed
  then have vok': "versions_ok e'" by (simp add: versions_ok_def)
  have cok: "cache_ok e'"
    using assms(1) lru.coherent_invalidate [of _ "\<lambda>k. live (engine_view e k)" ?k "\<lambda>k. live (engine_view e' k)"]
    by (auto simp: engine_inv_def cache_ok_def f(5) view lru_invalidate_inv)
  have "mt_inv mem"
    using assms(1,3) request_entry_simps(2) [OF assms(3), of "e_seq e"]
    by (auto simp: engine_inv_def mt_inv_def mem_def entry_fits_def dest!: set_smap_put)
  then show "engine_inv hasher e'"
    using assms(1) put(1) vok' cok by (simp add: engine_inv_def f fs dd)
qed

section \<open>Batches against the abstract map\<close>

text \<open>The abstract state: a map from keys to values.\<close>

definition engine_map :: "engine \<Rightarrow> string \<Rightarrow> string option" where
  "engine_map e k = map_option ent_value (live (engine_view e k))"

definition apply_request :: "write_request \<Rightarrow> (string \<Rightarrow> string option) \<Rightarrow> string \<Rightarrow> string option" where
  "apply_request r m = m(wr_key r := (if wr_op r = Op_PUT then Some (wr_value r) else None))"

lemma write_one_map:
  assumes "engine_inv hasher e" "wal_ok e" "request_ok r" "unat (e_seq e) + 1 < 2 ^ 64"
  shows "engine_map (snd (write_one zcrc r e)) = apply_request r (engine_map e)"
  using write_one_correct(3) [OF assms refl]
  by (auto simp: fun_eq_iff engine_map_def apply_request_def request_entry_def)

lemma write_batch_correct:
  assumes "engine_inv hasher e" "wal_ok e" "\<forall>r\<in>set rs. request_ok r" "unat (e_seq e) + length rs < 2 ^ 64"
    and "write_batch zcrc rs e = (results, e')"
  shows "engine_inv hasher e' \<and> wal_ok e' \<and> engine_map e' = fold apply_request rs (engine_map e)
     \<and> results = map (\<lambda>r. (wr_completion r, True)) rs \<and> unat (e_seq e') = unat (e_seq e) + length rs
     \<and> e_shutdown e' = e_shutdown e \<and> e_imm e' = e_imm e \<and> e_data_dir e' = e_data_dir e"
  using assms
proof (induction rs arbitrary: e results)
  case (Cons r rs)
  obtain e1 where e1: "write_one zcrc r e = (True, e1)"
    using write_one_eq [of r zcrc e] Cons.prems(3) by simp
  obtain results2 where w2: "write_batch zcrc rs e1 = (results2, e')" "results = (wr_completion r, True) # results2"
    using Cons.prems(5) e1 by (auto split: prod.splits)
  have pre: "request_ok r" "unat (e_seq e) + 1 < 2 ^ 64" "e1 = snd (write_one zcrc r e)"
    using Cons.prems(3,4) e1 by auto
  note one = write_one_correct [OF Cons.prems(1,2) pre]
  have seq1: "unat (e_seq e1) = unat (e_seq e) + 1" unfolding one(4) using pre(2) by (rule unat_seq_Suc)
  have "engine_map e1 = apply_request r (engine_map e)"
    using write_one_map [OF Cons.prems(1,2) pre(1,2)] pre(3) by simp
  then show ?case
    using Cons.IH [OF one(1,2) _ _ w2(1)] Cons.prems(3,4) seq1 w2(2) one(6-8) by simp
qed simp

section \<open>Handing the memtable over\<close>

lemma layers_hand_over:
  assumes "layers_ok ([m] # [[]] # Ls)"
  shows "layers_ok ([[]] # [m] # Ls)" "newest (concat ([[]] # [m] # Ls)) k = newest (concat ([m] # [[]] # Ls)) k"
  using assms by (auto simp: layers_ok_def older_than_def runs_agree_def)

text \<open>All versions that an engine holds, in memory and in tables.\<close>

definition stored :: "engine \<Rightarrow> (string \<times> entry) multiset" where
  "stored e = mset (concat (all_runs e))"

lemma stored_layers: "engine_layers e' = engine_layers e \<Longrightarrow> stored e' = stored e"
  by (simp add: stored_def all_runs_def)

text \<open>The hand-over itself: the memtable becomes the immutable one and the log loses its name.\<close>

lemma hand_over_correct:
  assumes "engine_inv hasher e" "wal_ok e" "e_imm e = None"
  defines "e' \<equiv> e\<lparr>e_imm := Some (mt_copy_into (mt_snapshot (e_mem e)) mt_new), e_mem := mt_clear (e_mem e),
      e_flush_pending := True, e_fs := fs_remove (log_path (e_data_dir e)) (e_fs e)\<rparr>"
  shows "engine_inv hasher e'" "wal_ok e'" "engine_view e' = engine_view e" "stored e' = stored e"
proof -
  have "mt_copy_into (mt_snapshot (e_mem e)) mt_new = e_mem e"
    using assms(1) by (intro mt_copy_snapshot) (simp add: engine_inv_def)
  then have e': "e' = e\<lparr>e_imm := Some (e_mem e), e_mem := mt_clear (e_mem e), e_flush_pending := True,
      e_fs := fs_remove (log_path (e_data_dir e)) (e_fs e)\<rparr>"
    by (simp add: e'_def)
  note ver = engine_inv_version [OF assms(1)]
  have same: "same_tables (engine_dir e) (e_fs e) (e_fs e')"
    using sst_name_not_log by (simp add: same_tables_def e' fs_read_remove_other [OF not_sym])
  have layers: "engine_layers e = [mt_snapshot (e_mem e)] # [[]] # table_layers (e_fs e) (engine_version e)"
    unfolding ver(4) by (simp add: assms(3) mem_run_def)
  have layers': "engine_layers e' = [[]] # [mt_snapshot (e_mem e)] # table_layers (e_fs e) (engine_version e)"
    using table_layers_cong [OF ver(5) same] ver(1)
    by (simp add: engine_layers_def e' mem_run_def mt_snapshot_def mt_clear_def)
  have lok: "layers_ok (engine_layers e)" using assms(1) by (simp add: engine_inv_def)
  note ho = layers_hand_over [OF lok [unfolded layers], folded layers' layers]
  show view: "engine_view e' = engine_view e" using ho(2) by (simp add: engine_view_def fun_eq_iff)
  show "stored e' = stored e" by (simp add: stored_def all_runs_def layers layers')
  have "set (all_runs e') = set (all_runs e)" by (auto simp: all_runs_def layers layers')
  then have "versions_ok e'" using assms(1) by (simp add: engine_inv_def versions_ok_def e')
  moreover have "cache_ok e'" using assms(1) view by (simp add: engine_inv_def cache_ok_def e')
  moreover have "version_ok hasher (e_fs e') (engine_dir e) (engine_version e)"
    by (rule version_ok_cong [OF ver(2) same])
  ultimately show "engine_inv hasher e'"
    using assms(1) ho(1) ver(1,3) same by (simp add: engine_inv_def e' same_tables_def)
  show "wal_ok e'" using assms(2) by (auto simp: wal_ok_def e' fs_remove_def)
qed

lemma checkFlush_correct:
  assumes "engine_inv hasher e" "wal_ok e" "checkFlush debug e = Some e'"
  shows "engine_inv hasher e' \<and> wal_ok e' \<and> engine_view e' = engine_view e
     \<and> e_seq e' = e_seq e \<and> e_data_dir e' = e_data_dir e \<and> e_shutdown e' = e_shutdown e
     \<and> stored e' = stored e"
proof (cases "mt_getSize (e_mem e) \<ge> kMemTableThreshold \<or> debug")
  case True
  define e1 where "e1 = engine_wal_flush e"
  have e1: "engine_inv hasher e1" "wal_ok e1" "engine_layers e1 = engine_layers e"
    using engine_wal_flush_inv [OF assms(1,2)] by (simp_all add: e1_def)
  have view: "engine_view e1 = engine_view e" "stored e1 = stored e"
    using e1(3) stored_layers [OF e1(3)] by (simp_all add: engine_view_def fun_eq_iff)
  have f1: "e_seq e1 = e_seq e" "e_data_dir e1 = e_data_dir e" "e_shutdown e1 = e_shutdown e"
    by (simp_all add: e1_def)
  show ?thesis
  proof (cases "e_shutdown e1")
    case down: True
    with True assms(3) have "e' = e1" by (simp add: checkFlush_def e1_def [symmetric] Let_def)
    with e1 f1 view show ?thesis by simp
  next
    case up: False
    then have imm: "e_imm e1 = None"
      using True assms(3) by (auto simp: checkFlush_def e1_def [symmetric] Let_def split: if_splits)
    then have "e' = e1\<lparr>e_imm := Some (mt_copy_into (mt_snapshot (e_mem e1)) mt_new), e_mem := mt_clear (e_mem e1),
        e_flush_pending := True, e_fs := fs_remove (log_path (e_data_dir e1)) (e_fs e1)\<rparr>"
      using True up assms(3) by (simp add: checkFlush_def e1_def [symmetric] Let_def)
    with hand_over_correct [OF e1(1,2) imm] f1 view show ?thesis by simp
  qed
qed (use assms in \<open>simp add: checkFlush_def\<close>)

section \<open>The flush thread\<close>

lemma run_of_find_cong:
  assumes "tv_wf dir v" "findSSTableById v' (meta_id m) = findSSTableById v (meta_id m)"
    and "fs_read (sst_name dir (meta_id m)) fs' = fs_read (sst_name dir (meta_id m)) fs"
  shows "run_of fs' v' m = run_of fs v m" "meta_ok hasher fs' v' m = meta_ok hasher fs v m"
proof -
  have p: "fs_read (sst_path t) fs' = fs_read (sst_path t) fs" if "findSSTableById v (meta_id m) = Some t" for t
    using find_path [OF assms(1) that] assms(3) by simp
  show "run_of fs' v' m = run_of fs v m"
    unfolding run_of_def assms(2) using sst_data_cong [OF p] by (cases "findSSTableById v (meta_id m)") auto
  show "meta_ok hasher fs' v' m = meta_ok hasher fs v m"
    unfolding meta_ok_def assms(2) using sst_ok_cong [OF p] by blast
qed

lemma run_of_new:
  assumes "findSSTableById v (meta_id m) = Some t" "sst_holds hasher fs t es" "m = new_meta i l es s z"
  shows "run_of fs v m = es" "meta_ok hasher fs v m"
  using assms sst_holds_range [OF assms(2)]
  by (auto simp: run_of_def sst_holds_data meta_ok_def sst_holds_ok new_meta_def)

definition small_run :: "(string \<times> entry) list \<Rightarrow> bool" where
  "small_run es \<longleftrightarrow> length (data_bytes es) < 2 ^ 64 \<and> 14 * length es < 2 ^ 32"

lemma layers_flush:
  assumes "layers_ok (M # [s] # Ls)"
  defines "Ls' \<equiv> (case Ls of [] \<Rightarrow> [[s]] | A # R \<Rightarrow> (A @ [s]) # R)"
  shows "layers_ok (M # [[]] # Ls')" "newest (concat (M # [[]] # Ls')) k = newest (concat (M # [s] # Ls)) k"
    "set (concat (M # [[]] # Ls')) = insert [] (set (concat (M # [s] # Ls)))"
proof -
  define A R where "A = (case Ls of [] \<Rightarrow> [] | A # R \<Rightarrow> A)" and "R = (case Ls of [] \<Rightarrow> [] | A # R \<Rightarrow> R)"
  have Ls': "Ls' = (A @ [s]) # R" by (simp add: Ls'_def A_def R_def split: list.splits)
  have cA: "concat Ls = A @ concat R" by (simp add: A_def R_def split: list.splits)
  have srt: "sorted_wrt older_than (M # [s] # A # R)"
    using assms(1) by (auto simp: layers_ok_def A_def R_def older_than_def split: list.splits)
  have agree: "runs_agree (M @ s # A @ concat R)" using assms(1) cA by (simp add: layers_ok_def)
  show sets: "set (concat (M # [[]] # Ls')) = insert [] (set (concat (M # [s] # Ls)))" by (auto simp: Ls' cA)
  have "runs_agree (concat (M # [[]] # Ls'))"
    using agree unfolding runs_agree_def sets by (simp add: cA)
  moreover have "sorted_wrt older_than (M # [[]] # Ls')"
    using srt unfolding Ls' by (auto simp: older_than_def)
  ultimately show "layers_ok (M # [[]] # Ls')" by (simp add: layers_ok_def)
  have "newest (M @ A @ [s] @ concat R) k = newest (M @ s # A @ concat R) k"
    by (rule newest_set [OF agree]) auto
  then show "newest (concat (M # [[]] # Ls')) k = newest (concat (M # [s] # Ls)) k"
    by (simp add: Ls' cA newest_append)
qed

lemma flush_version:
  assumes "version_ok hasher fs dir v" "sst_holds hasher fs' t es" "sst_path t = sst_name dir i"
    and "\<And>p. p \<noteq> sst_name dir i \<Longrightarrow> fs_read p fs' = fs_read p fs" "i \<notin> tv_ids v"
  obtains v' where "addSSTable t (new_meta i 0 es s z) v = Inr v'" "version_ok hasher fs' dir v'"
    "tv_ids v' = insert i (tv_ids v)" "findSSTableById v' = (findSSTableById v)(i \<mapsto> t)"
    "set (concat (tv_levels v')) = insert (new_meta i 0 es s z) (set (concat (tv_levels v)))"
    "table_layers fs' v' = (case table_layers fs v of [] \<Rightarrow> [[es]] | A # R \<Rightarrow> (A @ [es]) # R)"
proof -
  let ?m = "new_meta i 0 es s z"
  have wf: "tv_wf dir v" using assms(1) by (simp add: version_ok_def)
  have id: "meta_id ?m = i" "meta_level ?m = 0" by (simp_all add: new_meta_def)
  have "fits_level dir t ?m" using assms(3) by (simp add: fits_level_def id)
  then obtain v' where v': "addSSTable t ?m v = Inr v'" "tv_wf dir v'" "tv_ids v' = insert i (tv_ids v)"
    "findSSTableById v' = (findSSTableById v)(i \<mapsto> t)"
    using tables.add_new [OF wf, of t ?m] assms(5) unfolding id by blast
  have lv: "tv_levels v' = (let ls = resize (max (length (tv_levels v)) (Suc 0)) (tv_levels v) in ls[0 := ls ! 0 @ [?m]])"
    using addSSTable_levels [of ?m t v] v'(1) unfolding id by auto
  then have lv': "tv_levels v' = (case tv_levels v of [] \<Rightarrow> [[?m]] | A # R \<Rightarrow> (A @ [?m]) # R)"
    by (simp add: resize_def split: list.splits)
  have name_neq: "sst_name dir j \<noteq> sst_name dir i" if "j \<noteq> i" for j
    using that to_string_inj by (auto simp: sst_name_def word_unat_eq_iff dest: to_string_inj)
  have old: "run_of fs' v' m = run_of fs v m" "meta_ok hasher fs' v' m = meta_ok hasher fs v m"
    if "m \<in> set (concat (tv_levels v))" for m
  proof -
    have "meta_id m \<noteq> i" using assms(5) that by (auto simp: tv_ids_def)
    with v'(4) name_neq assms(4)
    show "run_of fs' v' m = run_of fs v m" "meta_ok hasher fs' v' m = meta_ok hasher fs v m"
      by (intro run_of_find_cong [OF wf]; simp)+
  qed
  have "findSSTableById v' (meta_id ?m) = Some t" using v'(4) id by simp
  note new = run_of_new [OF this assms(2) refl]
  have "table_layers fs' v' = (case table_layers fs v of [] \<Rightarrow> [[es]] | A # R \<Rightarrow> (A @ [es]) # R)"
  proof -
    have "map (map (run_of fs' v')) (tv_levels v) = map (map (run_of fs v)) (tv_levels v)" using old(1) by auto
    then show ?thesis using new(1) by (auto simp: table_layers_def lv' split: list.splits)
  qed
  moreover have lset: "set (concat (tv_levels v')) = insert ?m (set (concat (tv_levels v)))"
    by (auto simp: lv' split: list.splits)
  moreover have "version_ok hasher fs' dir v'"
  proof -
    have "meta_ok hasher fs v m" if "m \<in> set (concat (tv_levels v))" for m
      using assms(1) that by (auto simp: version_ok_def)
    then have "\<forall>m\<in>set (concat (tv_levels v')). meta_ok hasher fs' v' m"
      unfolding lset using old(2) new(2) by (metis insertE)
    moreover have "levels_tagged (tv_levels v')"
      using assms(1) id by (auto simp: version_ok_def lv' levels_tagged_def nth_Cons split: list.splits nat.splits)
    moreover have "l = 0 \<or> disjoint_level (tv_levels v' ! l)" if "l < length (tv_levels v')" for l
      using assms(1) that by (auto simp: version_ok_def lv' nth_Cons split: list.splits nat.splits)
    ultimately show ?thesis using v'(2) by (auto simp: version_ok_def)
  qed
  ultimately show ?thesis using that v'(1,3,4) by blast
qed

lemma sst_name_eq: "sst_name dir i = sst_name dir j \<longleftrightarrow> i = j"
  using to_string_inj by (auto simp: sst_name_def word_unat_eq_iff)

lemma counter_fresh:
  assumes "unat (fc :: uint64) + 1 < 2 ^ 64" "i \<le> fc"
  shows "i \<noteq> fc + 1" "i < fc + 1"
  using seq_less_Suc [OF assms] by auto

text \<open>Creating and overwriting other files leaves the descriptor of the log alone.\<close>

lemma wal_ok_write:
  assumes "wal_ok e" "fs_inv (e_fs e)" "p \<noteq> log_path (e_data_dir e)"
  shows "wal_ok (e\<lparr>e_fs := fs_write_file p bs (e_fs e)\<rparr>)"
proof -
  obtain fd where fd: "wal_fd (e_wal e) = Some fd" "fd < fs_next (e_fs e)"
    "\<And>q. fs_names (e_fs e) q = Some fd \<Longrightarrow> q = log_path (e_data_dir e)"
    using assms(1) by (auto simp: wal_ok_def)
  have "fs_names (fs_write_file p bs (e_fs e)) q = Some fd \<Longrightarrow> q = log_path (e_data_dir e)" for q
    using fd(2,3) assms(3) by (auto simp: fs_write_file_def fs_open_create_def split: option.splits if_splits)
  moreover have "fs_next (e_fs e) \<le> fs_next (fs_write_file p bs (e_fs e))"
    by (auto simp: fs_write_file_def fs_open_create_def split: option.splits)
  ultimately show ?thesis using assms(1) fd(1,2) by (auto simp: wal_ok_def)
qed

lemma wal_ok_cong:
  "wal_ok e \<Longrightarrow> e_wal e' = e_wal e \<Longrightarrow> e_data_dir e' = e_data_dir e \<Longrightarrow> e_fs e' = e_fs e \<Longrightarrow> wal_ok e'"
  by (simp add: wal_ok_def)

lemma sst_flush_file:
  assumes "sst_flush hasher es dir i fs = Inr (t, fs')"
  obtains bs where "fs' = fs_write_file (sst_name dir i) bs fs"
  using assms that by (auto simp: sst_flush_def sum_bind_Inr_conv Let_def split: if_splits prod.splits)

lemma cache_ok_cleared:
  assumes "\<And>c. e_cache e = Some c \<Longrightarrow> lru_inv c" "e_cache e' = map_option lru_clear (e_cache e)"
  shows "cache_ok e'"
  using assms lru.coherent_clear lru_clear_inv by (auto simp: cache_ok_def)

lemma imm_snapshot_ok:
  assumes "engine_inv hasher e" "e_imm e = Some t" "small_run (mt_snapshot t)" "mt_snapshot t \<noteq> []"
  shows "snapshot_ok (mt_snapshot t)"
proof -
  have "mt_snapshot t \<in> set (all_runs e)" by (simp add: all_runs_def engine_layers_def assms(2) mem_run_def)
  then have "\<forall>x\<in>set (mt_snapshot t). entry_fits x"
    using assms(1) by (auto simp: engine_inv_def versions_ok_def)
  moreover have "sorted_keys (mt_snapshot t)"
    using assms(1,2) mt.data_sorted by (simp add: engine_inv_def)
  ultimately show ?thesis using assms(3,4) by (simp add: snapshot_ok_def small_run_def)
qed

text \<open>The counters of a version do not matter for its tables.\<close>

lemma version_cong:
  assumes "tv_levels v' = tv_levels v" "tv_sstables v' = tv_sstables v"
  shows "version_ok hasher fs dir v' = version_ok hasher fs dir v" "tv_ids v' = tv_ids v"
    "table_layers fs v' = table_layers fs v" "findSSTableById v' = findSSTableById v" "tv_wf dir v' = tv_wf dir v"
proof -
  show find: "findSSTableById v' = findSSTableById v" by (simp add: findSSTableById_def fun_eq_iff assms)
  show ids: "tv_ids v' = tv_ids v" by (simp add: tv_ids_def assms)
  show wf: "tv_wf dir v' = tv_wf dir v" by (simp add: tv_wf_def ids assms)
  show "table_layers fs v' = table_layers fs v" by (simp add: table_layers_def run_of_def find assms)
  show "version_ok hasher fs dir v' = version_ok hasher fs dir v"
    by (simp add: version_ok_def wf meta_ok_def find assms)
qed

text \<open>The state that the flush thread leaves, with everything it wrote.\<close>

text \<open>The table that the flush thread writes.\<close>

lemma flush_writes_table:
  assumes "engine_inv hasher e" "e_imm e = Some t" "small_run (mt_snapshot t)" "mt_snapshot t \<noteq> []"
    and "unat (e_flush_counter e) + 1 < 2 ^ 64"
  obtains tab bs fs1 where "sst_flush hasher (mt_snapshot t) (engine_dir e) (e_flush_counter e + 1) (e_fs e) = Inr (tab, fs1)"
    "sst_path tab = sst_name (engine_dir e) (e_flush_counter e + 1)" "sst_holds hasher fs1 tab (mt_snapshot t)"
    "\<forall>p. p \<noteq> sst_name (engine_dir e) (e_flush_counter e + 1) \<longrightarrow> fs_read p fs1 = fs_read p (e_fs e)"
    "sst_open (sst_name (engine_dir e) (e_flush_counter e + 1)) fs1 = Inr tab"
    "fs1 = fs_write_file (sst_name (engine_dir e) (e_flush_counter e + 1)) bs (e_fs e)"
proof -
  let ?fc = "e_flush_counter e + 1" and ?es = "mt_snapshot t"
  have fsi: "fs_inv (e_fs e)" using assms(1) by (simp add: engine_inv_def)
  have "fs_read (sst_name (engine_dir e) ?fc) (e_fs e) = None"
    using assms(1) seq_less_Suc [OF assms(5), of "e_flush_counter e"] by (simp add: engine_inv_def)
  then obtain tab fs1 where fl: "sst_flush hasher ?es (engine_dir e) ?fc (e_fs e) = Inr (tab, fs1)"
    "sst_path tab = sst_name (engine_dir e) ?fc" "sst_holds hasher fs1 tab ?es"
    "\<And>p. fs_inv (e_fs e) \<Longrightarrow> p \<noteq> sst_name (engine_dir e) ?fc \<Longrightarrow> fs_read p fs1 = fs_read p (e_fs e)"
    "sst_open (sst_name (engine_dir e) ?fc) fs1 = Inr tab"
    using sst_flush_holds [OF _ imm_snapshot_ok [OF assms(1-4)]] by blast
  obtain bs where bs: "fs1 = fs_write_file (sst_name (engine_dir e) ?fc) bs (e_fs e)"
    using sst_flush_file [OF fl(1)] .
  show ?thesis by (rule that [OF fl(1-3) _ fl(5) bs]) (use fl(4) fsi in blast)
qed

lemma flush_turn_result:
  assumes "engine_inv hasher e" "e_imm e = Some t" "small_run (mt_snapshot t)" "mt_snapshot t \<noteq> []"
    and "unat (e_flush_counter e) + 1 < 2 ^ 64"
  obtains v' fs1 bs where "flush_turn hasher e = Inr ((clear_cache e)\<lparr>e_flush_pending := False,
       e_flush_counter := e_flush_counter e + 1, e_vm := installVersion v' (e_vm e),
       e_fs := saveMetadata (e_data_dir e) (e_flush_counter e + 1) (e_seq e) v' fs1,
       e_compaction_needed := True, e_imm := None\<rparr>)"
    "fs1 = fs_write_file (sst_name (engine_dir e) (e_flush_counter e + 1)) bs (e_fs e)"
    "version_ok hasher fs1 (engine_dir e) v'" "tv_ids v' = insert (e_flush_counter e + 1) (tv_ids (engine_version e))"
    "table_layers fs1 v' = (case table_layers (e_fs e) (engine_version e) of
        [] \<Rightarrow> [[mt_snapshot t]] | A # R \<Rightarrow> (A @ [mt_snapshot t]) # R)"
    "\<exists>tab. sst_open (sst_name (engine_dir e) (e_flush_counter e + 1)) fs1 = Inr tab
       \<and> findSSTableById v' = (findSSTableById (engine_version e))(e_flush_counter e + 1 \<mapsto> tab)"
    "\<exists>z. set (concat (tv_levels v')) = insert (new_meta (e_flush_counter e + 1) 0 (mt_snapshot t) (e_seq e) z)
       (set (concat (tv_levels (engine_version e))))"
proof -
  let ?fc = "e_flush_counter e + 1" and ?es = "mt_snapshot t"
  note ver = engine_inv_version [OF assms(1)]
  obtain tab bs fs1 where fl: "sst_flush hasher ?es (engine_dir e) ?fc (e_fs e) = Inr (tab, fs1)"
    "sst_path tab = sst_name (engine_dir e) ?fc" "sst_holds hasher fs1 tab ?es"
    "\<forall>p. p \<noteq> sst_name (engine_dir e) ?fc \<longrightarrow> fs_read p fs1 = fs_read p (e_fs e)"
    "sst_open (sst_name (engine_dir e) ?fc) fs1 = Inr tab"
    and bs: "fs1 = fs_write_file (sst_name (engine_dir e) ?fc) bs (e_fs e)"
    by (rule flush_writes_table [OF assms])
  define v where "v = tv_copyFrom (Some (engine_version e))"
  have v: "version_ok hasher (e_fs e) (engine_dir e) v" "tv_ids v = tv_ids (engine_version e)"
    "table_layers (e_fs e) v = table_layers (e_fs e) (engine_version e)"
    using ver(2) version_cong [of v "engine_version e"] by (simp_all add: v_def)
  have new: "?fc \<notin> tv_ids v" using ver(3) counter_fresh [OF assms(5)] v(2) by blast
  define z where "z = (word_of_nat (length bs) :: uint64)"
  obtain v1 where v1: "addSSTable tab (new_meta ?fc 0 ?es (e_seq e) z) v = Inr v1" "version_ok hasher fs1 (engine_dir e) v1"
    "tv_ids v1 = insert ?fc (tv_ids v)" "findSSTableById v1 = (findSSTableById v)(?fc \<mapsto> tab)"
    "set (concat (tv_levels v1)) = insert (new_meta ?fc 0 ?es (e_seq e) z) (set (concat (tv_levels v)))"
    "table_layers fs1 v1 = (case table_layers (e_fs e) v of [] \<Rightarrow> [[?es]] | A # R \<Rightarrow> (A @ [?es]) # R)"
    using flush_version [OF v(1) fl(3,2) fl(4) [rule_format] new] by metis
  define v' where "v' = v1\<lparr>tv_flush_counter := ?fc\<rparr>"
  have v': "version_ok hasher fs1 (engine_dir e) v'" "tv_ids v' = tv_ids v1" "table_layers fs1 v' = table_layers fs1 v1"
    "findSSTableById v' = findSSTableById v1" "tv_levels v' = tv_levels v1"
    using v1(2) version_cong [of v' v1] by (simp_all add: v'_def)
  have "file_size (sst_name (engine_dir e) ?fc) fs1 = Inr z" by (simp add: file_size_def bs z_def)
  moreover have "getVersionForModification (e_vm e) = v"
    using ver(1) by (simp add: getVersionForModification_def v_def)
  ultimately have turn: "flush_turn hasher e = Inr ((clear_cache e)\<lparr>e_flush_pending := False,
       e_flush_counter := ?fc, e_vm := installVersion v' (e_vm e),
       e_fs := saveMetadata (e_data_dir e) ?fc (e_seq e) v' fs1, e_compaction_needed := True, e_imm := None\<rparr>)"
    using assms(2,4) fl(1) v1(1)
    by (simp add: flush_turn_def Let_def scheduleCompaction_def clear_cache_def v'_def)
  have old: "findSSTableById v = findSSTableById (engine_version e)" "tv_levels v = tv_levels (engine_version e)"
    using version_cong(4) [of v "engine_version e"] by (simp_all add: v_def)
  show ?thesis
  proof (rule that [OF turn bs v'(1)])
    show "\<exists>tab. sst_open (sst_name (engine_dir e) ?fc) fs1 = Inr tab
       \<and> findSSTableById v' = (findSSTableById (engine_version e))(?fc \<mapsto> tab)"
      using fl(5) v'(4) v1(4) old(1) by simp
    show "\<exists>z. set (concat (tv_levels v')) = insert (new_meta ?fc 0 ?es (e_seq e) z) (set (concat (tv_levels (engine_version e))))"
      using v'(5) v1(5) old(2) by auto
  qed (use v' v1(3,6) v(2,3) in simp_all)
qed

text \<open>Nothing to write: the turn only drops the empty memtable.\<close>

lemma flush_turn_empty:
  assumes "engine_inv hasher e" "wal_ok e" "e_imm e = Some t" "mt_snapshot t = []"
  defines "e' \<equiv> e\<lparr>e_flush_pending := False, e_imm := None\<rparr>"
  shows "flush_turn hasher e = Inr e'" "engine_inv hasher e'" "wal_ok e'" "engine_view e' = engine_view e"
    "stored e' = stored e"
proof -
  have layers: "engine_layers e' = engine_layers e"
    using engine_inv_version(1) [OF assms(1)] by (simp add: e'_def engine_layers_def assms(3,4) mem_run_def)
  then show "engine_inv hasher e'" "wal_ok e'" "engine_view e' = engine_view e"
    using assms(1,2)
    by (simp_all add: engine_inv_def versions_ok_def all_runs_def cache_ok_def engine_view_def wal_ok_def fun_eq_iff)
      (simp_all add: e'_def)
  show "stored e' = stored e" by (rule stored_layers [OF layers])
  show "flush_turn hasher e = Inr e'" by (simp add: flush_turn_def assms(3,4) e'_def Let_def)
qed

text \<open>The files after the turn: the new table and the metadata, all else as before.\<close>

lemma flush_turn_files:
  assumes "engine_inv hasher e" "wal_ok e" "unat (e_flush_counter e) + 1 < 2 ^ 64"
    and fs1: "fs1 = fs_write_file (sst_name (engine_dir e) (e_flush_counter e + 1)) bs (e_fs e)"
    and fs2: "fs2 = saveMetadata (e_data_dir e) (e_flush_counter e + 1) (e_seq e) v fs1"
  shows "fs_inv fs2" "same_tables (engine_dir e) fs1 fs2" "wal_ok (e\<lparr>e_fs := fs2\<rparr>)"
    "fs_read (log_path (e_data_dir e)) fs2 = fs_read (log_path (e_data_dir e)) (e_fs e)"
    "e_flush_counter e + 1 < i \<Longrightarrow> fs_read (sst_name (engine_dir e) i) fs2 = None"
proof -
  let ?fc = "e_flush_counter e + 1"
  have fsi: "fs_inv (e_fs e)" "fs_inv fs1" using assms(1) fs1 by (simp_all add: engine_inv_def)
  note saved = fs_read_saved [OF fsi(2) fs2]
  show "fs_inv fs2" by (rule saved(1))
  show same: "same_tables (engine_dir e) fs1 fs2" using saved(4) sst_name_not_meta by (simp add: same_tables_def)
  show "wal_ok (e\<lparr>e_fs := fs2\<rparr>)"
    using wal_ok_write [of "e\<lparr>e_fs := _\<rparr>"] wal_ok_write [OF assms(2) fsi(1) sst_name_not_log] fsi(2)
    unfolding fs2 saveMetadata_def fs1 by (simp add: log_path_def)
  show "fs_read (log_path (e_data_dir e)) fs2 = fs_read (log_path (e_data_dir e)) (e_fs e)"
    using saved(4) [of "log_path (e_data_dir e)"] fsi(1) sst_name_not_log by (simp add: log_path_def fs1)
  show "fs_read (sst_name (engine_dir e) i) fs2 = None" if "?fc < i"
  proof -
    have "e_flush_counter e < i" using that counter_fresh(2) [OF assms(3), of "e_flush_counter e"] by simp
    then have "fs_read (sst_name (engine_dir e) i) (e_fs e) = None" using assms(1) by (simp add: engine_inv_def)
    moreover have "sst_name (engine_dir e) ?fc \<noteq> sst_name (engine_dir e) i" using that by (auto simp: sst_name_eq)
    ultimately show ?thesis using same fsi(1) by (simp add: same_tables_def fs1)
  qed
qed

lemma flush_turn_correct:
  assumes "engine_inv hasher e" "wal_ok e" "e_imm e = Some t" "small_run (mt_snapshot t)"
    and "unat (e_flush_counter e) + 1 < 2 ^ 64"
  obtains e' where "flush_turn hasher e = Inr e'" "engine_inv hasher e'" "wal_ok e'" "engine_view e' = engine_view e"
    "e_imm e' = None" "e_mem e' = e_mem e" "e_seq e' = e_seq e" "e_data_dir e' = e_data_dir e" "e_wal e' = e_wal e"
    "fs_read (log_path (e_data_dir e)) (e_fs e') = fs_read (log_path (e_data_dir e)) (e_fs e)"
    "stored e' = stored e"
proof (cases "mt_snapshot t = []")
  case True
  note t = flush_turn_empty [OF assms(1-3) True]
  show ?thesis by (rule that [OF t(1-4) _ _ _ _ _ _ t(5)]) simp_all
next
  case False
  let ?fc = "e_flush_counter e + 1" and ?es = "mt_snapshot t"
  obtain v' fs1 bs where fl: "flush_turn hasher e = Inr ((clear_cache e)\<lparr>e_flush_pending := False,
       e_flush_counter := ?fc, e_vm := installVersion v' (e_vm e),
       e_fs := saveMetadata (e_data_dir e) ?fc (e_seq e) v' fs1, e_compaction_needed := True, e_imm := None\<rparr>)"
    "fs1 = fs_write_file (sst_name (engine_dir e) ?fc) bs (e_fs e)"
    "version_ok hasher fs1 (engine_dir e) v'" "tv_ids v' = insert ?fc (tv_ids (engine_version e))"
    "table_layers fs1 v' = (case table_layers (e_fs e) (engine_version e) of [] \<Rightarrow> [[?es]] | A # R \<Rightarrow> (A @ [?es]) # R)"
    using flush_turn_result [OF assms(1,3,4) False assms(5)] .
  define e' where "e' = (clear_cache e)\<lparr>e_flush_pending := False, e_flush_counter := ?fc, e_vm := installVersion v' (e_vm e),
       e_fs := saveMetadata (e_data_dir e) ?fc (e_seq e) v' fs1, e_compaction_needed := True, e_imm := None\<rparr>"
  have f: "e_mem e' = e_mem e" "e_imm e' = None" "e_seq e' = e_seq e" "e_data_dir e' = e_data_dir e" "e_wal e' = e_wal e"
    "current_version (e_vm e') = Some v'" "e_flush_counter e' = ?fc" "e_cache e' = map_option lru_clear (e_cache e)"
    "e_fs e' = saveMetadata (e_data_dir e) ?fc (e_seq e) v' fs1"
    by (simp_all add: e'_def clear_cache_def installVersion_def)
  note ver = engine_inv_version [OF assms(1)]
  note files = flush_turn_files [OF assms(1,2,5) fl(2) f(9)]
  note same = files(2)
  have wf: "tv_wf (engine_dir e) v'" using fl(3) by (simp add: version_ok_def)
  have layers: "engine_layers e = [mt_snapshot (e_mem e)] # [?es] # table_layers (e_fs e) (engine_version e)"
    unfolding ver(4) by (simp add: assms(3) mem_run_def)
  have layers': "engine_layers e' = [mt_snapshot (e_mem e)] # [[]] #
      (case table_layers (e_fs e) (engine_version e) of [] \<Rightarrow> [[?es]] | A # R \<Rightarrow> (A @ [?es]) # R)"
    using table_layers_cong [OF wf same] fl(5) by (simp add: engine_layers_def f mem_run_def)
  have lok: "layers_ok (engine_layers e)" using assms(1) by (simp add: engine_inv_def)
  note lf = layers_flush [OF lok [unfolded layers], folded layers' layers]
  have view: "engine_view e' = engine_view e" using lf(2) by (simp add: engine_view_def fun_eq_iff)
  have sto: "stored e' = stored e" by (simp add: stored_def all_runs_def layers layers' split: list.split)
  have "versions_ok e'" using assms(1) lf(3) by (auto simp: engine_inv_def versions_ok_def all_runs_def f)
  moreover have "cache_ok e'" by (rule cache_ok_cleared [OF _ f(8)]) (use assms(1) in \<open>simp add: engine_inv_def cache_ok_def\<close>)
  moreover have "version_ok hasher (e_fs e') (engine_dir e) v'" by (rule version_ok_cong [OF fl(3) same])
  moreover have "\<forall>i\<in>tv_ids v'. i \<le> ?fc" using ver(3) fl(4) counter_fresh(2) [OF assms(5)] by (auto intro: less_imp_le)
  ultimately have inv: "engine_inv hasher e'"
    using assms(1) lf(1) files(1,5) by (simp add: engine_inv_def f(1-8))
  have wal: "wal_ok e'" by (rule wal_ok_cong [OF files(3)]) (simp_all add: f)
  show ?thesis using that [of e'] fl(1) inv wal view sto f(1-5) files(4) unfolding e'_def by blast
qed

section \<open>Properties\<close>

lemma checkFlush_total:
  assumes "e_imm e = None \<or> e_shutdown e"
  shows "\<exists>e'. checkFlush debug e = Some e'"
  using assms by (auto simp: checkFlush_def Let_def)

lemma write_batch_queue: "e_queue (snd (write_batch zcrc rs e)) = e_queue e"
proof (induction rs arbitrary: e)
  case (Cons r rs)
  have "e_queue (snd (write_one zcrc r e)) = e_queue e"
    by (cases "wr_op r") (simp_all add: write_one_def invalidate_cache_def Let_def split: prod.splits)
  moreover obtain ok e1 where "write_one zcrc r e = (ok, e1)" by fastforce
  moreover obtain results e2 where "write_batch zcrc rs e1 = (results, e2)" by fastforce
  ultimately show ?case using Cons [of e1] by simp
qed simp

lemma engine_wal_flush_queue [simp]: "e_queue (engine_wal_flush e) = e_queue e"
  by (simp add: engine_wal_flush_def split: prod.split)

lemma checkFlush_queue: "checkFlush debug e = Some e' \<Longrightarrow> e_queue e' = e_queue e"
  by (auto simp: checkFlush_def Let_def split: if_splits)

lemma checkFlush_small: "mt_getSize (e_mem e) < kMemTableThreshold \<Longrightarrow> checkFlush False e = Some e' \<Longrightarrow> e' = e"
  by (simp add: checkFlush_def)

text \<open>A turn of the writer thread, with all that a client needs to go on.\<close>

lemma writer_turn_correct:
  assumes "engine_inv hasher e" "wal_ok e" "e_imm e = None"
    and "wq_popBatch MAX_BATCH_SIZE gap (e_queue e) = Some (batch, q)" "batch \<noteq> []" "\<forall>r\<in>set batch. request_ok r"
    and "unat (e_seq e) + length batch < 2 ^ 64"
  obtains e' where "writer_turn zcrc gap e = Some (map (\<lambda>r. (wr_completion r, True)) batch, e')"
    "engine_inv hasher e'" "wal_ok e'" "engine_map e' = fold apply_request batch (engine_map e)" "e_queue e' = q"
    "unat (e_seq e') = unat (e_seq e) + length batch"
    "mt_getSize (e_mem (snd (write_batch zcrc batch (e\<lparr>e_queue := q\<rparr>)))) < kMemTableThreshold \<longrightarrow>
       e_imm e' = None \<and> e_mem e' = e_mem (snd (write_batch zcrc batch (e\<lparr>e_queue := q\<rparr>)))"
proof -
  let ?e = "e\<lparr>e_queue := q\<rparr>"
  have same: "engine_layers ?e = engine_layers e" by (rule engine_layers_cong) simp_all
  have pre: "engine_inv hasher ?e" "wal_ok ?e" "engine_map ?e = engine_map e"
    using assms(1,2) same by (simp_all add: engine_inv_def versions_ok_def all_runs_def cache_ok_def engine_view_def
        wal_ok_def engine_map_def fun_eq_iff)
  obtain results e1 where wb: "write_batch zcrc batch ?e = (results, e1)" by fastforce
  have e1: "engine_inv hasher e1" "wal_ok e1" "engine_map e1 = fold apply_request batch (engine_map e)"
    "results = map (\<lambda>r. (wr_completion r, True)) batch" "e_imm e1 = None" "unat (e_seq e1) = unat (e_seq e) + length batch"
    using write_batch_correct [OF pre(1,2) assms(6) _ wb] assms(3,7) pre(3) by simp_all
  define e2 where "e2 = engine_wal_flush e1"
  have e2: "engine_inv hasher e2" "wal_ok e2" "engine_layers e2 = engine_layers e1"
    using engine_wal_flush_inv [OF e1(1,2)] by (simp_all add: e2_def)
  have "e_imm e2 = None" using e1(5) by (simp add: e2_def)
  then obtain e3 where e3: "checkFlush False e2 = Some e3" using checkFlush_total [of e2] by blast
  have inv3: "engine_inv hasher e3" "wal_ok e3" "engine_view e3 = engine_view e2" "e_seq e3 = e_seq e2"
    using checkFlush_correct [OF e2(1,2) e3] by simp_all
  have "engine_view e2 = engine_view e1" using e2(3) by (simp add: engine_view_def fun_eq_iff)
  then have "engine_map e3 = fold apply_request batch (engine_map e)"
    using e1(3) inv3(3) by (auto simp: engine_map_def fun_eq_iff)
  moreover have "writer_turn zcrc gap e = Some (results, e3)"
    using assms(4,5) wb e3 by (simp add: writer_turn_def writer_apply_def e2_def)
  moreover have "e_queue e3 = q"
    using checkFlush_queue [OF e3] write_batch_queue [of zcrc batch ?e] wb by (simp add: e2_def)
  moreover have "mt_getSize (e_mem e1) < kMemTableThreshold \<longrightarrow> e_imm e3 = None \<and> e_mem e3 = e_mem e1"
    using checkFlush_small [of e2 e3] e3 e1(5) by (auto simp: e2_def)
  ultimately show ?thesis using that [of e3] inv3 e1(4,6) wb by (simp add: e2_def)
qed

text \<open>
  C6: a turn of the writer thread refines the map.  When no immutable memtable is
  waiting, the turn ends; every request of the batch is answered with success in order, the
  invariant is kept, and the keys and values a reader can see change exactly by the puts and
  deletes of the batch, one after the other, whether or not the turn also hands a full
  memtable to the flush thread.
\<close>

theorem writer_turn_refines_map:
  assumes "engine_inv hasher e" "wal_ok e" "e_imm e = None"
    and "wq_popBatch MAX_BATCH_SIZE gap (e_queue e) = Some (batch, q)" "batch \<noteq> []" "\<forall>r\<in>set batch. request_ok r"
    and "unat (e_seq e) + length batch < 2 ^ 64"
  shows "\<exists>e'. writer_turn zcrc gap e = Some (map (\<lambda>r. (wr_completion r, True)) batch, e')
     \<and> engine_inv hasher e' \<and> engine_map e' = fold apply_request batch (engine_map e)"
  using writer_turn_correct [OF assms] by metis

lemma wal_ok_open:
  assumes "fs_inv fs" "e_wal e = fst (wal_open (log_path dir) fs)" "e_fs e = snd (wal_open (log_path dir) fs)"
    "e_data_dir e = dir"
  shows "wal_ok e"
proof -
  obtain i fs' where op: "fs_open_create (log_path dir) fs = (i, fs')" by fastforce
  have p: "fs_names fs' (log_path dir) = Some i" "fs_inv fs'"
    using fs_open_create_props(1,2) [OF assms(1) op] by auto
  have "fs_names fs' q = Some i \<Longrightarrow> q = log_path dir" "i < fs_next fs'" for q
    using p unfolding fs_inv_def by blast+
  then show ?thesis using assms(2-4) op by (simp add: wal_ok_def wal_open_def wal_inv_def)
qed

definition sample_request :: write_request where
  "sample_request = \<lparr>wr_op = Op_PUT, wr_key = ''k'', wr_value = ''v'', wr_completion = 4\<rparr>"

text \<open>The engine on an empty directory with one request queued.\<close>

lemma engine_fresh_queued:
  obtains e where "engine_open (\<lambda>c b. c) ''d'' 2 fs_empty = Inr e"
    "engine_inv (\<lambda>s. 0) (e\<lparr>e_queue := (wq_new 10000)\<lparr>wq_queue := [sample_request]\<rparr>\<rparr>)"
    "wal_ok (e\<lparr>e_queue := (wq_new 10000)\<lparr>wq_queue := [sample_request]\<rparr>\<rparr>)"
    "e_imm e = None" "e_seq e = 1" "\<And>k. engine_view e k = None" "\<not> e_shutdown e" "e_mem e = mt_new"
    "e_flush_counter e = 0"
proof -
  have d: "dir_ok (sst_dir ''d'')" by (rule dir_ok_no_dot) (simp add: sst_dir_def)
  obtain e where e: "engine_open (\<lambda>c b. c) ''d'' 2 fs_empty = Inr e" "engine_inv (\<lambda>s. 0) e" "\<And>k. engine_view e k = None"
    "e_data_dir e = ''d''" "e_mem e = mt_new" "e_imm e = None" "e_seq e = 1" "\<not> e_shutdown e"
    "e_fs e = snd (wal_open (log_path ''d'') fs_empty)" "e_wal e = fst (wal_open (log_path ''d'') fs_empty)"
    "e_flush_counter e = 0"
    using engine_fresh [OF d, of "\<lambda>c b. c" 2 "\<lambda>s. 0"] by metis
  let ?e = "e\<lparr>e_queue := (wq_new 10000)\<lparr>wq_queue := [sample_request]\<rparr>\<rparr>"
  have "wal_ok ?e" using e(4,9,10) by (intro wal_ok_open [of fs_empty _ "''d''"]) simp_all
  moreover have "engine_layers ?e = engine_layers e" by (rule engine_layers_cong) simp_all
  then have "engine_inv (\<lambda>s. 0) ?e"
    using e(2) by (simp add: engine_inv_def versions_ok_def all_runs_def cache_ok_def engine_view_def)
  ultimately show ?thesis using that e by blast
qed

theorem writer_turn_refines_map_witness:
  "\<exists>e e'. engine_open (\<lambda>c b. c) ''d'' 2 fs_empty = Inr e
     \<and> writer_turn (\<lambda>c b. c) [] (e\<lparr>e_queue := (wq_new 10000)\<lparr>wq_queue := [sample_request]\<rparr>\<rparr>) = Some ([(4, True)], e')
     \<and> engine_map e' ''k'' = Some ''v''"
proof -
  obtain e where e: "engine_open (\<lambda>c b. c) ''d'' 2 fs_empty = Inr e"
    "engine_inv (\<lambda>s. 0) (e\<lparr>e_queue := (wq_new 10000)\<lparr>wq_queue := [sample_request]\<rparr>\<rparr>)"
    "wal_ok (e\<lparr>e_queue := (wq_new 10000)\<lparr>wq_queue := [sample_request]\<rparr>\<rparr>)" "e_imm e = None" "e_seq e = 1"
    using engine_fresh_queued by metis
  let ?e = "e\<lparr>e_queue := (wq_new 10000)\<lparr>wq_queue := [sample_request]\<rparr>\<rparr>"
  have pb: "wq_popBatch MAX_BATCH_SIZE [] (e_queue ?e) = Some ([sample_request], wq_new 10000)"
    by (simp add: wq_popBatch_def wq_take_eq MAX_BATCH_SIZE_def wq_new_def)
  have "\<exists>e'. writer_turn (\<lambda>c b. c) [] ?e = Some (map (\<lambda>r. (wr_completion r, True)) [sample_request], e')
     \<and> engine_inv (\<lambda>s. 0) e' \<and> engine_map e' = fold apply_request [sample_request] (engine_map ?e)"
    by (rule writer_turn_refines_map [OF e(2,3) _ pb]) (simp_all add: e(4,5) sample_request_def request_ok_def)
  then show ?thesis using e(1) by (auto simp: sample_request_def apply_request_def)
qed


lemma engine_one_key:
  obtains e where "engine_inv (\<lambda>s. 0) e" "wal_ok e" "e_imm e = None" "\<not> e_shutdown e" "e_flush_counter e = 0"
    "mt_snapshot (e_mem e) = [(''k'', \<lparr>ent_value = ''v'', ent_seq = 1, ent_type = Et_PUT\<rparr>)]"
    "engine_map e ''k'' = Some ''v''"
proof -
  obtain e0 where "engine_inv (\<lambda>s. 0) (e0\<lparr>e_queue := (wq_new 10000)\<lparr>wq_queue := [sample_request]\<rparr>\<rparr>)"
    "wal_ok (e0\<lparr>e_queue := (wq_new 10000)\<lparr>wq_queue := [sample_request]\<rparr>\<rparr>)"
    "e_imm e0 = None" "e_seq e0 = 1" "\<not> e_shutdown e0" "e_mem e0 = mt_new" "e_flush_counter e0 = 0"
    using engine_fresh_queued by metis
  then obtain e where e: "engine_inv (\<lambda>s. 0) e" "wal_ok e" "e_imm e = None" "e_seq e = 1" "\<not> e_shutdown e"
    "e_mem e = mt_new" "e_flush_counter e = 0"
    by (intro that [of "e0\<lparr>e_queue := (wq_new 10000)\<lparr>wq_queue := [sample_request]\<rparr>\<rparr>"]) simp_all
  have ok: "request_ok sample_request" by (simp add: sample_request_def request_ok_def)
  define e1 where "e1 = snd (write_one (\<lambda>c b. c) sample_request e)"
  have b: "unat (e_seq e) + 1 < 2 ^ 64" using e(4) by simp
  note w = write_one_correct [OF e(1,2) ok b e1_def]
  have e1: "e1 = invalidate_cache ''k'' (e\<lparr>e_mem := \<lparr>mt_map = [(''k'', request_entry sample_request 1)]\<rparr>,
      e_wal := wal_append (\<lambda>c b. c) Op_PUT ''k'' ''v'' 1 (e_wal e), e_seq := 1 + 1\<rparr>)"
    unfolding e1_def write_one_eq [OF ok] by (simp add: e sample_request_def request_entry_def mt_new_def)
  have "engine_map e1 ''k'' = Some ''v''"
    using w(3) by (simp add: engine_map_def sample_request_def request_entry_def)
  with w(1,2,6,7) e show ?thesis
    by (intro that [of e1]) (simp_all add: e1 invalidate_cache_def mt_snapshot_def request_entry_def sample_request_def)
qed


end
