(* ===== verification/Engine_Recovery.thy ===== *)
theory Engine_Recovery
  imports Engine_Writes
begin

text \<open>
  Crash and restart.  A crash loses the state in memory and keeps the file system; a
  restart constructs a new engine on it.  As long as the memtable has not been handed over,
  the log holds every acknowledged write and the restart rebuilds the same map.  After a
  hand-over, the log file is unlinked while the engine keeps appending to its descriptor, so
  later acknowledged writes are in no file at all.
\<close>

section \<open>Log and memtable\<close>

definition request_log :: "write_request \<Rightarrow> uint64 \<Rightarrow> wal_entry" where
  "request_log r n = (n, wr_op r, wr_key r, ent_value (request_entry r n))"

text \<open>The log file and the buffer hold the records of \<open>es\<close>, and the memtable is what their replay builds.\<close>

definition log_state :: "crc \<Rightarrow> wal_entry list \<Rightarrow> engine \<Rightarrow> bool" where
  "log_state zcrc es e \<longleftrightarrow> wal_inv (e_wal e) \<and> (\<exists>fd. wal_fd (e_wal e) = Some fd
       \<and> fs_names (e_fs e) (log_path (e_data_dir e)) = Some fd
       \<and> fs_inodes (e_fs e) fd @ write_buffer (e_wal e) = concat (map (wal_record zcrc) es))
     \<and> (\<forall>x\<in>set es. wal_entry_ok x) \<and> e_mem e = fst (fold recover_apply es (mt_new, 0))"

text \<open>The number of the next write, as a restart computes it from the saved number and the log.\<close>

definition next_seq :: "uint64 \<Rightarrow> wal_entry list \<Rightarrow> uint64" where
  "next_seq sq es = (if es = [] then sq else snd (fold recover_apply es (mt_new, sq)) + 1)"

lemma recover_apply_fst: "fst (recover_apply x (m, s)) = fst (recover_apply x (m, s'))"
  by (cases x) simp

lemma recover_fold_fst: "fst (fold recover_apply es (m, s)) = fst (fold recover_apply es (m, s'))"
proof (induction es arbitrary: m s s')
  case (Cons x es)
  obtain m1 s1 s1' where "recover_apply x (m, s) = (m1, s1)" "recover_apply x (m, s') = (m1, s1')"
    using recover_apply_fst [of x m s s'] by (metis fst_conv surj_pair)
  with Cons show ?case by simp
qed simp

lemma request_log_ok: "request_ok r \<Longrightarrow> wal_entry_ok (request_log r n)"
  by (auto simp: request_log_def wal_entry_ok_def request_ok_def request_entry_def named_op_def)

lemma recover_request:
  "request_ok r \<Longrightarrow> fst (recover_apply (request_log r n) (m, s)) =
     \<lparr>mt_map = smap_put (wr_key r) (request_entry r n) (mt_map m)\<rparr>"
  by (cases m) (auto simp: request_log_def request_ok_def request_entry_def mt_put_def mt_del_def Let_def)

lemma write_one_log:
  assumes "log_state zcrc es e" "request_ok r"
  shows "log_state zcrc (es @ [request_log r (e_seq e)]) (snd (write_one zcrc r e))"
proof -
  have e': "snd (write_one zcrc r e) = invalidate_cache (wr_key r)
        (e\<lparr>e_mem := \<lparr>mt_map = smap_put (wr_key r) (request_entry r (e_seq e)) (mt_map (e_mem e))\<rparr>,
           e_wal := wal_append zcrc (wr_op r) (wr_key r) (ent_value (request_entry r (e_seq e))) (e_seq e) (e_wal e),
           e_seq := e_seq e + 1\<rparr>)"
    by (simp add: write_one_eq [OF assms(2)])
  obtain m s where ms: "fold recover_apply es (mt_new, 0) = (m, s)" by fastforce
  then have "e_mem e = m" using assms(1) by (simp add: log_state_def)
  then have "\<lparr>mt_map = smap_put (wr_key r) (request_entry r (e_seq e)) (mt_map (e_mem e))\<rparr> =
      fst (fold recover_apply (es @ [request_log r (e_seq e)]) (mt_new, 0))"
    using recover_request [OF assms(2), of "e_seq e" m s] ms by simp
  moreover have "wal_record zcrc (e_seq e, wr_op r, wr_key r, ent_value (request_entry r (e_seq e)))
      = wal_record zcrc (request_log r (e_seq e))"
    by (simp add: request_log_def)
  ultimately show ?thesis
    using assms request_log_ok [OF assms(2), of "e_seq e"]
    unfolding e' by (auto simp: log_state_def invalidate_cache_def append_write_buffer simp flip: append_assoc)
qed

lemma wal_flush_log:
  assumes "log_state zcrc es e" "wal_ok e" "fs_inv (e_fs e)"
  shows "log_state zcrc es (engine_wal_flush e)" "write_buffer (e_wal (engine_wal_flush e)) = []"
    "fs_read (log_path (e_data_dir e)) (e_fs (engine_wal_flush e)) = Some (concat (map (wal_record zcrc) es))"
proof -
  obtain fd where fd: "wal_fd (e_wal e) = Some fd"
    "engine_wal_flush e = e\<lparr>e_wal := e_wal (engine_wal_flush e),
       e_fs := (if write_buffer (e_wal e) = [] then e_fs e else fs_append_fd fd (write_buffer (e_wal e)) (e_fs e))\<rparr>"
    "wal_inv (e_wal (engine_wal_flush e))" "wal_fd (e_wal (engine_wal_flush e)) = Some fd"
    "write_buffer (e_wal (engine_wal_flush e)) = []"
    using engine_wal_flush_eq [OF assms(2)] by metis
  have fs: "fs_names (e_fs (engine_wal_flush e)) = fs_names (e_fs e)"
    "fs_inodes (e_fs (engine_wal_flush e)) fd = fs_inodes (e_fs e) fd @ write_buffer (e_wal e)"
    by (subst fd(2), simp add: fs_append_fd_def)+
  show "write_buffer (e_wal (engine_wal_flush e)) = []" by (rule fd(5))
  show ls: "log_state zcrc es (engine_wal_flush e)"
    using assms(1) fd(1,3-5) fs by (simp add: log_state_def)
  show "fs_read (log_path (e_data_dir e)) (e_fs (engine_wal_flush e)) = Some (concat (map (wal_record zcrc) es))"
    using assms(1) fd(1) fs by (simp add: log_state_def fs_read_def)
qed

section \<open>The next sequence number\<close>

lemma recover_fold_snd: "snd (fold recover_apply es (m, s)) = fold (\<lambda>x. max (fst x)) es s"
proof (induction es arbitrary: m s)
  case (Cons x es)
  obtain n op key val where x: "x = (n, op, key, val)" by (cases x)
  show ?case using Cons by (simp add: x max.commute)
qed simp

lemma word_less_Suc: "0 < (m :: uint64) + 1 \<Longrightarrow> m < m + 1"
proof (cases "unat m + 1 < 2 ^ 64")
  case False
  then have "18446744073709551615 \<le> unat m" by simp
  moreover have "unat m < 18446744073709551616" using unsigned_less [of m, where ?'a = nat] by simp
  ultimately have "unat m = 18446744073709551615" by linarith
  then have "unat (m + 1) = 0" by (simp add: unat_word_ariths)
  moreover assume "0 < m + 1"
  ultimately show ?thesis by (simp add: word_less_nat_alt)
qed (rule seq_less_Suc, simp_all)

lemma next_seq_snoc:
  assumes "next_seq sq es = n" "0 < n"
  shows "next_seq sq (es @ [(n, x)]) = n + 1"
proof (cases "es = []")
  case True
  with assms(1) show ?thesis by (cases x) (simp add: next_seq_def)
next
  case False
  let ?m = "fold (\<lambda>x. max (fst x)) es sq"
  have m: "?m + 1 = n" using assms(1) False by (simp add: next_seq_def recover_fold_snd)
  have "?m < n" using word_less_Suc [of ?m] m assms(2) by simp
  then show ?thesis unfolding next_seq_def recover_fold_snd by (simp add: max.absorb1)
qed

section \<open>Levels up to trailing empty ones\<close>

lemma level_of_pad:
  assumes "\<And>l. level_of a l = level_of b l" "length a \<le> length b"
  shows "b = a @ replicate (length b - length a) []"
proof (rule nth_equalityI)
  fix i assume "i < length b"
  then show "b ! i = (a @ replicate (length b - length a) []) ! i"
    using assms(1) [of i] by (auto simp: level_of_def nth_append split: if_splits)
qed (use assms(2) in simp)

lemma pad_cases:
  assumes "\<And>l. level_of a l = level_of b l"
  obtains n where "b = a @ replicate n [] \<or> a = b @ replicate n []"
  using level_of_pad [of a b] level_of_pad [of b a] assms by (metis nle_le)

lemma pad_concat:
  assumes "\<And>l. level_of a l = level_of b l"
  shows "concat a = concat b"
proof -
  obtain n where "b = a @ replicate n [] \<or> a = b @ replicate n []" using pad_cases [OF assms] by blast
  then show ?thesis by (elim disjE) simp_all
qed

lemma layers_ok_pad: "layers_ok (Ls @ replicate n []) = layers_ok Ls"
proof -
  have "sorted_wrt older_than (replicate n [])" by (induction n) (auto simp: older_than_def)
  then show ?thesis by (auto simp: layers_ok_def sorted_wrt_append older_than_def)
qed

lemma version_ok_pad:
  assumes "\<And>l. level_of (tv_levels v') l = level_of (tv_levels v) l" "findSSTableById v' = findSSTableById v" "tv_wf dir v'"
  shows "version_ok hasher fs dir v \<Longrightarrow> version_ok hasher fs dir v'" "tv_ids v' = tv_ids v"
    "\<exists>n. table_layers fs v = table_layers fs v' @ replicate n [] \<or> table_layers fs v' = table_layers fs v @ replicate n []"
proof -
  obtain n where n: "tv_levels v = tv_levels v' @ replicate n [] \<or> tv_levels v' = tv_levels v @ replicate n []"
    using pad_cases [OF assms(1)] by blast
  have cc: "concat (tv_levels v') = concat (tv_levels v)" by (rule pad_concat [OF assms(1)])
  then show "tv_ids v' = tv_ids v" by (simp add: tv_ids_def)
  have run: "run_of fs v' = run_of fs v" by (simp add: run_of_def assms(2) fun_eq_iff)
  show "\<exists>n. table_layers fs v = table_layers fs v' @ replicate n [] \<or> table_layers fs v' = table_layers fs v @ replicate n []"
    using n by (auto simp: table_layers_def run map_replicate intro: exI [of _ n])
  assume ok: "version_ok hasher fs dir v"
  have lv: "level_of (tv_levels v') l = level_of (tv_levels v) l" for l by (rule assms(1))
  have "levels_tagged (tv_levels v')"
    using ok lv by (auto simp: version_ok_def levels_tagged_def level_of_def split: if_splits) (metis empty_iff list.set(1))+
  moreover have "l = 0 \<or> disjoint_level (tv_levels v' ! l)" if "l < length (tv_levels v')" for l
    using ok lv [of l] that by (cases "l < length (tv_levels v)") (auto simp: version_ok_def level_of_def disjoint_level_def)
  moreover have "meta_ok hasher fs v' m = meta_ok hasher fs v m" for m by (simp add: meta_ok_def assms(2))
  ultimately show "version_ok hasher fs dir v'" using ok assms(3) by (simp add: version_ok_def cc)
qed

section \<open>Reading a version back\<close>

lemma table_path_name: "table_path dir i = sst_name (sst_dir dir) i"
  by (simp add: table_path_def sst_name_def sst_dir_def)

text \<open>
  What the files say about a version: nothing at all for the version of a new engine, else
  the two counters, the levels, and per table a file from which the table opens again.
\<close>

definition table_opens :: "string \<Rightarrow> file_system \<Rightarrow> table_version \<Rightarrow> sstable_meta \<Rightarrow> bool" where
  "table_opens dir fs v m \<longleftrightarrow> meta_saved m
     \<and> (\<exists>t. findSSTableById v (meta_id m) = Some t \<and> sst_open (table_path dir (meta_id m)) fs = Inr t)"

definition saved_version :: "string \<Rightarrow> file_system \<Rightarrow> uint64 \<Rightarrow> uint64 \<Rightarrow> table_version \<Rightarrow> bool" where
  "saved_version dir fs fc sq v \<longleftrightarrow>
     (case fs_read (dir @ ''/metadata.txt'') fs of
        None \<Rightarrow> fc = 0 \<and> sq = 1 \<and> concat (tv_levels v) = [] \<and> tv_sstables v = []
      | Some content \<Rightarrow> content = print_counters fc sq
          \<and> fs_read (dir @ ''/levels.txt'') fs = Some (print_levels (tv_levels v))
          \<and> (\<forall>m\<in>set (concat (tv_levels v)). table_opens dir fs v m))"

lemma load_tables_opened:
  assumes "\<forall>m\<in>set ms. table_opens dir fs v m" "\<forall>m\<in>set ms. fs_exists (table_path dir (meta_id m)) fs"
  shows "load_tables dir fs ms = Inr (map (\<lambda>m. findSSTableById v (meta_id m)) ms)"
  using assms by (induction ms) (auto simp: table_opens_def)

lemma meta_ok_exists:
  "tv_wf (sst_dir dir) v \<Longrightarrow> meta_ok hasher fs v m \<Longrightarrow> fs_exists (table_path dir (meta_id m)) fs"
  by (auto simp: meta_ok_def sst_ok_def sst_holds_def fs_exists_iff table_path_name dest: find_path)

lemma tables_of_levels:
  assumes "tv_wf dir v" "concat (tv_levels v') = concat (tv_levels v)"
    and "tv_sstables v' = map (\<lambda>m. findSSTableById v (meta_id m)) (concat (tv_levels v))"
  shows "tv_wf dir v'" "findSSTableById v' = findSSTableById v"
proof -
  have d: "dir_ok dir" "distinct (map meta_id (concat (tv_levels v)))" using assms(1) by (auto simp: tv_wf_def)
  have ids: "tv_ids v' = tv_ids v" by (simp add: tv_ids_def assms(2))
  define its where "its = map (\<lambda>m. (meta_id m, the (findSSTableById v (meta_id m)))) (concat (tv_levels v))"
  have some: "findSSTableById v (meta_id m) = Some (the (findSSTableById v (meta_id m)))"
    if "m \<in> set (concat (tv_levels v))" for m
    using tables.lookup_in [OF assms(1), of "meta_id m"] that unfolding tv_ids_def by force
  have tabs: "tv_sstables v' = map (Some \<circ> snd) its"
    unfolding assms(3) its_def map_map using some by (intro map_cong) auto
  have paths: "\<forall>(i, t)\<in>set its. sst_path t = sst_name dir i"
    using find_path [OF assms(1)] some by (auto simp: its_def)
  have fst_its: "map fst its = map meta_id (concat (tv_levels v))" by (simp add: its_def comp_def)
  have "fst ` set its = tv_ids v" using fst_its unfolding tv_ids_def by (metis list.set_map)
  then show wf: "tv_wf dir v'" using d tabs paths fst_its assms(2) ids by (auto simp: tv_wf_def)
  have "map_of its i = findSSTableById v i" for i
  proof (cases "i \<in> tv_ids v")
    case True
    then obtain m where m: "m \<in> set (concat (tv_levels v))" "i = meta_id m" by (auto simp: tv_ids_def)
    then have "(i, the (findSSTableById v i)) \<in> set its" unfolding its_def by force
    moreover have "distinct (map fst its)" using d(2) fst_its by simp
    ultimately have "map_of its i = Some (the (findSSTableById v i))" by simp
    with some m show ?thesis by simp
  next
    case False
    then have "map_of its i = None" using \<open>fst ` set its = tv_ids v\<close> by (simp add: map_of_eq_None_iff)
    with False tv_lookup_dom [OF assms(1), of i] show ?thesis by simp
  qed
  then show "findSSTableById v' = findSSTableById v" using find_map_of [OF d(1) tabs paths] by auto
qed

text \<open>The constructor's work before \<open>recover\<close>: first on a directory without metadata.\<close>

lemma engine_load_empty:
  assumes "saved_version dir fs fc sq v" "version_ok hasher fs (sst_dir dir) v" "fs_read (dir @ ''/metadata.txt'') fs = None"
    and "e_fs e = fs" "e_data_dir e = dir" "e_seq e = 1"
  defines "v' \<equiv> tv_new\<lparr>tv_levels := resize 4 []\<rparr>"
  shows "engine_load e = Inr (e\<lparr>e_flush_counter := fc, e_seq := sq, e_vm := installVersion v' (e_vm e)\<rparr>)"
    "saved_version dir fs fc sq v'" "tv_wf (sst_dir dir) v'" "findSSTableById v' = findSSTableById v"
    "level_of (tv_levels v') l = level_of (tv_levels v) l"
proof -
  have lv': "tv_levels v' = replicate 4 []" "tv_sstables v' = []" by (simp_all add: v'_def resize_def tv_new_def)
  have empty: "concat (tv_levels v) = []" "tv_sstables v = []" "fc = 0" "sq = 1"
    using assms(1,3) by (simp_all add: saved_version_def)
  have "tv_levels v = replicate (length (tv_levels v)) []"
    using empty(1) by (intro replicate_eqI) auto
  then obtain n where "tv_levels v = replicate n []" by blast
  then show "level_of (tv_levels v') l = level_of (tv_levels v) l" using lv' by (simp add: level_of_def)
  show "tv_wf (sst_dir dir) v'"
    using assms(2) lv' by (intro tv_wf_empty) (auto simp: version_ok_def tv_wf_def)
  show "findSSTableById v' = findSSTableById v"
    by (simp add: findSSTableById_def lv' empty fun_eq_iff)
  show "engine_load e = Inr (e\<lparr>e_flush_counter := fc, e_seq := sq, e_vm := installVersion v' (e_vm e)\<rparr>)"
    using assms(3-6) empty by (cases e) (simp add: engine_load_def v'_def)
  show "saved_version dir fs fc sq v'" using assms(3) empty lv' by (simp add: saved_version_def)
qed

lemma engine_load_saved:
  assumes "saved_version dir fs fc sq v" "version_ok hasher fs (sst_dir dir) v"
    and "e_fs e = fs" "e_data_dir e = dir" "e_seq e = 1"
  obtains v' where "engine_load e = Inr (e\<lparr>e_flush_counter := fc, e_seq := sq, e_vm := installVersion v' (e_vm e)\<rparr>)"
    "version_ok hasher fs (sst_dir dir) v'" "tv_ids v' = tv_ids v" "saved_version dir fs fc sq v'"
    "\<exists>n. table_layers fs v = table_layers fs v' @ replicate n [] \<or> table_layers fs v' = table_layers fs v @ replicate n []"
proof (cases "fs_read (dir @ ''/metadata.txt'') fs")
  case None
  note ld = engine_load_empty [OF assms(1,2) None assms(3-5)]
  show ?thesis using that [OF ld(1) _ _ ld(2)] version_ok_pad [OF ld(5,4,3)] assms(2) by blast
next
  case (Some content)
  have sv: "content = print_counters fc sq" "fs_read (dir @ ''/levels.txt'') fs = Some (print_levels (tv_levels v))"
    "\<forall>m\<in>set (concat (tv_levels v)). table_opens dir fs v m"
    using assms(1) Some by (simp_all add: saved_version_def)
  have wf: "tv_wf (sst_dir dir) v" and tag: "levels_tagged (tv_levels v)" and mok: "\<forall>m\<in>set (concat (tv_levels v)). meta_ok hasher fs v m"
    using assms(2) by (auto simp: version_ok_def)
  obtain v1 where v1: "loadLevelMetadata dir fc fs = Inr v1" "\<And>l. level_of (tv_levels v1) l = level_of (tv_levels v) l"
    "tv_sstables v1 = []"
  proof -
    have "\<forall>m\<in>set (concat (tv_levels v)). meta_saved m" using sv(3) by (simp add: table_opens_def)
    then show ?thesis using load_levels_file [OF sv(2) tag] that by blast
  qed
  have cc: "concat (tv_levels v1) = concat (tv_levels v)"  by (rule pad_concat [OF v1(2)])
  define ts where "ts = map (\<lambda>m. findSSTableById v (meta_id m)) (concat (tv_levels v))"
  have "load_tables dir fs (concat (tv_levels v)) = Inr ts"
    unfolding ts_def using load_tables_opened sv(3) mok meta_ok_exists [OF wf] by blast
  then have ts: "load_tables dir fs (concat (tv_levels (tv_copyFrom (Some v1)))) = Inr ts" by (simp add: cc)
  define v' where "v' = (tv_copyFrom (Some v1))\<lparr>tv_sstables := ts\<rparr>"
  have lv': "level_of (tv_levels v') l = level_of (tv_levels v) l" for l by (simp add: v'_def v1(2))
  have "concat (tv_levels v') = concat (tv_levels v)" "tv_sstables v' = ts" using cc by (simp_all add: v'_def)
  note tol = tables_of_levels [OF wf this(1) this(2) [unfolded ts_def]]
  have "loadSSTables dir fs (installVersion v1 (e_vm e)) = Inr (installVersion v' (e_vm e))"
    using ts v1(3) by (simp add: loadSSTables_def getVersionForModification_def installVersion_def v'_def del: tv_copyFrom.simps) (simp add: v1(3))
  then have "engine_load e = Inr (e\<lparr>e_flush_counter := fc, e_seq := sq, e_vm := installVersion v' (e_vm e)\<rparr>)"
    using Some sv(1) v1(1) assms(3,4) by (simp add: engine_load_def parse_print_counters)
  moreover have "saved_version dir fs fc sq v'"
    using assms(1) Some \<open>concat (tv_levels v') = concat (tv_levels v)\<close>
    by (simp add: saved_version_def table_opens_def print_levels_def tol(2))
  ultimately show ?thesis using that version_ok_pad [OF lv' tol(2,1)] assms(2) by blast
qed

section \<open>Restart\<close>

definition log_bytes :: "string \<Rightarrow> file_system \<Rightarrow> bytes" where
  "log_bytes dir fs = (case fs_read (log_path dir) fs of None \<Rightarrow> [] | Some bs \<Rightarrow> bs)"

text \<open>Everything the engine holds is in its files: the tables, the metadata and, record by record, the log.\<close>

definition durable :: "crc \<Rightarrow> wal_entry list \<Rightarrow> uint64 \<Rightarrow> engine \<Rightarrow> bool" where
  "durable zcrc es sq e \<longleftrightarrow> e_imm e = None \<and> (\<forall>x\<in>set es. wal_entry_ok x)
     \<and> e_mem e = fst (fold recover_apply es (mt_new, 0))
     \<and> log_bytes (e_data_dir e) (e_fs e) = concat (map (wal_record zcrc) es)
     \<and> e_seq e = next_seq sq es \<and> 0 < next_seq sq es
     \<and> saved_version (e_data_dir e) (e_fs e) (e_flush_counter e) sq (engine_version e)"

lemma saved_version_cong:
  assumes "\<And>p. p \<noteq> log_path dir \<Longrightarrow> fs_read p fs' = fs_read p fs"
  shows "saved_version dir fs' fc sq v = saved_version dir fs fc sq v"
proof -
  have "sst_open (table_path dir i) fs' = sst_open (table_path dir i) fs" for i
    using assms [of "table_path dir i"] by (simp add: sst_open_def table_path_def log_path_def)
  then have "table_opens dir fs' v m = table_opens dir fs v m" for m by (simp add: table_opens_def)
  then show ?thesis
    using assms [of "dir @ ''/metadata.txt''"] assms [of "dir @ ''/levels.txt''"]
    by (simp add: saved_version_def log_path_def split: option.split)
qed

lemma recover_log:
  assumes "log_bytes dir (e_fs e) = concat (map (wal_record zcrc) es)" "\<forall>x\<in>set es. wal_entry_ok x"
    and "wal_path (e_wal e) = log_path dir" "e_mem e = mt_new"
  shows "recover zcrc e = e\<lparr>e_mem := fst (fold recover_apply es (mt_new, 0)), e_seq := next_seq (e_seq e) es\<rparr>"
proof (cases "es = []")
  case True
  then have "wal_empty (log_path dir) (e_fs e)"
    using assms(1) by (auto simp: wal_empty_def log_bytes_def split: option.splits)
  with True assms(3,4) show ?thesis by (cases e) (simp add: recover_def next_seq_def)
next
  case False
  obtain x xs where es: "es = x # xs" using False by (cases es) auto
  have "length (wal_record zcrc x) > 0" using assms(2) by (cases x) (simp add: es wal_record_length)
  then have ne: "concat (map (wal_record zcrc) es) \<noteq> []" by (auto simp: es)
  then have rd: "fs_read (log_path dir) (e_fs e) = Some (concat (map (wal_record zcrc) es))"
    using assms(1) by (auto simp: log_bytes_def split: option.splits)
  obtain m s where ms: "fold recover_apply es (mt_new, e_seq e) = (m, s)" by fastforce
  have "m = fst (fold recover_apply es (mt_new, 0))" using recover_fold_fst [of es mt_new "e_seq e" 0] ms by simp
  moreover have "s + 1 = next_seq (e_seq e) es" using False ms by (simp add: next_seq_def)
  moreover have "\<not> wal_empty (log_path dir) (e_fs e)" using rd ne by (simp only: wal_empty_def option.case length_0_conv not_False_eq_True)
  ultimately show ?thesis
    using wal_replay_file [OF rd assms(2)] ms assms(3,4) by (simp add: recover_def)
qed

lemma log_open_reads:
  assumes "fs_inv fs"
  shows "fs_inv (snd (wal_open (log_path dir) fs))" "log_bytes dir (snd (wal_open (log_path dir) fs)) = log_bytes dir fs"
    "p \<noteq> log_path dir \<Longrightarrow> fs_read p (snd (wal_open (log_path dir) fs)) = fs_read p fs"
    "\<exists>fd. wal_fd (fst (wal_open (log_path dir) fs)) = Some fd \<and> fs_names (snd (wal_open (log_path dir) fs)) (log_path dir) = Some fd"
proof -
  obtain i fs' where op: "fs_open_create (log_path dir) fs = (i, fs')" by fastforce
  then have w: "snd (wal_open (log_path dir) fs) = fs'" "wal_fd (fst (wal_open (log_path dir) fs)) = Some i"
    by (simp_all add: wal_open_def)
  note o = fs_open_create_props [OF assms op]
  show "fs_inv (snd (wal_open (log_path dir) fs))" using o(2) w by simp
  show "log_bytes dir (snd (wal_open (log_path dir) fs)) = log_bytes dir fs"
    using o(3) [of "log_path dir"] by (auto simp: log_bytes_def w split: option.splits)
  show "p \<noteq> log_path dir \<Longrightarrow> fs_read p (snd (wal_open (log_path dir) fs)) = fs_read p fs"
    using o(3) [of p] w by simp
  show "\<exists>fd. wal_fd (fst (wal_open (log_path dir) fs)) = Some fd \<and> fs_names (snd (wal_open (log_path dir) fs)) (log_path dir) = Some fd"
    using o(1) w by simp
qed

text \<open>A new engine on the same files holds the same versions.\<close>

lemma restart:
  assumes "engine_inv hasher e" "durable zcrc es sq e"
  obtains e' where "engine_open zcrc (e_data_dir e) n (e_fs e) = Inr e'" "engine_inv hasher e'" "wal_ok e'"
    "durable zcrc es sq e'" "engine_view e' = engine_view e" "e_seq e' = e_seq e" "e_data_dir e' = e_data_dir e"
    "e_imm e' = None" "\<not> e_shutdown e'" "e_queue e' = wq_new 10000"
    "\<exists>fd. wal_fd (e_wal e') = Some fd \<and> fs_names (e_fs e') (log_path (e_data_dir e)) = Some fd"
    "write_buffer (e_wal e') = []" "e_flush_counter e' = e_flush_counter e"
proof -
  let ?dir = "e_data_dir e" and ?fc = "e_flush_counter e"
  define w fs where "w = fst (wal_open (log_path ?dir) (e_fs e))" and "fs = snd (wal_open (log_path ?dir) (e_fs e))"
  have fsi: "fs_inv (e_fs e)" using assms(1) by (simp add: engine_inv_def)
  note lo = log_open_reads [where dir = ?dir, OF fsi, folded fs_def w_def]
  note ver = engine_inv_version [OF assms(1)]
  have same: "same_tables (engine_dir e) (e_fs e) fs" using lo(3) sst_name_not_log by (simp add: same_tables_def)
  have d: "e_imm e = None" "\<forall>x\<in>set es. wal_entry_ok x" "e_mem e = fst (fold recover_apply es (mt_new, 0))"
    "log_bytes ?dir fs = concat (map (wal_record zcrc) es)" "e_seq e = next_seq sq es" "0 < next_seq sq es"
    "saved_version ?dir fs ?fc sq (engine_version e)"
    using assms(2) lo(2) saved_version_cong [OF lo(3), of ?dir ?fc sq "engine_version e"]
    unfolding durable_def by metis+
  define e0 where "e0 = engine_init ?dir n (e_fs e)"
  have e0: "e_fs e0 = fs" "e_data_dir e0 = ?dir" "e_seq e0 = 1" "e_wal e0 = w" "e_mem e0 = mt_new" "e_imm e0 = None"
    "e_cache e0 = (if n > 0 then Some (lru_new n) else None)" "\<not> e_shutdown e0" "e_queue e0 = wq_new 10000"
    by (simp_all add: e0_def engine_init_def w_def fs_def split: prod.splits)
  have vok: "version_ok hasher fs (sst_dir ?dir) (engine_version e)" by (rule version_ok_cong [OF ver(2) same])
  obtain v' where v': "engine_load e0 = Inr (e0\<lparr>e_flush_counter := ?fc, e_seq := sq, e_vm := installVersion v' (e_vm e0)\<rparr>)"
    "version_ok hasher fs (sst_dir ?dir) v'" "tv_ids v' = tv_ids (engine_version e)"
    "saved_version ?dir fs ?fc sq v'"
    and pad: "\<exists>k. table_layers fs (engine_version e) = table_layers fs v' @ replicate k []
      \<or> table_layers fs v' = table_layers fs (engine_version e) @ replicate k []"
    using engine_load_saved [OF d(7) vok e0(1-3)] by metis
  define e' where "e' = e0\<lparr>e_flush_counter := ?fc, e_seq := e_seq e, e_vm := installVersion v' (e_vm e0), e_mem := e_mem e\<rparr>"
  have op: "engine_open zcrc ?dir n (e_fs e) = Inr e'"
    unfolding engine_open_def e0_def [symmetric] v'(1) e'_def
    using recover_log [of ?dir "e0\<lparr>e_flush_counter := ?fc, e_seq := sq, e_vm := installVersion v' (e_vm e0)\<rparr>" zcrc es] d e0
    by (simp add: w_def wal_open_def split: prod.splits)
  have f: "e_mem e' = e_mem e" "e_imm e' = None" "current_version (e_vm e') = Some v'" "e_seq e' = e_seq e"
    "e_data_dir e' = ?dir" "e_fs e' = fs" "e_wal e' = w" "e_flush_counter e' = ?fc"
    "e_cache e' = (if n > 0 then Some (lru_new n) else None)" "\<not> e_shutdown e'" "e_queue e' = wq_new 10000"
    by (simp_all add: e'_def e0 installVersion_def)
  have layers: "engine_layers e = [mt_snapshot (e_mem e)] # [[]] # table_layers fs (engine_version e)"
    unfolding ver(4) using d(1) table_layers_cong [OF ver(5) same] by (simp add: mem_run_def)
  have layers': "engine_layers e' = [mt_snapshot (e_mem e)] # [[]] # table_layers fs v'"
    by (simp add: engine_layers_def f mem_run_def)
  obtain k where "engine_layers e = engine_layers e' @ replicate k [] \<or> engine_layers e' = engine_layers e @ replicate k []"
    using pad unfolding layers layers' by (metis append_Cons)
  then have cc: "concat (engine_layers e') = concat (engine_layers e)" and lok: "layers_ok (engine_layers e')"
    using assms(1) layers_ok_pad unfolding engine_inv_def by (elim disjE; simp)+
  have view: "engine_view e' = engine_view e" using cc by (simp add: engine_view_def fun_eq_iff)
  have "versions_ok e'" using assms(1) cc by (simp add: engine_inv_def versions_ok_def all_runs_def f)
  moreover have "cache_ok e'"
    using f(9) by (auto simp: cache_ok_def lru.coherent_def lru_contents_def lru_new_def lru_inv_def)
  ultimately have inv: "engine_inv hasher e'"
    using assms(1) lo(1) lok v'(2,3) ver(3) same unfolding engine_inv_def f same_tables_def by simp
  have wok: "wal_ok e'" using fsi f by (intro wal_ok_open [of "e_fs e" _ ?dir]) (simp_all add: w_def fs_def)
  have "engine_version e' = v'" by (simp add: engine_version_def f)
  then have "durable zcrc es sq e'" using d v'(4) by (simp add: durable_def f)
  moreover have "write_buffer w = []" by (simp add: w_def wal_open_def split: prod.splits)
  ultimately show ?thesis using that [OF op inv wok] view f lo(4) by simp
qed

section \<open>Writing\<close>

text \<open>
  The state of an engine whose log file still has its name: the records are in the file or
  in the buffer that the next \<open>wal_.flush()\<close> writes.
\<close>

definition running :: "crc \<Rightarrow> wal_entry list \<Rightarrow> uint64 \<Rightarrow> engine \<Rightarrow> bool" where
  "running zcrc es sq e \<longleftrightarrow> log_state zcrc es e \<and> e_imm e = None \<and> e_seq e = next_seq sq es \<and> 0 < next_seq sq es
     \<and> saved_version (e_data_dir e) (e_fs e) (e_flush_counter e) sq (engine_version e)"

lemma durable_running:
  assumes "durable zcrc es sq e" "wal_ok e" "write_buffer (e_wal e) = []"
    and "\<exists>fd. wal_fd (e_wal e) = Some fd \<and> fs_names (e_fs e) (log_path (e_data_dir e)) = Some fd"
  shows "running zcrc es sq e"
proof -
  obtain fd where fd: "wal_fd (e_wal e) = Some fd" "fs_names (e_fs e) (log_path (e_data_dir e)) = Some fd"
    using assms(4) by blast
  then have "log_bytes (e_data_dir e) (e_fs e) = fs_inodes (e_fs e) fd" by (simp add: log_bytes_def fs_read_def)
  then have "fs_inodes (e_fs e) fd @ write_buffer (e_wal e) = concat (map (wal_record zcrc) es)"
    using assms(1,3) unfolding durable_def by simp
  moreover have "wal_inv (e_wal e)" using assms(2) by (simp add: wal_ok_def)
  ultimately have "log_state zcrc es e" using assms(1) fd unfolding durable_def log_state_def by blast
  then show ?thesis using assms(1) unfolding durable_def running_def by blast
qed

lemma write_one_frame:
  assumes "request_ok r"
  shows "e_vm (snd (write_one zcrc r e)) = e_vm e" "e_flush_counter (snd (write_one zcrc r e)) = e_flush_counter e"
    "e_fs (snd (write_one zcrc r e)) = e_fs e" "e_imm (snd (write_one zcrc r e)) = e_imm e"
    "e_data_dir (snd (write_one zcrc r e)) = e_data_dir e" "e_seq (snd (write_one zcrc r e)) = e_seq e + 1"
  by (simp_all add: write_one_eq [OF assms] invalidate_cache_def)

lemma write_one_running:
  assumes "running zcrc es sq e" "request_ok r" "unat (e_seq e) + 1 < 2 ^ 64"
  shows "running zcrc (es @ [request_log r (e_seq e)]) sq (snd (write_one zcrc r e))"
proof -
  have "next_seq sq (es @ [request_log r (e_seq e)]) = e_seq e + 1"
    using assms(1) unfolding request_log_def by (intro next_seq_snoc) (auto simp: running_def)
  moreover have "0 < e_seq e + 1" using seq_less_Suc [OF assms(3), of 0] by simp
  ultimately show ?thesis
    using assms(1) write_one_log [of zcrc es e r] assms(2)
    by (simp add: running_def write_one_frame engine_version_def)
qed

lemma write_batch_running:
  assumes "running zcrc es sq e" "\<forall>r\<in>set rs. request_ok r" "unat (e_seq e) + length rs < 2 ^ 64"
  shows "\<exists>es'. length es' = length es + length rs \<and> running zcrc es' sq (snd (write_batch zcrc rs e))"
  using assms
proof (induction rs arbitrary: e es)
  case (Cons r rs)
  let ?e = "snd (write_one zcrc r e)"
  have r: "request_ok r" "unat (e_seq e) + 1 < 2 ^ 64" using Cons.prems by simp_all
  have "unat (e_seq ?e) = unat (e_seq e) + 1" using unat_seq_Suc [OF r(2)] r(1) by (simp add: write_one_frame)
  then show ?case
    using Cons.IH [OF write_one_running [OF Cons.prems(1) r]] Cons.prems(2,3) by (simp split: prod.splits) (metis snd_conv)
qed auto

lemma wal_flush_other:
  assumes "wal_ok e" "p \<noteq> log_path (e_data_dir e)"
  shows "fs_read p (e_fs (engine_wal_flush e)) = fs_read p (e_fs e)"
proof -
  obtain fd where fd: "wal_fd (e_wal e) = Some fd" "engine_wal_flush e = e\<lparr>e_wal := e_wal (engine_wal_flush e),
     e_fs := (if write_buffer (e_wal e) = [] then e_fs e else fs_append_fd fd (write_buffer (e_wal e)) (e_fs e))\<rparr>"
    using engine_wal_flush_eq [OF assms(1)] by metis
  have "fs_names (e_fs e) p \<noteq> Some fd" using assms fd(1) by (auto simp: wal_ok_def)
  then show ?thesis by (subst fd(2)) (simp add: fs_append_other)
qed

lemma running_flush:
  assumes "running zcrc es sq e" "wal_ok e" "fs_inv (e_fs e)"
  shows "running zcrc es sq (engine_wal_flush e)" "durable zcrc es sq (engine_wal_flush e)"
proof -
  have ls: "log_state zcrc es e" using assms(1) by (simp add: running_def)
  note fl = wal_flush_log [OF ls assms(2,3)]
  note other = wal_flush_other [OF assms(2)]
  have v: "engine_version (engine_wal_flush e) = engine_version e" by (simp add: engine_version_def)
  have sv: "saved_version (e_data_dir e) (e_fs (engine_wal_flush e)) (e_flush_counter e) sq (engine_version e)"
    using saved_version_cong [of "e_data_dir e", OF other] assms(1) by (simp add: running_def)
  show "running zcrc es sq (engine_wal_flush e)" using assms(1) fl(1) sv v by (simp add: running_def)
  show "durable zcrc es sq (engine_wal_flush e)"
    using assms(1) fl(1,3) sv v by (auto simp: running_def durable_def log_bytes_def log_state_def)
qed

section \<open>Lifetimes\<close>

text \<open>
  Batches of the writer thread (applied and flushed to the log, that is, acknowledged) and
  crashes, each followed by a restart on the files that are left.
\<close>

datatype life_event = Batch "write_request list" | Crash

fun live_through :: "crc \<Rightarrow> nat \<Rightarrow> life_event list \<Rightarrow> engine \<Rightarrow> kv_error + engine" where
  "live_through zcrc n [] e = Inr e"
| "live_through zcrc n (Batch rs # evs) e = live_through zcrc n evs (engine_wal_flush (snd (write_batch zcrc rs e)))"
| "live_through zcrc n (Crash # evs) e =
     sum_bind (engine_open zcrc (e_data_dir e) n (e_fs e)) (live_through zcrc n evs)"

fun acknowledged :: "life_event list \<Rightarrow> write_request list" where
  "acknowledged [] = []"
| "acknowledged (Batch rs # evs) = rs @ acknowledged evs"
| "acknowledged (Crash # evs) = acknowledged evs"

lemma live_through_map:
  assumes "engine_inv hasher e" "wal_ok e" "running zcrc es sq e" "durable zcrc es sq e"
    and "\<forall>r\<in>set (acknowledged evs). request_ok r" "unat (e_seq e) + length (acknowledged evs) < 2 ^ 64"
  shows "\<exists>e'. live_through zcrc n evs e = Inr e' \<and> engine_inv hasher e'
     \<and> engine_map e' = fold apply_request (acknowledged evs) (engine_map e)"
  using assms
proof (induction evs arbitrary: e es sq rule: acknowledged.induct)
  case (2 rs evs)
  obtain results e1 where w: "write_batch zcrc rs e = (results, e1)" by fastforce
  have b: "engine_inv hasher e1" "wal_ok e1" "engine_map e1 = fold apply_request rs (engine_map e)"
    "unat (e_seq e1) = unat (e_seq e) + length rs"
    using write_batch_correct [OF "2.prems"(1,2) _ _ w] "2.prems"(5,6) by simp_all
  obtain es' where r: "running zcrc es' sq e1"
    using write_batch_running [OF "2.prems"(3), of rs] "2.prems"(5,6) w by auto
  have fsi: "fs_inv (e_fs e1)" using b(1) by (simp add: engine_inv_def)
  note fl = engine_wal_flush_inv [OF b(1,2)] running_flush [OF r b(2) fsi]
  have "engine_map (engine_wal_flush e1) = engine_map e1"
    using fl(1) by (simp add: engine_map_def engine_view_def fun_eq_iff)
  then show ?case
    using "2.IH" [of "engine_wal_flush e1" es' sq] fl b "2.prems"(5,6) w by simp
next
  case (3 evs)
  obtain e' where e': "engine_open zcrc (e_data_dir e) n (e_fs e) = Inr e'" "engine_inv hasher e'" "wal_ok e'"
    "durable zcrc es sq e'" "engine_view e' = engine_view e" "e_seq e' = e_seq e" "e_data_dir e' = e_data_dir e"
    "\<exists>fd. wal_fd (e_wal e') = Some fd \<and> fs_names (e_fs e') (log_path (e_data_dir e)) = Some fd"
    "write_buffer (e_wal e') = []"
    using restart [OF "3.prems"(1,4)] .
  have "running zcrc es sq e'" using durable_running [OF e'(4,3,9)] e'(7,8) by simp
  moreover have "engine_map e' = engine_map e" using e'(5) by (simp add: engine_map_def fun_eq_iff)
  ultimately show ?case
    using "3.IH" [OF e'(2,3) _ e'(4)] "3.prems"(5,6) e'(1,6) by simp
qed simp

lemma fresh_durable:
  assumes "dir_ok (sst_dir dir)"
  obtains e where "engine_open zcrc dir n fs_empty = Inr e" "engine_inv hasher e" "wal_ok e" "running zcrc [] 1 e"
    "durable zcrc [] 1 e" "engine_map e = Map.empty" "e_seq e = 1"
proof -
  obtain e where e: "engine_open zcrc dir n fs_empty = Inr e" "engine_inv hasher e" "\<And>k. engine_view e k = None"
    "e_data_dir e = dir" "e_mem e = mt_new" "e_imm e = None" "e_seq e = 1"
    "e_fs e = snd (wal_open (log_path dir) fs_empty)" "e_wal e = fst (wal_open (log_path dir) fs_empty)"
    "e_flush_counter e = 0" "current_version (e_vm e) = Some (tv_new\<lparr>tv_levels := resize 4 []\<rparr>)"
    using engine_fresh [OF assms] by metis
  note lo = log_open_reads [where dir = dir, OF fs_inv_empty]
  have wok: "wal_ok e" by (rule wal_ok_open [OF fs_inv_empty e(9,8,4)])
  have "saved_version dir (e_fs e) 0 1 (engine_version e)"
    using lo(3) [of "dir @ ''/metadata.txt''"] by (simp add: saved_version_def e(8) log_path_def engine_version_def e(11) resize_def tv_new_def)
  moreover have "log_bytes dir (e_fs e) = []" using lo(2) by (simp add: e(8) log_bytes_def)
  ultimately have dur: "durable zcrc [] 1 e" using e by (simp add: durable_def next_seq_def)
  have "write_buffer (e_wal e) = []" by (simp add: e(9) wal_open_def split: prod.splits)
  then have "running zcrc [] 1 e" using durable_running [OF dur wok] lo(4) e(4,8,9) by simp
  moreover have "engine_map e = Map.empty" by (simp add: engine_map_def fun_eq_iff e(3))
  ultimately show ?thesis using that [OF e(1,2) wok _ dur _ e(7)] by blast
qed

section \<open>Flush and restart\<close>

definition tables_open :: "engine \<Rightarrow> bool" where
  "tables_open e \<longleftrightarrow>
     (\<forall>m\<in>set (concat (tv_levels (engine_version e))). table_opens (e_data_dir e) (e_fs e) (engine_version e) m)"

lemma saved_tables_open:
  "saved_version (e_data_dir e) (e_fs e) fc sq (engine_version e) \<Longrightarrow> tables_open e"
  by (auto simp: saved_version_def tables_open_def split: option.splits)

lemma table_opens_cong:
  assumes "table_opens dir fs v m" "findSSTableById v' (meta_id m) = findSSTableById v (meta_id m)"
    and "fs_read (table_path dir (meta_id m)) fs' = fs_read (table_path dir (meta_id m)) fs"
  shows "table_opens dir fs' v' m"
  using assms by (simp add: table_opens_def sst_open_def)

text \<open>A table whose range can be written to \<open>levels.txt\<close>.\<close>

definition word_range :: "(string \<times> entry) list \<Rightarrow> bool" where
  "word_range es \<longleftrightarrow> wordlike (fst (hd es)) \<and> wordlike (fst (last es))"

lemma flush_turn_saved:
  assumes "engine_inv hasher e" "e_imm e = Some t" "small_run (mt_snapshot t)" "mt_snapshot t \<noteq> []"
    and "unat (e_flush_counter e) + 1 < 2 ^ 64" "tables_open e" "word_range (mt_snapshot t)"
    and "flush_turn hasher e = Inr e'"
  shows "saved_version (e_data_dir e') (e_fs e') (e_flush_counter e') (e_seq e) (engine_version e')"
proof -
  let ?fc = "e_flush_counter e + 1" and ?es = "mt_snapshot t" and ?dir = "e_data_dir e"
  obtain v' fs1 bs where turn: "flush_turn hasher e = Inr ((clear_cache e)\<lparr>e_flush_pending := False,
       e_flush_counter := ?fc, e_vm := installVersion v' (e_vm e),
       e_fs := saveMetadata ?dir ?fc (e_seq e) v' fs1, e_compaction_needed := True, e_imm := None\<rparr>)"
    "fs1 = fs_write_file (sst_name (engine_dir e) ?fc) bs (e_fs e)"
    and find: "\<exists>tab. sst_open (sst_name (engine_dir e) ?fc) fs1 = Inr tab
       \<and> findSSTableById v' = (findSSTableById (engine_version e))(?fc \<mapsto> tab)"
    and lset: "\<exists>z. set (concat (tv_levels v')) = insert (new_meta ?fc 0 ?es (e_seq e) z)
       (set (concat (tv_levels (engine_version e))))"
    using flush_turn_result [OF assms(1-5)] .
  have f: "e_data_dir e' = ?dir" "e_flush_counter e' = ?fc" "engine_version e' = v'"
    "e_fs e' = saveMetadata ?dir ?fc (e_seq e) v' fs1"
    using turn(1) assms(8) by (auto simp: engine_version_def installVersion_def clear_cache_def)
  have fsi: "fs_inv (e_fs e)" "fs_inv fs1" using assms(1) turn(2) by (simp_all add: engine_inv_def)
  note saved = fs_read_saved [OF fsi(2) f(4)]
  have same: "fs_read (table_path ?dir i) (e_fs e') = fs_read (table_path ?dir i) fs1" for i
    using saved(4) by (simp add: table_path_def)
  obtain tab z where tab: "sst_open (table_path ?dir ?fc) fs1 = Inr tab"
    "findSSTableById v' = (findSSTableById (engine_version e))(?fc \<mapsto> tab)"
    and z: "set (concat (tv_levels v')) = insert (new_meta ?fc 0 ?es (e_seq e) z) (set (concat (tv_levels (engine_version e))))"
    using find lset unfolding table_path_name by blast
  have "table_opens ?dir (e_fs e') v' m" if m: "m \<in> set (concat (tv_levels v'))" for m
  proof (cases "m = new_meta ?fc 0 ?es (e_seq e) z")
    case True
    then have "sst_open (table_path ?dir (meta_id m)) (e_fs e') = Inr tab"
      using tab(1) same by (simp add: new_meta_def sst_open_def)
    then show ?thesis using True assms(7) tab(2) by (simp add: table_opens_def new_meta_def meta_saved_def word_range_def)
  next
    case False
    then have old: "m \<in> set (concat (tv_levels (engine_version e)))" using m z by blast
    then have ne: "meta_id m \<noteq> ?fc"
      using engine_inv_version(3) [OF assms(1)] counter_fresh(1) [OF assms(5)] unfolding tv_ids_def by blast
    then have "fs_read (table_path ?dir (meta_id m)) fs1 = fs_read (table_path ?dir (meta_id m)) (e_fs e)"
      using fsi(1) by (simp add: turn(2) table_path_name sst_name_eq)
    moreover have "table_opens ?dir (e_fs e) (engine_version e) m" using old assms(6) unfolding tables_open_def by blast
    ultimately show ?thesis
      using table_opens_cong [of ?dir "e_fs e" "engine_version e" m v' "e_fs e'"] ne tab(2) same by simp
  qed
  then show ?thesis using saved(2,3) by (simp add: saved_version_def f(1-3))
qed

lemma flush_durable:
  assumes "engine_inv hasher e" "wal_ok e" "e_imm e = None" "\<not> e_shutdown e" "small_run (mt_snapshot (e_mem e))"
    and "mt_snapshot (e_mem e) \<noteq> []" "unat (e_flush_counter e) + 1 < 2 ^ 64" "tables_open e"
    and "word_range (mt_snapshot (e_mem e))" "0 < e_seq e"
  obtains e1 e2 where "engine_flush e = Some e1" "flush_turn hasher e1 = Inr e2" "engine_inv hasher e2" "wal_ok e2"
    "durable zcrc [] (e_seq e) e2" "engine_view e2 = engine_view e" "e_seq e2 = e_seq e" "e_data_dir e2 = e_data_dir e"
    "fs_read (log_path (e_data_dir e)) (e_fs e2) = None"
proof -
  let ?dir = "e_data_dir e"
  obtain e1 where e1: "checkFlush True e = Some e1" using checkFlush_total assms(3) by blast
  have copy: "mt_copy_into (mt_snapshot (e_mem e)) mt_new = e_mem e"
    using assms(1) by (intro mt_copy_snapshot) (simp add: engine_inv_def)
  have f1: "e_imm e1 = Some (e_mem e)" "e_mem e1 = mt_new" "e_flush_counter e1 = e_flush_counter e" "e_vm e1 = e_vm e"
    "e_fs e1 = fs_remove (log_path ?dir) (e_fs (engine_wal_flush e))" "e_data_dir e1 = ?dir"
    using e1 assms(3,4) copy by (auto simp: checkFlush_def Let_def mt_clear_def mt_new_def)
  have c: "engine_inv hasher e1" "wal_ok e1" "engine_view e1 = engine_view e" "e_seq e1 = e_seq e"
    using checkFlush_correct [OF assms(1,2) e1] by simp_all
  have rd: "fs_read (table_path ?dir i) (e_fs e1) = fs_read (table_path ?dir i) (e_fs e)" for i
    using wal_flush_other [OF assms(2), of "table_path ?dir i"] by (simp add: f1(5) table_path_def log_path_def)
  have "engine_version e1 = engine_version e" by (simp add: engine_version_def f1(4))
  then have "tables_open e1"
    using assms(8) table_opens_cong [OF _ refl rd] unfolding tables_open_def f1(6) by auto
  obtain e2 where e2: "flush_turn hasher e1 = Inr e2" "engine_inv hasher e2" "wal_ok e2" "engine_view e2 = engine_view e1"
    "e_imm e2 = None" "e_mem e2 = e_mem e1" "e_seq e2 = e_seq e1" "e_data_dir e2 = e_data_dir e1"
    "fs_read (log_path (e_data_dir e1)) (e_fs e2) = fs_read (log_path (e_data_dir e1)) (e_fs e1)"
    using flush_turn_correct [OF c(1,2) f1(1) assms(5) assms(7) [folded f1(3)]] by metis
  have "saved_version ?dir (e_fs e2) (e_flush_counter e2) (e_seq e) (engine_version e2)"
    using flush_turn_saved [OF c(1) f1(1) assms(5,6) assms(7) [folded f1(3)] \<open>tables_open e1\<close> assms(9) e2(1)] e2(8) f1(6) c(4) by simp
  moreover have log: "fs_read (log_path ?dir) (e_fs e2) = None" using e2(9) by (simp add: f1(5,6))
  ultimately have "durable zcrc [] (e_seq e) e2"
    using e2(5-8) f1(2,6) c(4) assms(10) by (simp add: durable_def next_seq_def log_bytes_def)
  then show ?thesis using that [of e1 e2] e1 e2 c(3,4) f1(6) log unfolding engine_flush_def by simp
qed

section \<open>After the log was unlinked\<close>

lemma unlinked_flush_reads:
  assumes "wal_ok e" "fs_read (log_path (e_data_dir e)) (e_fs e) = None"
  shows "fs_read p (e_fs (engine_wal_flush e)) = fs_read p (e_fs e)"
proof (cases "p = log_path (e_data_dir e)")
  case True
  obtain fd where "engine_wal_flush e = e\<lparr>e_wal := e_wal (engine_wal_flush e),
     e_fs := (if write_buffer (e_wal e) = [] then e_fs e else fs_append_fd fd (write_buffer (e_wal e)) (e_fs e))\<rparr>"
    using engine_wal_flush_eq [OF assms(1)] by metis
  note fl = this
  have "fs_names (e_fs (engine_wal_flush e)) = fs_names (e_fs e)" by (subst fl) (simp add: fs_append_fd_def)
  with assms(2) True show ?thesis by (simp add: fs_read_def)
qed (rule wal_flush_other [OF assms(1)])

text \<open>What a restart sees depends on the files only.\<close>

lemma restart_files:
  assumes "engine_inv hasher e" "durable zcrc es sq e" "fs_inv fs" "\<And>p. fs_read p fs = fs_read p (e_fs e)"
  obtains e' where "engine_open zcrc (e_data_dir e) n fs = Inr e'" "engine_inv hasher e'" "engine_view e' = engine_view e"
proof -
  let ?e = "e\<lparr>e_fs := fs\<rparr>"
  have same: "same_tables (engine_dir e) (e_fs e) (e_fs ?e)" using assms(4) by (simp add: same_tables_def)
  have "engine_inv hasher ?e \<and> engine_layers ?e = engine_layers e"
    by (rule engine_inv_frame [OF assms(1) same]) (simp_all add: assms(3))
  moreover have "durable zcrc es sq ?e"
    using assms(2,4) saved_version_cong [of "e_data_dir e" fs "e_fs e"]
    by (simp add: durable_def log_bytes_def engine_version_def)
  ultimately show ?thesis
    using restart [of hasher ?e zcrc es sq n] that by (auto simp: engine_view_def fun_eq_iff)
qed

text \<open>The states in which the claims on flush and restart apply.\<close>

definition flush_applies :: "(string \<Rightarrow> uint64) \<Rightarrow> engine \<Rightarrow> bool" where
  "flush_applies hasher e \<longleftrightarrow> engine_inv hasher e \<and> wal_ok e \<and> e_imm e = None \<and> \<not> e_shutdown e
     \<and> small_run (mt_snapshot (e_mem e)) \<and> mt_snapshot (e_mem e) \<noteq> [] \<and> unat (e_flush_counter e) + 1 < 2 ^ 64
     \<and> tables_open e \<and> word_range (mt_snapshot (e_mem e)) \<and> 0 < e_seq e"

lemma one_key_flush_applies:
  obtains e where "flush_applies (\<lambda>s. 0) e" "e_seq e = 2" "engine_map e = [''k'' \<mapsto> ''v'']" "e_data_dir e = ''d''"
proof -
  have d: "dir_ok (sst_dir ''d'')" by (rule dir_ok_no_dot) (simp add: sst_dir_def)
  obtain e0 where e0: "engine_open (\<lambda>c b. c) ''d'' 3 fs_empty = Inr e0" "engine_inv (\<lambda>s. 0) e0" "\<And>k. engine_view e0 k = None"
    "e_data_dir e0 = ''d''" "e_mem e0 = mt_new" "e_imm e0 = None" "e_seq e0 = 1" "\<not> e_shutdown e0" "e_flush_counter e0 = 0"
    using engine_fresh [OF d, of "\<lambda>c b. c" 3 "\<lambda>s. 0"] by metis
  have wok: "wal_ok e0" and run: "running (\<lambda>c b. c) [] 1 e0"
    using fresh_durable [OF d, of "\<lambda>c b. c" 3 "\<lambda>s. 0"] e0(1) by (metis sum.inject(2))+
  have ok: "request_ok sample_request" by (simp add: sample_request_def request_ok_def)
  define e where "e = snd (write_one (\<lambda>c b. c) sample_request e0)"
  have b: "unat (e_seq e0) + 1 < 2 ^ 64" using e0(7) by simp
  note w = write_one_correct [OF e0(2) wok ok b e_def]
  have snap: "mt_snapshot (e_mem e) = [(''k'', request_entry sample_request 1)]"
    unfolding e_def write_one_eq [OF ok]
    by (simp add: invalidate_cache_def mt_snapshot_def e0(5,7) mt_new_def sample_request_def)
  have "tables_open e"
    using write_one_running [OF run ok b] saved_tables_open unfolding running_def e_def by blast
  moreover have "small_run (mt_snapshot (e_mem e))" "word_range (mt_snapshot (e_mem e))"
    by (simp_all add: snap small_run_def sst_record_def word_range_def wordlike_def is_space_def request_entry_def sample_request_def)
  moreover have "e_flush_counter e = 0" unfolding e_def by (simp add: write_one_frame [OF ok] e0(9))
  ultimately have "flush_applies (\<lambda>s. 0) e"
    using w e0 snap by (simp add: flush_applies_def)
  moreover have "engine_map e = [''k'' \<mapsto> ''v'']"
    by (auto simp: fun_eq_iff engine_map_def w(3) e0(3) request_entry_def sample_request_def)
  ultimately show ?thesis using that w(4,8) e0(4,7) by simp
qed

section \<open>Properties\<close>

text \<open>
  Acknowledged writes survive crashes.  Take a new engine and any sequence of
  acknowledged batches and crashes during which no memtable is handed over.  Every restart
  comes up, satisfies the invariant of the engine, and readers see exactly the map that the
  acknowledged puts and deletes build, in their order.
\<close>

lemma acknowledged_writes_survive:
  assumes "dir_ok (sst_dir dir)" "\<forall>r\<in>set (acknowledged evs). request_ok r" "length (acknowledged evs) + 1 < 2 ^ 64"
  shows "\<exists>e. sum_bind (engine_open zcrc dir n fs_empty) (live_through zcrc n evs) = Inr e \<and> engine_inv hasher e
     \<and> engine_map e = fold apply_request (acknowledged evs) Map.empty"
proof -
  obtain e0 where "engine_open zcrc dir n fs_empty = Inr e0" "engine_inv hasher e0" "wal_ok e0" "running zcrc [] 1 e0"
    "durable zcrc [] 1 e0" "engine_map e0 = Map.empty" "e_seq e0 = 1"
    using fresh_durable [OF assms(1)] .
  with live_through_map [OF this(2-5) assms(2)] assms(3) show ?thesis by simp
qed

lemma acknowledged_writes_survive_example:
  "\<exists>e. sum_bind (engine_open (\<lambda>c b. c) ''d'' 3 fs_empty)
         (live_through (\<lambda>c b. c) 3 [Batch [sample_request], Crash, Batch [sample_request\<lparr>wr_key := ''j''\<rparr>], Crash]) = Inr e
     \<and> engine_map e ''k'' = Some ''v'' \<and> engine_map e ''j'' = Some ''v''"
proof -
  have d: "dir_ok (sst_dir ''d'')" by (rule dir_ok_no_dot) (simp add: sst_dir_def)
  show ?thesis
    using acknowledged_writes_survive [OF d, of "[Batch [sample_request], Crash, Batch [sample_request\<lparr>wr_key := ''j''\<rparr>], Crash]"
        "\<lambda>c b. c" 3 "\<lambda>s. 0"]
    by (auto simp: request_ok_def sample_request_def apply_request_def)
qed



text \<open>
  C18: writes after a flush are lost in a crash.  The hand-over removes the log file by
  name, but the engine keeps appending to the descriptor it opened at the start.  A write
  that is acknowledged after a flush is visible to readers, its record has been written and
  synchronised, and still no file holds it: after a crash, the restarted engine has the map
  from before that write.
\<close>

theorem write_after_flush_lost:
  assumes "flush_applies hasher e" "request_ok r" "unat (e_seq e) + 1 < 2 ^ 64"
  shows "\<exists>e1 e2 e3 e4. engine_flush e = Some e1 \<and> flush_turn hasher e1 = Inr e2
     \<and> write_batch zcrc [r] e2 = ([(wr_completion r, True)], e3)
     \<and> engine_map (engine_wal_flush e3) = apply_request r (engine_map e)
     \<and> engine_open zcrc (e_data_dir e) n (e_fs (engine_wal_flush e3)) = Inr e4 \<and> engine_map e4 = engine_map e"
proof -
  obtain e1 e2 where e2: "engine_flush e = Some e1" "flush_turn hasher e1 = Inr e2" "engine_inv hasher e2" "wal_ok e2"
    "durable zcrc [] (e_seq e) e2" "engine_view e2 = engine_view e" "e_seq e2 = e_seq e" "e_data_dir e2 = e_data_dir e"
    "fs_read (log_path (e_data_dir e)) (e_fs e2) = None"
    using flush_durable [of hasher e zcrc] assms(1) unfolding flush_applies_def by metis
  define e3 where "e3 = snd (write_one zcrc r e2)"
  have b: "unat (e_seq e2) + 1 < 2 ^ 64" using assms(3) e2(7) by simp
  note w = write_one_correct [OF e2(3,4) assms(2) b e3_def]
  note fl = engine_wal_flush_inv [OF w(1,2)]
  have batch: "write_batch zcrc [r] e2 = ([(wr_completion r, True)], e3)"
    by (simp add: e3_def write_one_eq [OF assms(2)])
  have "engine_map (engine_wal_flush e3) = engine_map e3"
    using fl by (simp add: engine_map_def engine_view_def fun_eq_iff)
  moreover have "engine_map e3 = apply_request r (engine_map e2)"
    using write_one_map [OF e2(3,4) assms(2) b] by (simp add: e3_def)
  moreover have "engine_map e2 = engine_map e" using e2(6) by (simp add: engine_map_def fun_eq_iff)
  moreover have "fs_read p (e_fs (engine_wal_flush e3)) = fs_read p (e_fs e2)" for p
    using unlinked_flush_reads [OF w(2)] w(5,8) e2(8,9) by simp
  moreover have "fs_inv (e_fs (engine_wal_flush e3))" using fl by (simp add: engine_inv_def)
  ultimately obtain e4 where "engine_open zcrc (e_data_dir e2) n (e_fs (engine_wal_flush e3)) = Inr e4"
    "engine_view e4 = engine_view e2"
    using restart_files [OF e2(3,5)] by metis
  then show ?thesis
    using e2 batch \<open>engine_map (engine_wal_flush e3) = engine_map e3\<close> \<open>engine_map e3 = apply_request r (engine_map e2)\<close>
      \<open>engine_map e2 = engine_map e\<close>
    by (intro exI [of _ e1] exI [of _ e2] exI [of _ e3] exI [of _ e4]) (simp add: engine_map_def fun_eq_iff)
qed

theorem write_after_flush_lost_witness:
  "\<exists>e1 e2 e3 e4. flush_turn (\<lambda>s. 0) e1 = Inr e2
     \<and> write_batch (\<lambda>c b. c) [sample_request\<lparr>wr_key := ''j''\<rparr>] e2 = ([(4, True)], e3)
     \<and> engine_map (engine_wal_flush e3) ''j'' = Some ''v''
     \<and> engine_open (\<lambda>c b. c) ''d'' 3 (e_fs (engine_wal_flush e3)) = Inr e4 \<and> engine_map e4 ''j'' = None"
proof -
  obtain e where e: "flush_applies (\<lambda>s. 0) e" "e_seq e = 2" "engine_map e = [''k'' \<mapsto> ''v'']" "e_data_dir e = ''d''"
    using one_key_flush_applies by metis
  let ?r = "sample_request\<lparr>wr_key := ''j''\<rparr>"
  have r: "request_ok ?r" "wr_completion ?r = 4" "wr_key ?r = ''j''" "wr_op ?r = Op_PUT" "wr_value ?r = ''v''"
    by (simp_all add: sample_request_def request_ok_def)
  have b: "unat (e_seq e) + 1 < 2 ^ 64" using e(2) by simp
  obtain e1 e2 e3 e4 where x: "flush_turn (\<lambda>s. 0) e1 = Inr e2" "write_batch (\<lambda>c b. c) [?r] e2 = ([(4, True)], e3)"
    "engine_map (engine_wal_flush e3) = apply_request ?r (engine_map e)"
    "engine_open (\<lambda>c b. c) ''d'' 3 (e_fs (engine_wal_flush e3)) = Inr e4" "engine_map e4 = engine_map e"
    using write_after_flush_lost [OF e(1) r(1) b, of "\<lambda>c b. c" 3] unfolding r(2) e(4) by blast
  have "engine_map (engine_wal_flush e3) ''j'' = Some ''v''" by (simp add: x(3) apply_request_def r)
  moreover have "engine_map e4 ''j'' = None" by (simp add: x(5) e(3))
  ultimately show ?thesis using x by blast
qed

end
