(* ===== verification/Engine_Compaction.thy ===== *)
theory Engine_Compaction
  imports Engine_Recovery
begin

text \<open>
  Compaction.  Both kinds take tables of a level and the overlapping tables of the next one,
  merge them and replace them by one table of the next level.  The invariant of the reads is
  kept: the new table does not overlap what stays on its level, and no younger layer gets an
  older version.  Readers see the same keys and values, provided that no deeper level holds
  a version of a key whose newest merged version is a tombstone: the merge drops such
  tombstones wherever it runs.
\<close>

section \<open>Views\<close>

text \<open>Replacing the runs \<open>T\<close> by their merge \<open>m\<close>, with \<open>U\<close> above and \<open>R\<close>, \<open>D\<close> beside and below.\<close>

lemma compact_view:
  assumes "older_than U T" "\<And>k. map_of m k = live (newest T k)" "\<And>k. newest T k \<noteq> None \<Longrightarrow> newest R k = None"
    and "\<And>k x. newest T k = Some x \<Longrightarrow> ent_type x \<noteq> Et_PUT \<Longrightarrow> newest D k = None"
  shows "live (newest (U @ [m] @ R @ D) k) = live (newest (U @ T @ R @ D) k)"
proof (cases "newest T k")
  case None
  then show ?thesis using assms(2) [of k] by (simp add: newest_append)
next
  case (Some x)
  show ?thesis
  proof (cases "ent_type x = Et_PUT")
    case True
    with Some show ?thesis using assms(2) [of k] by (simp add: newest_append)
  next
    case False
    have "newest R k = None" "newest D k = None" using assms(3,4) Some False by auto
    moreover have "newer (newest U k) (Some x) = newest U k" if "newest U k \<noteq> None"
      using newer_older [OF assms(1) that] Some by simp
    ultimately show ?thesis
      using assms(2) [of k] Some False by (cases "newest U k") (auto simp: newest_append)
  qed
qed

lemma live_newest_set:
  assumes "runs_agree rs" "set rs' = set rs"
  shows "live (newest rs' k) = live (newest rs k)"
  using newest_set [OF assms] by simp

text \<open>Versions that come from older runs do not break agreement and order.\<close>

definition covered :: "(string \<times> entry) list list \<Rightarrow> (string \<times> entry) list list \<Rightarrow> bool" where
  "covered A B \<longleftrightarrow> (\<forall>r\<in>set A. \<forall>k x. map_of r k = Some x \<longrightarrow> (\<exists>r'\<in>set B. map_of r' k = Some x))"

lemma covered_agree: "covered A B \<Longrightarrow> runs_agree B \<Longrightarrow> runs_agree A"
  unfolding covered_def runs_agree_def by meson

lemma covered_older: "covered A A' \<Longrightarrow> covered B B' \<Longrightarrow> older_than A' B' \<Longrightarrow> older_than A B"
  unfolding covered_def older_than_def by meson

lemma covered_subset: "set A \<subseteq> set B \<Longrightarrow> covered A B"
  unfolding covered_def by blast

lemma covered_merge:
  assumes "\<And>k. map_of m k = live (newest T k)"
  shows "covered [m] T"
proof -
  have "\<exists>r\<in>set T. map_of r k = Some x" if "map_of m k = Some x" for k x
  proof -
    have "newest T k = Some x" using that assms [of k] by (cases "newest T k") (auto split: if_splits)
    then show ?thesis by (rule newest_mem)
  qed
  then show ?thesis by (simp add: covered_def)
qed

lemma covered_trans: "covered A B \<Longrightarrow> covered B C \<Longrightarrow> covered A C"
  unfolding covered_def by meson

lemma covered_Un:
  assumes "set A \<subseteq> set A1 \<union> set A2" "covered A1 B" "covered A2 B"
  shows "covered A B"
  unfolding covered_def
proof (intro ballI allI impI)
  fix r k x assume r: "r \<in> set A" "map_of r k = Some x"
  then have "r \<in> set A1 \<or> r \<in> set A2" using assms(1) by blast
  then show "\<exists>r'\<in>set B. map_of r' k = Some x" using r(2) assms(2,3) unfolding covered_def by blast
qed

lemma older_union: "older_than A B \<Longrightarrow> older_than A C \<Longrightarrow> older_than A (B @ C)"
  "older_than B A \<Longrightarrow> older_than C A \<Longrightarrow> older_than (B @ C) A"
  unfolding older_than_def by auto

section \<open>Levels by number\<close>

lemma level_of_update: "level_of (ls[i := x]) j = (if j = i \<and> i < length ls then x else level_of ls j)"
  by (auto simp: level_of_def)

lemma level_of_map_filter: "level_of (map (filter P) ls) j = filter P (level_of ls j)"
  by (simp add: level_of_def)

lemma level_of_nth: "j < length ls \<Longrightarrow> ls ! j = level_of ls j"
  by (simp add: level_of_def)

lemma level_of_append:
  assumes "ls = resize (max (length xs) (Suc l)) xs"
  shows "level_of (ls[l := ls ! l @ [m]]) j = level_of xs j @ (if j = l then [m] else [])"
proof -
  have "l < length ls" by (simp add: assms resize_def)
  moreover have "level_of ls j = level_of xs j" for j by (simp add: assms level_of_resize)
  ultimately show ?thesis by (simp add: level_of_update level_of_nth)
qed

lemma in_concat_level: "x \<in> set (concat ls) \<longleftrightarrow> (\<exists>j. x \<in> set (level_of ls j))"
  by (fastforce simp: level_of_def in_set_conv_nth split: if_splits)

lemma level_in_concat: "x \<in> set (level_of ls j) \<Longrightarrow> x \<in> set (concat ls)"
  using in_concat_level [of x ls] by auto

lemma concat_in_level: "x \<in> set (concat ls) \<Longrightarrow> \<exists>j. x \<in> set (level_of ls j)"
  using in_concat_level [of x ls] by auto

lemma distinct_level:
  assumes "distinct (map f (concat ls))"
  shows "distinct (map f (level_of ls j))"
proof (cases "j < length ls")
  case True
  then have "ls = take j ls @ ls ! j # drop (Suc j) ls" by (rule id_take_nth_drop)
  then have "map f (concat ls) = map f (concat (take j ls)) @ map f (ls ! j) @ map f (concat (drop (Suc j) ls))"
    by (metis concat.simps(2) concat_append map_append)
  with assms True show ?thesis by (simp add: level_of_def)
qed (simp add: level_of_def)

lemma layers_by_level:
  "layers_ok (A # B # map (map f) ls) \<longleftrightarrow> runs_agree (A @ B @ concat (map (map f) ls)) \<and> older_than A B
     \<and> (\<forall>j. older_than (A @ B) (map f (level_of ls j)))
     \<and> (\<forall>i j. i < j \<longrightarrow> older_than (map f (level_of ls i)) (map f (level_of ls j)))"
proof -
  have none: "older_than C []" "older_than [] C" for C by (simp_all add: older_than_def)
  have "sorted_wrt older_than (map (map f) ls) \<longleftrightarrow>
      (\<forall>i j. i < j \<longrightarrow> older_than (map f (level_of ls i)) (map f (level_of ls j)))"
    using none by (auto simp: sorted_wrt_iff_nth_less level_of_def)
  moreover have "(\<forall>C\<in>set (map (map f) ls). older_than A' C) \<longleftrightarrow> (\<forall>j. older_than A' (map f (level_of ls j)))" for A'
    using none by (auto simp: level_of_def all_set_conv_all_nth)
  moreover have "older_than (A @ B) C \<longleftrightarrow> older_than A C \<and> older_than B C" for C
    by (simp add: older_than_def ball_Un)
  ultimately show ?thesis by (auto simp: layers_ok_def)
qed

section \<open>What a compaction takes\<close>

abbreviation elev :: "engine \<Rightarrow> nat \<Rightarrow> sstable_meta list" where
  "elev e \<equiv> level_of (tv_levels (engine_version e))"

abbreviation erun :: "engine \<Rightarrow> sstable_meta \<Rightarrow> (string \<times> entry) list" where
  "erun e \<equiv> run_of (e_fs e) (engine_version e)"

text \<open>
  The tables \<open>T\<close> of levels \<open>l\<close> and \<open>l + 1\<close>: on the next level exactly those that overlap a
  range around the tables taken from level \<open>l\<close>; from level 0 all tables.
\<close>

definition taken :: "engine \<Rightarrow> nat \<Rightarrow> sstable_meta list \<Rightarrow> bool" where
  "taken e l T \<longleftrightarrow> set T \<subseteq> set (elev e l) \<union> set (elev e (Suc l)) \<and> (l = 0 \<longrightarrow> set (elev e 0) \<subseteq> set T)
     \<and> (\<exists>mn mx. (\<forall>m\<in>set T \<inter> set (elev e l). mn \<le> minKey m \<and> maxKey m \<le> mx)
          \<and> (\<forall>m\<in>set (elev e (Suc l)). m \<in> set T \<longleftrightarrow> overlaps mn mx m))"

text \<open>No level below the target holds a version of a key that the merge drops.\<close>

definition no_older_below :: "engine \<Rightarrow> nat \<Rightarrow> sstable_meta list \<Rightarrow> bool" where
  "no_older_below e l T \<longleftrightarrow> (\<forall>k x. newest (map (erun e) T) k = Some x \<longrightarrow> ent_type x \<noteq> Et_PUT \<longrightarrow>
     (\<forall>j>Suc l. \<forall>m\<in>set (elev e j). k \<notin> fst ` set (erun e m)))"

lemma elev_meta_ok:
  "engine_inv hasher e \<Longrightarrow> m \<in> set (elev e j) \<Longrightarrow> meta_ok hasher (e_fs e) (engine_version e) m"
  using engine_inv_version(2) [of hasher e] level_in_concat [of m] unfolding version_ok_def by blast

lemma elev_disjoint:
  assumes "engine_inv hasher e" "j \<noteq> 0"
  shows "disjoint_level (elev e j)"
  using engine_inv_version(2) [OF assms(1)] assms(2)
  by (cases "j < length (tv_levels (engine_version e))") (auto simp: version_ok_def level_of_def disjoint_level_def)

lemma disjoint_level_pair:
  assumes "disjoint_level ms" "a \<in> set ms" "b \<in> set ms" "a \<noteq> b"
  shows "maxKey a < minKey b \<or> maxKey b < minKey a"
proof -
  obtain i j where ij: "i < length ms" "ms ! i = a" "j < length ms" "ms ! j = b"
    using assms(2,3) unfolding in_set_conv_nth by blast
  with assms(4) have "i \<noteq> j" by blast
  with ij show ?thesis
    using assms(1) unfolding disjoint_level_def sorted_wrt_iff_nth_less by (metis linorder_neqE_nat)
qed

lemma disjoint_no_common_key:
  assumes "meta_ok hasher fs v a" "meta_ok hasher fs v b" "maxKey a < minKey b \<or> maxKey b < minKey a"
    and "k \<in> fst ` set (run_of fs v a)"
  shows "k \<notin> fst ` set (run_of fs v b)"
proof
  assume "k \<in> fst ` set (run_of fs v b)"
  then have "minKey b \<le> k" "k \<le> maxKey b" using meta_ok_run(6) [OF assms(2)] by auto
  moreover have "minKey a \<le> k" "k \<le> maxKey a" using meta_ok_run(6) [OF assms(1)] assms(4) by auto
  ultimately show False using assms(3) by (meson leD le_less_trans less_le_trans)
qed

text \<open>A table that stays on the next level lies on one side of everything that is taken.\<close>

lemma kept_beside:
  assumes "engine_inv hasher e" "taken e l T" "a \<in> set (elev e (Suc l))" "a \<notin> set T"
  shows "(\<forall>m\<in>set T. \<forall>k\<in>fst ` set (erun e m). maxKey a < k) \<or> (\<forall>m\<in>set T. \<forall>k\<in>fst ` set (erun e m). k < minKey a)"
proof -
  obtain mn mx where r: "\<forall>m\<in>set T \<inter> set (elev e l). mn \<le> minKey m \<and> maxKey m \<le> mx"
    "\<forall>m\<in>set (elev e (Suc l)). m \<in> set T \<longleftrightarrow> overlaps mn mx m"
    and sub: "set T \<subseteq> set (elev e l) \<union> set (elev e (Suc l))"
    using assms(2) by (auto simp: taken_def)
  note ok = elev_meta_ok [OF assms(1)]
  have range: "minKey m \<le> k \<and> k \<le> maxKey m" if "m \<in> set T" "k \<in> fst ` set (erun e m)" for m k
    using meta_ok_run(6) [OF ok that(2)] that(1) sub ok by blast
  have pair: "maxKey a < minKey m \<or> maxKey m < minKey a" if "m \<in> set T" "m \<in> set (elev e (Suc l))" for m
    using disjoint_level_pair [OF elev_disjoint [OF assms(1)] assms(3) that(2)] that(1) assms(4) by auto
  have a: "minKey a \<le> maxKey a" using meta_ok_run(7) [OF ok [OF assms(3)]] .
  have "maxKey a < mn \<or> mx < minKey a" using r(2) assms(3,4) by (auto simp: overlaps_def)
  then show ?thesis
  proof
    assume low: "maxKey a < mn"
    have "maxKey a < minKey m" if m: "m \<in> set T" for m
    proof (cases "m \<in> set (elev e l)")
      case True
      then show ?thesis using r(1) m low by (meson IntI less_le_trans)
    next
      case False
      then have m': "m \<in> set (elev e (Suc l))" using sub m by blast
      then have "mn \<le> maxKey m" using r(2) m by (auto simp: overlaps_def not_less)
      then have "minKey a \<le> maxKey m" using a low by (meson le_less_trans less_imp_le less_le_trans)
      then show ?thesis using pair [OF m m'] by (meson leD)
    qed
    then show ?thesis using range by (meson less_le_trans)
  next
    assume high: "mx < minKey a"
    have "maxKey m < minKey a" if m: "m \<in> set T" for m
    proof (cases "m \<in> set (elev e l)")
      case True
      then show ?thesis using r(1) m high by (meson IntI le_less_trans)
    next
      case False
      then have m': "m \<in> set (elev e (Suc l))" using sub m by blast
      then have "minKey m \<le> mx" using r(2) m by (auto simp: overlaps_def not_less)
      then have "minKey m \<le> maxKey a" using a high by (meson le_less_trans less_imp_le less_le_trans)
      then show ?thesis using pair [OF m m'] by (meson leD)
    qed
    then show ?thesis using range by (meson le_less_trans)
  qed
qed

lemma taken_iff:
  assumes "engine_inv hasher e" "taken e l T" "a \<in> set (elev e j)"
  shows "meta_id a \<in> meta_id ` set T \<longleftrightarrow> a \<in> set T"
proof -
  have "distinct (map meta_id (concat (tv_levels (engine_version e))))"
    using engine_inv_version(5) [OF assms(1)] by (simp add: tv_wf_def)
  then have inj: "inj_on meta_id (set (concat (tv_levels (engine_version e))))" by (simp only: distinct_map)
  have "set T \<subseteq> set (concat (tv_levels (engine_version e)))"
    using assms(2) level_in_concat unfolding taken_def by fast
  then show ?thesis using inj_on_image_mem_iff [OF inj level_in_concat [OF assms(3)]] by simp
qed

section \<open>The version a compaction installs\<close>

lemma disjoint_sort:
  assumes "distinct xs" "\<And>a. a \<in> set xs \<Longrightarrow> minKey a \<le> maxKey a"
    and "\<And>a b. a \<in> set xs \<Longrightarrow> b \<in> set xs \<Longrightarrow> a \<noteq> b \<Longrightarrow> maxKey a < minKey b \<or> maxKey b < minKey a"
  shows "disjoint_level (sort_key minKey xs)"
  unfolding disjoint_level_def sorted_wrt_iff_nth_less
proof (intro allI impI)
  let ?ys = "sort_key minKey xs"
  fix i j assume ij: "i < j" "j < length ?ys"
  have in_xs: "?ys ! i \<in> set xs" "?ys ! j \<in> set xs"
    using ij nth_mem [of i ?ys] nth_mem [of j ?ys] by auto
  have "distinct ?ys" using assms(1) by simp
  then have ne: "?ys ! i \<noteq> ?ys ! j" using ij by (simp add: nth_eq_iff_index_eq)
  have "sorted (map minKey ?ys)" by simp
  then have "minKey (?ys ! i) \<le> minKey (?ys ! j)"
    using ij sorted_nth_mono [of "map minKey ?ys" i j] by simp
  then have "minKey (?ys ! i) \<le> maxKey (?ys ! j)" using assms(2) [OF in_xs(2)] by (rule order_trans)
  then show "maxKey (?ys ! i) < minKey (?ys ! j)" using assms(3) [OF in_xs ne] by (meson leD)
qed

definition sort_level :: "nat \<Rightarrow> table_version \<Rightarrow> sstable_meta list list" where
  "sort_level l v = (if l < length (tv_levels v) then (tv_levels v)[l := sort_key minKey (tv_levels v ! l)] else tv_levels v)"

lemma level_of_sort: "level_of (sort_level l v) j = (if j = l then sort_key minKey (level_of (tv_levels v) l) else level_of (tv_levels v) j)"
  by (auto simp: sort_level_def level_of_def)

lemma mset_sort_level: "mset (concat (sort_level l v)) = mset (concat (tv_levels v))"
proof (cases "l < length (tv_levels v)")
  case True
  have "mset (concat (ls[l := ys])) = mset (concat ls)" if "l < length ls" "mset ys = mset (ls ! l)" for ls :: "sstable_meta list list" and ys
    using that by (induction ls arbitrary: l) (auto split: nat.splits)
  with True show ?thesis by (simp add: sort_level_def)
qed (simp add: sort_level_def)

lemma tv_wf_mset:
  assumes "tv_wf dir v" "mset (concat (tv_levels v')) = mset (concat (tv_levels v))" "tv_sstables v' = tv_sstables v"
  shows "tv_wf dir v'" "tv_ids v' = tv_ids v" "findSSTableById v' = findSSTableById v"
proof -
  have s: "set (concat (tv_levels v')) = set (concat (tv_levels v))" using assms(2) by (rule mset_eq_setD)
  then show ids: "tv_ids v' = tv_ids v" by (simp only: tv_ids_def)
  show "findSSTableById v' = findSSTableById v" by (simp add: findSSTableById_def assms(3) fun_eq_iff)
  have "mset (map meta_id (concat (tv_levels v'))) = mset (map meta_id (concat (tv_levels v)))" using assms(2) by simp
  then have "distinct (map meta_id (concat (tv_levels v'))) = distinct (map meta_id (concat (tv_levels v)))"
    by (rule mset_eq_imp_distinct_iff)
  then show "tv_wf dir v'" using assms(1,3) ids by (simp add: tv_wf_def)
qed

text \<open>
  The version \<open>v'\<close> is \<open>v\<close> with the tables \<open>ids\<close> removed, the table \<open>t\<close> added to
  level \<open>l\<close> and that level sorted.
\<close>

definition compacted :: "string \<Rightarrow> nat \<Rightarrow> uint64 list \<Rightarrow> sstable \<Rightarrow> sstable_meta \<Rightarrow> table_version \<Rightarrow> table_version \<Rightarrow> bool" where
  "compacted dir l ids t m v v' \<longleftrightarrow> tv_wf dir v' \<and> tv_ids v' = insert (meta_id m) (tv_ids v - set ids)
     \<and> findSSTableById v' (meta_id m) = Some t
     \<and> (\<forall>j\<in>tv_ids v'. j \<noteq> meta_id m \<longrightarrow> findSSTableById v' j = findSSTableById v j)
     \<and> (\<forall>j. level_of (tv_levels v') j = (let keep = filter (\<lambda>a. meta_id a \<notin> set ids) (level_of (tv_levels v) j)
          in if j = l then sort_key minKey (keep @ [m]) else keep))"

lemma compact_levels:
  assumes "tv_wf dir v" "sst_path t = sst_name dir i" "i \<notin> tv_ids v" "meta_id m = i" "unat (meta_level m) = l" "l + 1 < 2 ^ 32"
  obtains v1 where "addSSTable t m (removeSSTablesByIds ids v) = Inr v1"
    "\<And>v'. tv_levels v' = sort_level l v1 \<Longrightarrow> tv_sstables v' = tv_sstables v1 \<Longrightarrow> compacted dir l ids t m v v'"
proof -
  have fits: "fits_level dir t m" using assms by (simp add: fits_level_def)
  obtain v1 where v1: "addSSTable t m (removeSSTablesByIds ids v) = Inr v1" "tv_wf dir v1"
    "tv_ids v1 = insert i (tv_ids v - set ids)" "findSSTableById v1 i = Some t"
    "\<And>j. j \<in> tv_ids v1 \<Longrightarrow> j \<noteq> i \<Longrightarrow> findSSTableById v1 j = findSSTableById v j"
    using tables.replace_tables [OF assms(1) fits] assms(3,4) by (metis (no_types))
  have "tv_levels v1 = (let ls = resize (max (length (tv_levels (removeSSTablesByIds ids v))) (Suc l)) (tv_levels (removeSSTablesByIds ids v))
      in ls[l := ls ! l @ [m]])"
    using addSSTable_levels [of m t "removeSSTablesByIds ids v"] v1(1) assms(5,6) by auto
  then have "level_of (tv_levels v1) j = level_of (tv_levels (removeSSTablesByIds ids v)) j @ (if j = l then [m] else [])" for j
    by (simp only: Let_def level_of_append)
  then have lv1: "level_of (tv_levels v1) j = (let keep = filter (\<lambda>a. meta_id a \<notin> set ids) (level_of (tv_levels v) j)
      in if j = l then keep @ [m] else keep)" for j
    by (simp add: removeSSTablesByIds_def level_of_map_filter Let_def)
  show ?thesis
  proof (rule that [OF v1(1)])
    fix v' :: table_version assume v': "tv_levels v' = sort_level l v1" "tv_sstables v' = tv_sstables v1"
    have "mset (concat (tv_levels v')) = mset (concat (tv_levels v1))" by (simp add: v'(1) mset_sort_level)
    note w = tv_wf_mset [OF v1(2) this v'(2)]
    have "level_of (tv_levels v') j = (let keep = filter (\<lambda>a. meta_id a \<notin> set ids) (level_of (tv_levels v) j)
        in if j = l then sort_key minKey (keep @ [m]) else keep)" for j
      unfolding v'(1) level_of_sort using lv1 by (simp add: Let_def)
    with w v1(3-5) assms(4) show "compacted dir l ids t m v v'" by (simp add: compacted_def)
  qed
qed

text \<open>The level that received the new table is still a sequence of disjoint ranges.\<close>

lemma compacted_level_disjoint:
  assumes "tv_wf dir v'" "level_of (tv_levels v') j = sort_key minKey (keep @ [m])" "set keep \<subseteq> set old" "disjoint_level old"
    and range: "\<And>a. a \<in> set (keep @ [m]) \<Longrightarrow> minKey a \<le> maxKey a"
    and beside: "\<And>a. a \<in> set keep \<Longrightarrow> maxKey a < minKey m \<or> maxKey m < minKey a"
  shows "disjoint_level (level_of (tv_levels v') j)"
proof -
  have "distinct (map meta_id (concat (tv_levels v')))" using assms(1) by (simp add: tv_wf_def)
  then have "distinct (map meta_id (level_of (tv_levels v') j))" by (rule distinct_level)
  then have "distinct (level_of (tv_levels v') j)" by (rule distinct_map [THEN iffD1, THEN conjunct1])
  then have d: "distinct (keep @ [m])" by (simp only: assms(2) distinct_sort)
  show ?thesis
    unfolding assms(2)
  proof (rule disjoint_sort [OF d range])
    show "maxKey a < minKey b \<or> maxKey b < minKey a" if "a \<in> set (keep @ [m])" "b \<in> set (keep @ [m])" "a \<noteq> b" for a b
      using that disjoint_level_pair [OF assms(4), of a b] assms(3) beside by auto
  qed
qed

lemma compact_version:
  assumes "version_ok hasher fs dir v" "i \<notin> tv_ids v" "0 < l" "unat lw = l" "m = new_meta i lw es s z"
    and new: "sst_holds hasher fs' t es" and cp: "compacted dir l ids t m v v'"
    and files: "\<forall>j. j \<notin> set ids \<longrightarrow> j \<noteq> i \<longrightarrow> fs_read (sst_name dir j) fs' = fs_read (sst_name dir j) fs"
    and beside: "\<forall>a\<in>set (level_of (tv_levels v) l). meta_id a \<notin> set ids \<longrightarrow>
        maxKey a < fst (hd es) \<or> fst (last es) < minKey a"
  shows "version_ok hasher fs' dir v'" "run_of fs' v' m = es"
    "\<And>a j. a \<in> set (level_of (tv_levels v) j) \<Longrightarrow> meta_id a \<notin> set ids \<Longrightarrow> run_of fs' v' a = run_of fs v a"
    "\<And>j. set (level_of (tv_levels v') j) =
       {a \<in> set (level_of (tv_levels v) j). meta_id a \<notin> set ids} \<union> (if j = l then {m} else {})"
proof -
  have wf: "tv_wf dir v" and tag: "levels_tagged (tv_levels v)" using assms(1) by (auto simp: version_ok_def)
  have m: "meta_id m = i" "unat (meta_level m) = l" "minKey m = fst (hd es)" "maxKey m = fst (last es)"
    using assms(4) by (simp_all add: assms(5) new_meta_def)
  let ?keep = "\<lambda>j. filter (\<lambda>a. meta_id a \<notin> set ids) (level_of (tv_levels v) j)"
  have v': "tv_wf dir v'" "tv_ids v' = insert i (tv_ids v - set ids)"
    "\<And>j. j \<in> tv_ids v' \<Longrightarrow> j \<noteq> i \<Longrightarrow> findSSTableById v' j = findSSTableById v j"
    "\<And>j. level_of (tv_levels v') j = (if j = l then sort_key minKey (?keep j @ [m]) else ?keep j)"
    and find: "findSSTableById v' (meta_id m) = Some t"
    using cp m(1) by (simp_all add: compacted_def Let_def)
  have kept: "run_of fs' v' a = run_of fs v a \<and> meta_ok hasher fs' v' a" if a: "a \<in> set (level_of (tv_levels v) j)" "meta_id a \<notin> set ids" for a j
  proof -
    have c: "a \<in> set (concat (tv_levels v))" by (rule level_in_concat [OF a(1)])
    then have id: "meta_id a \<in> tv_ids v" unfolding tv_ids_def by blast
    then have ne: "meta_id a \<noteq> i" using assms(2) by blast
    then have f: "findSSTableById v' (meta_id a) = findSSTableById v (meta_id a)" using v'(2,3) id a(2) by simp
    note cong = run_of_find_cong [OF wf f files [rule_format, OF a(2) ne]]
    have "meta_ok hasher fs v a" using assms(1) c unfolding version_ok_def by blast
    with cong show ?thesis by simp
  qed
  then show "run_of fs' v' a = run_of fs v a" if "a \<in> set (level_of (tv_levels v) j)" "meta_id a \<notin> set ids" for a j
    using that by blast
  note nm = run_of_new [OF find new assms(5)]
  then show "run_of fs' v' m = es" by simp
  show sets: "set (level_of (tv_levels v') j) =
      {a \<in> set (level_of (tv_levels v) j). meta_id a \<notin> set ids} \<union> (if j = l then {m} else {})" for j
    using v'(4) [of j] by auto
  have mok: "meta_ok hasher fs' v' a" if "a \<in> set (level_of (tv_levels v') j)" for a j
    using that kept nm(2) unfolding sets by (auto split: if_splits)
  have "unat (meta_level a) = j" if "a \<in> set (level_of (tv_levels v) j)" for a j
    using tag that by (auto simp: levels_tagged_def level_of_def split: if_splits)
  then have "levels_tagged (tv_levels v')"
    unfolding levels_tagged_def using sets m(2) by (auto simp: level_of_nth split: if_splits)
  moreover have "disjoint_level (level_of (tv_levels v') j)" if j: "j \<noteq> 0" for j
  proof -
    have dis: "disjoint_level (level_of (tv_levels v) j)"
      using assms(1) j by (auto simp: version_ok_def level_of_def disjoint_level_def)
    have lv: "j = l \<Longrightarrow> level_of (tv_levels v') j = sort_key minKey (?keep l @ [m])" using v'(4) [of j] by simp
    have range: "minKey a \<le> maxKey a" if "j = l" "a \<in> set (?keep l @ [m])" for a
      by (rule meta_ok_run(7) [OF mok [of _ j]]) (simp only: lv [OF that(1)] set_sort that(2))
    show ?thesis
    proof (cases "j = l")
      case True
      then show ?thesis
        using compacted_level_disjoint [OF v'(1) lv _ dis range] beside m(3,4) by auto
    qed (use v'(4) [of j] dis in \<open>simp add: disjoint_level_def sorted_wrt_filter\<close>)
  qed
  moreover have "\<forall>a\<in>set (concat (tv_levels v')). meta_ok hasher fs' v' a" using mok concat_in_level by metis
  ultimately show "version_ok hasher fs' dir v'" using v'(1) by (auto simp: version_ok_def level_of_nth)
qed

section \<open>Files\<close>

abbreviation remove_tables :: "string \<Rightarrow> uint64 list \<Rightarrow> file_system \<Rightarrow> file_system" where
  "remove_tables dir ids fs \<equiv> foldl (\<lambda>fs i. fs_remove (table_path dir i) fs) fs ids"

lemma remove_tables_names:
  "fs_names (remove_tables dir ids fs) p = (if p \<in> table_path dir ` set ids then None else fs_names fs p)"
  "fs_next (remove_tables dir ids fs) = fs_next fs" "fs_inodes (remove_tables dir ids fs) = fs_inodes fs"
  by (induction ids arbitrary: fs) (simp_all add: fs_remove_def)

lemma remove_tables_read:
  "fs_read p (remove_tables dir ids fs) = (if p \<in> table_path dir ` set ids then None else fs_read p fs)"
  by (simp add: fs_read_def remove_tables_names)

lemma remove_tables_inv: "fs_inv fs \<Longrightarrow> fs_inv (remove_tables dir ids fs)"
  by (induction ids arbitrary: fs) simp_all

lemma wal_ok_remove_tables:
  assumes "wal_ok e"
  shows "wal_ok (e\<lparr>e_fs := remove_tables dir ids (e_fs e)\<rparr>)"
  using assms unfolding wal_ok_def by (simp add: remove_tables_names) blast

text \<open>What \<open>finish_compaction\<close> does to the state, for a merge that is not empty.\<close>

text \<open>The version part of \<open>finish_compaction\<close>, on the copy that \<open>pre\<close> has prepared.\<close>

lemma compaction_installs:
  assumes "engine_inv hasher e" "unat (e_flush_counter e) + 1 < 2 ^ 64"
    and "sst_path tab = sst_name (engine_dir e) (e_flush_counter e + 1)" "unat (meta_level m) = Suc l" "Suc l + 1 < 2 ^ 32"
    and m: "meta_id m = e_flush_counter e + 1"
    and pre: "tv_sstables v = tv_sstables (engine_version e)" "\<And>j. level_of (tv_levels v) j = elev e j"
  obtains v1 where "addSSTable tab m (removeSSTablesByIds ids v) = Inr v1"
    "compacted (engine_dir e) (Suc l) ids tab m (engine_version e) (v1\<lparr>tv_flush_counter := fc, tv_levels := sort_level (Suc l) v1\<rparr>)"
proof -
  note ver = engine_inv_version [OF assms(1)]
  have cc: "concat (tv_levels v) = concat (tv_levels (engine_version e))" by (rule pad_concat [OF pre(2)])
  then have tids: "tv_ids v = tv_ids (engine_version e)" by (simp add: tv_ids_def)
  have wf: "tv_wf (engine_dir e) v" using ver(5) by (simp add: tv_wf_def tids cc pre(1))
  have find: "findSSTableById v = findSSTableById (engine_version e)" by (simp add: findSSTableById_def pre(1) fun_eq_iff)
  have new: "e_flush_counter e + 1 \<notin> tv_ids v" using ver(3) counter_fresh [OF assms(2)] tids by blast
  obtain v1 where v1: "addSSTable tab m (removeSSTablesByIds ids v) = Inr v1"
    "\<And>v'. tv_levels v' = sort_level (Suc l) v1 \<Longrightarrow> tv_sstables v' = tv_sstables v1 \<Longrightarrow>
       compacted (engine_dir e) (Suc l) ids tab m v v'"
    using compact_levels [OF wf assms(3) new m assms(4,5)] by blast
  have "compacted (engine_dir e) (Suc l) ids tab m v (v1\<lparr>tv_flush_counter := fc, tv_levels := sort_level (Suc l) v1\<rparr>)"
    by (rule v1(2)) simp_all
  then show ?thesis using that [OF v1(1)] by (simp add: compacted_def tids find pre(2))
qed

text \<open>The files after \<open>finish_compaction\<close>: the new table is there, the tables taken are gone, the others stay.\<close>

lemma compaction_files:
  assumes "fs_inv fs" "fs1 = fs_write_file (sst_name (sst_dir dir) i) bs fs" "i \<notin> set ids"
    and "fs3 = remove_tables dir ids (saveMetadata dir fc sq v fs1)"
  shows "fs_inv fs3" "fs_read (sst_name (sst_dir dir) i) fs3 = fs_read (sst_name (sst_dir dir) i) fs1"
    "j \<notin> set ids \<Longrightarrow> j \<noteq> i \<Longrightarrow> fs_read (sst_name (sst_dir dir) j) fs3 = fs_read (sst_name (sst_dir dir) j) fs"
    "fs_read (sst_name (sst_dir dir) j) fs = None \<Longrightarrow> j \<noteq> i \<Longrightarrow> fs_read (sst_name (sst_dir dir) j) fs3 = None"
proof -
  have fs1: "fs_inv fs1" using assms(1,2) by simp
  note saved = fs_read_saved [OF fs1 refl, where data_dir = dir and f = fc and q = sq and v = v]
  show "fs_inv fs3" unfolding assms(4) by (rule remove_tables_inv [OF saved(1)])
  have mem: "sst_name (sst_dir dir) j \<in> table_path dir ` set ids \<longleftrightarrow> j \<in> set ids" for j
    by (auto simp: table_path_name sst_name_eq)
  have rd: "fs_read (sst_name (sst_dir dir) j) fs3 = (if j \<in> set ids then None else fs_read (sst_name (sst_dir dir) j) fs1)" for j
    unfolding assms(4) remove_tables_read mem using saved(4) [OF sst_name_not_meta] by simp
  then show "fs_read (sst_name (sst_dir dir) i) fs3 = fs_read (sst_name (sst_dir dir) i) fs1" using assms(3) by simp
  have other: "j \<noteq> i \<Longrightarrow> fs_read (sst_name (sst_dir dir) j) fs1 = fs_read (sst_name (sst_dir dir) j) fs" for j
    using assms(1) by (simp add: assms(2) sst_name_eq)
  show "j \<notin> set ids \<Longrightarrow> j \<noteq> i \<Longrightarrow> fs_read (sst_name (sst_dir dir) j) fs3 = fs_read (sst_name (sst_dir dir) j) fs"
    "fs_read (sst_name (sst_dir dir) j) fs = None \<Longrightarrow> j \<noteq> i \<Longrightarrow> fs_read (sst_name (sst_dir dir) j) fs3 = None"
    using rd [of j] other [of j] by simp_all
qed

lemma wal_ok_compaction:
  assumes "wal_ok e" "fs_inv (e_fs e)" "fs1 = fs_write_file (sst_name (engine_dir e) i) bs (e_fs e)"
    and "fs3 = remove_tables (e_data_dir e) ids (saveMetadata (e_data_dir e) fc sq v fs1)"
  shows "wal_ok (e\<lparr>e_fs := fs3\<rparr>)"
proof -
  have "wal_ok (e\<lparr>e_fs := fs1\<rparr>)" "fs_inv fs1"
    using wal_ok_write [OF assms(1,2) sst_name_not_log] assms(2) by (simp_all add: assms(3))
  then have "wal_ok (e\<lparr>e_fs := saveMetadata (e_data_dir e) fc sq v fs1\<rparr>)"
    using wal_ok_write [of "e\<lparr>e_fs := _\<rparr>"] unfolding saveMetadata_def by (simp add: log_path_def)
  from wal_ok_remove_tables [OF this] show ?thesis by (simp add: assms(4))
qed

lemma merged_beside:
  assumes "engine_inv hasher e" "taken e l T" "es \<noteq> []" "fst ` set es \<subseteq> (\<Union>m\<in>set T. fst ` set (erun e m))"
    and "a \<in> set (elev e (Suc l))" "meta_id a \<notin> meta_id ` set T"
  shows "maxKey a < fst (hd es) \<or> fst (last es) < minKey a"
proof -
  have "a \<notin> set T" using assms(6) by blast
  moreover have "fst (hd es) \<in> fst ` set es" "fst (last es) \<in> fst ` set es" using assms(3) by simp_all
  ultimately show ?thesis using kept_beside [OF assms(1,2,5)] assms(4) by blast
qed

text \<open>What both compactions do to the copy of the version first leaves its tables alone.\<close>

definition keeps_tables :: "(table_version \<Rightarrow> table_version) \<Rightarrow> bool" where
  "keeps_tables pre \<longleftrightarrow> (\<forall>v. tv_sstables (pre v) = tv_sstables v \<and> (\<forall>j. level_of (tv_levels (pre v)) j = level_of (tv_levels v) j))"

text \<open>The state that \<open>finish_compaction\<close> leaves, for a merge \<open>es\<close> that is not empty.\<close>

definition compaction_done :: "(string \<Rightarrow> uint64) \<Rightarrow> engine \<Rightarrow> nat \<Rightarrow> sstable_meta list \<Rightarrow> (string \<times> entry) list \<Rightarrow>
    table_version \<Rightarrow> file_system \<Rightarrow> sstable_meta \<Rightarrow> bool" where
  "compaction_done hasher e l T es v' fs m \<longleftrightarrow> fs_inv fs \<and> wal_ok (e\<lparr>e_fs := fs\<rparr>)
     \<and> (\<forall>j>e_flush_counter e + 1. fs_read (sst_name (engine_dir e) j) fs = None)
     \<and> version_ok hasher fs (engine_dir e) v' \<and> (\<forall>j\<in>tv_ids v'. j \<le> e_flush_counter e + 1) \<and> run_of fs v' m = es
     \<and> (\<forall>j. \<forall>a\<in>set (elev e j). a \<notin> set T \<longrightarrow> run_of fs v' a = erun e a)
     \<and> (\<forall>j. set (level_of (tv_levels v') j) = {a \<in> set (elev e j). a \<notin> set T} \<union> (if j = Suc l then {m} else {}))"

lemma compaction_settles:
  assumes "engine_inv hasher e" "wal_ok e" "taken e l T" "es \<noteq> []" "unat (e_flush_counter e) + 1 < 2 ^ 64"
    and keys: "fst ` set es \<subseteq> (\<Union>m\<in>set T. fst ` set (erun e m))" and lw: "unat lw = Suc l"
    and m: "m = new_meta (e_flush_counter e + 1) lw es (e_seq e) z"
    and fl: "sst_path tab = sst_name (engine_dir e) (e_flush_counter e + 1)" "sst_holds hasher fs1 tab es"
    and fs1: "fs1 = fs_write_file (sst_name (engine_dir e) (e_flush_counter e + 1)) bs (e_fs e)"
    and fs3: "fs3 = remove_tables (e_data_dir e) (map meta_id T) (saveMetadata (e_data_dir e) fc (e_seq e) v' fs1)"
    and cp: "compacted (engine_dir e) (Suc l) (map meta_id T) tab m (engine_version e) v'"
  shows "compaction_done hasher e l T es v' fs3 m"
proof -
  let ?fc = "e_flush_counter e + 1" and ?d = "engine_dir e" and ?ids = "map meta_id T"
  note ver = engine_inv_version [OF assms(1)]
  have fsi: "fs_inv (e_fs e)" using assms(1) by (simp add: engine_inv_def)
  have below: "e_flush_counter e < ?fc" using counter_fresh(2) [OF assms(5)] by simp
  have new: "?fc \<notin> tv_ids (engine_version e)" using ver(3) counter_fresh [OF assms(5)] by blast
  have "set T \<subseteq> set (concat (tv_levels (engine_version e)))"
    using assms(3) level_in_concat unfolding taken_def by fast
  then have nid: "?fc \<notin> set ?ids" using new by (auto simp: tv_ids_def)
  note files = compaction_files [OF fsi fs1 nid fs3]
  have holds: "sst_holds hasher fs3 tab es" using fl files(2) sst_holds_cong [of tab fs3 fs1] by simp
  have "\<forall>a\<in>set (elev e (Suc l)). meta_id a \<notin> set ?ids \<longrightarrow> maxKey a < fst (hd es) \<or> fst (last es) < minKey a"
    using merged_beside [OF assms(1,3,4) keys] by simp
  then have cv: "version_ok hasher fs3 ?d v'" "run_of fs3 v' m = es"
    "\<And>a j. a \<in> set (elev e j) \<Longrightarrow> meta_id a \<notin> set ?ids \<Longrightarrow> run_of fs3 v' a = erun e a"
    "\<And>j. set (level_of (tv_levels v') j) = {a \<in> set (elev e j). meta_id a \<notin> set ?ids} \<union> (if j = Suc l then {m} else {})"
    using compact_version [OF ver(2) new zero_less_Suc lw m holds cp] files(3) by blast+
  have iff: "a \<in> set (elev e j) \<Longrightarrow> meta_id a \<notin> set ?ids \<longleftrightarrow> a \<notin> set T" for a j
    using taken_iff [OF assms(1,3)] by simp
  have none: "fs_read (sst_name ?d j) fs3 = None" if "?fc < j" for j
  proof (rule files(4))
    have "e_flush_counter e < j" using that below by (metis less_trans)
    then show "fs_read (sst_name ?d j) (e_fs e) = None" using assms(1) by (simp add: engine_inv_def)
  qed (use that in blast)
  have le: "j \<le> ?fc" if "j \<in> tv_ids v'" for j
    using cp that ver(3) below m by (auto simp: compacted_def new_meta_def intro: order_trans less_imp_le)
  have sets: "{a \<in> set (elev e j). meta_id a \<notin> set ?ids} = {a \<in> set (elev e j). a \<notin> set T}" for j
    using iff [of _ j] by blast
  have kept: "run_of fs3 v' a = erun e a" if "a \<in> set (elev e j)" "a \<notin> set T" for a j
    using cv(3) that iff by blast
  show ?thesis
    unfolding compaction_done_def
    using files(1) wal_ok_compaction [OF assms(2) fsi fs1 fs3] none cv(1,2) le kept cv(4) [unfolded sets] by blast
qed

lemma finish_compaction_result:
  assumes "engine_inv hasher e" "wal_ok e" "taken e l T" "snapshot_ok es" "unat (e_flush_counter e) + 1 < 2 ^ 64"
    and keys: "fst ` set es \<subseteq> (\<Union>m\<in>set T. fst ` set (erun e m))"
    and lw: "unat lw = Suc l" "Suc l + 1 < 2 ^ 32" and pre: "keeps_tables pre"
  obtains v' fs3 m where "finish_compaction hasher pre lw (map meta_id T) es e =
      Inr (clear_cache (e\<lparr>e_flush_counter := e_flush_counter e + 1, e_vm := installVersion v' (e_vm e), e_fs := fs3\<rparr>))"
    "compaction_done hasher e l T es v' fs3 m"
proof -
  let ?fc = "e_flush_counter e + 1" and ?dir = "e_data_dir e" and ?d = "engine_dir e" and ?ids = "map meta_id T"
  have ne: "es \<noteq> []" using assms(4) by (simp add: snapshot_ok_def)
  have "fs_read (sst_name ?d ?fc) (e_fs e) = None"
    using assms(1) counter_fresh(2) [OF assms(5)] by (simp add: engine_inv_def)
  then obtain tab fs1 where fl: "sst_flush hasher es ?d ?fc (e_fs e) = Inr (tab, fs1)"
    "sst_path tab = sst_name ?d ?fc" "sst_holds hasher fs1 tab es"
    using sst_flush_holds [OF _ assms(4)] by blast
  obtain bs where bs: "fs1 = fs_write_file (sst_name ?d ?fc) bs (e_fs e)" using sst_flush_file [OF fl(1)] .
  define m where "m = new_meta ?fc lw es (e_seq e) (word_of_nat (length bs))"
  have mp: "meta_id m = ?fc" "unat (meta_level m) = Suc l" by (simp_all add: m_def new_meta_def lw(1))
  define v where "v = pre (tv_copyFrom (Some (engine_version e)))"
  have vp: "tv_sstables v = tv_sstables (engine_version e)" "\<And>j. level_of (tv_levels v) j = elev e j"
    using pre by (simp_all add: v_def keeps_tables_def)
  obtain v1 where v1: "addSSTable tab m (removeSSTablesByIds ?ids v) = Inr v1"
    "compacted ?d (Suc l) ?ids tab m (engine_version e) (v1\<lparr>tv_flush_counter := ?fc, tv_levels := sort_level (Suc l) v1\<rparr>)"
    using compaction_installs [OF assms(1,5) fl(2) mp(2) lw(2) mp(1) vp] by blast
  define v' where "v' = v1\<lparr>tv_flush_counter := ?fc, tv_levels := sort_level (Suc l) v1\<rparr>"
  define fs3 where "fs3 = remove_tables ?dir ?ids (saveMetadata ?dir ?fc (e_seq e) v' fs1)"
  have "finish_compaction hasher pre lw ?ids es e =
      Inr (clear_cache (e\<lparr>e_flush_counter := ?fc, e_vm := installVersion v' (e_vm e), e_fs := fs3\<rparr>))"
    using fl(1) v1(1) engine_inv_version(1) [OF assms(1)] lw(1) ne bs
    by (simp add: finish_compaction_def Let_def getVersionForModification_def file_size_def v_def [symmetric] m_def [symmetric]
        fs3_def v'_def sort_level_def del: tv_copyFrom.simps)
  moreover have "compaction_done hasher e l T es v' fs3 m"
    by (rule compaction_settles [OF assms(1-3) ne assms(5) keys lw(1) m_def fl(2,3) bs fs3_def v1(2) [folded v'_def]])
  ultimately show ?thesis by (rule that)
qed

section \<open>Compaction keeps invariant and map\<close>

lemma engine_levels_ok:
  assumes "engine_inv hasher e"
  shows "older_than [mt_snapshot (e_mem e), mem_run (e_imm e)] (map (erun e) (elev e j))"
    "i < j \<Longrightarrow> older_than (map (erun e) (elev e i)) (map (erun e) (elev e j))"
    "older_than [mt_snapshot (e_mem e)] [mem_run (e_imm e)]"
    "runs_agree (mt_snapshot (e_mem e) # mem_run (e_imm e) # map (erun e) (concat (tv_levels (engine_version e))))"
  using assms unfolding engine_inv_def engine_inv_version(4) [OF assms] table_layers_def layers_by_level
  by (simp_all add: map_concat)

text \<open>What stays on level \<open>l\<close> is not older than what is taken.\<close>

lemma kept_older:
  assumes "engine_inv hasher e" "taken e l T"
  shows "older_than (map (erun e) (filter (\<lambda>a. a \<notin> set T) (elev e l))) (map (erun e) T)"
  unfolding older_than_def
proof (intro ballI allI impI)
  fix r r' k x y
  assume "r \<in> set (map (erun e) (filter (\<lambda>a. a \<notin> set T) (elev e l)))" "r' \<in> set (map (erun e) T)"
    and xy: "map_of r k = Some x" "map_of r' k = Some y"
  then obtain a b where a: "r = erun e a" "a \<in> set (elev e l)" "a \<notin> set T" and b: "r' = erun e b" "b \<in> set T" by auto
  have "l = 0 \<longrightarrow> set (elev e 0) \<subseteq> set T" using assms(2) by (simp add: taken_def)
  then have l: "l \<noteq> 0" using a(2,3) by (cases l) auto
  show "ent_seq y \<le> ent_seq x"
  proof (cases "b \<in> set (elev e l)")
    case True
    have "maxKey a < minKey b \<or> maxKey b < minKey a"
      using disjoint_level_pair [OF elev_disjoint [OF assms(1) l] a(2) True] a(3) b(2) by blast
    moreover have "k \<in> fst ` set (erun e a)" "k \<in> fst ` set (erun e b)"
      using xy a(1) b(1) by (force dest: map_of_SomeD)+
    ultimately show ?thesis
      using disjoint_no_common_key [OF elev_meta_ok [OF assms(1) a(2)] elev_meta_ok [OF assms(1) True]] by blast
  next
    case False
    then have "b \<in> set (elev e (Suc l))" using assms(2) b(2) by (auto simp: taken_def)
    then show ?thesis
      using engine_levels_ok(2) [OF assms(1), of l "Suc l"] a(1,2) b(1) xy unfolding older_than_def by auto
  qed
qed

text \<open>The runs above, beside and below the ones that are taken.\<close>

definition runs_above :: "engine \<Rightarrow> nat \<Rightarrow> sstable_meta list \<Rightarrow> (string \<times> entry) list list" where
  "runs_above e l T = mt_snapshot (e_mem e) # mem_run (e_imm e)
     # map (erun e) (concat (map (elev e) [0..<l])) @ map (erun e) (filter (\<lambda>a. a \<notin> set T) (elev e l))"

definition runs_beside :: "engine \<Rightarrow> nat \<Rightarrow> sstable_meta list \<Rightarrow> (string \<times> entry) list list" where
  "runs_beside e l T = map (erun e) (filter (\<lambda>a. a \<notin> set T) (elev e (Suc l)))"

definition runs_below :: "engine \<Rightarrow> nat \<Rightarrow> (string \<times> entry) list list" where
  "runs_below e l = map (erun e) (concat (map (elev e) [Suc (Suc l)..<length (tv_levels (engine_version e))]))"

lemma older_than_iff:
  "older_than A B \<longleftrightarrow> (\<forall>r\<in>set A. \<forall>r'\<in>set B. older_than [r] [r'])"
  by (simp add: older_than_def)

lemma above_older:
  assumes "engine_inv hasher e" "taken e l T"
  shows "older_than (runs_above e l T) (map (erun e) T)"
  unfolding older_than_iff [of "runs_above e l T"]
proof (intro ballI)
  fix r r' assume r: "r \<in> set (runs_above e l T)" and "r' \<in> set (map (erun e) T)"
  then obtain b where b: "r' = erun e b" "b \<in> set T" by auto
  then obtain j where j: "b \<in> set (elev e j)" "j = l \<or> j = Suc l" using assms(2) by (auto simp: taken_def)
  consider "r \<in> {mt_snapshot (e_mem e), mem_run (e_imm e)}" | i a where "i < l" "a \<in> set (elev e i)" "r = erun e a"
    | "r \<in> set (map (erun e) (filter (\<lambda>a. a \<notin> set T) (elev e l)))"
    using r by (auto simp: runs_above_def)
  then show "older_than [r] [r']"
  proof cases
    case 1
    then show ?thesis
      using engine_levels_ok(1) [OF assms(1), of j, unfolded older_than_iff [of "[_, _]"]] b(1) j(1) by auto
  next
    case (2 i a)
    then have "older_than (map (erun e) (elev e i)) (map (erun e) (elev e j))"
      using engine_levels_ok(2) [OF assms(1)] j(2) by auto
    then show ?thesis using 2 b(1) j(1) older_than_iff [of "map (erun e) (elev e i)"] by auto
  next
    case 3
    then show ?thesis using kept_older [OF assms, unfolded older_than_iff [of "map _ _"]] b by auto
  qed
qed

lemma engine_runs_split:
  assumes "taken e l T" "engine_inv hasher e"
  shows "set (concat (engine_layers e)) = set (runs_above e l T @ map (erun e) T @ runs_beside e l T @ runs_below e l)"
proof -
  let ?n = "length (tv_levels (engine_version e))"
  have out: "elev e j = []" if "\<not> j < ?n" for j using that by (simp add: level_of_def)
  have TT: "erun e ` set T = erun e ` (set T \<inter> set (elev e l)) \<union> erun e ` (set T \<inter> set (elev e (Suc l)))"
    using assms(1) by (auto simp: taken_def)
  have lev: "set (concat (tv_levels (engine_version e))) =
      (\<Union>i<l. set (elev e i)) \<union> set (elev e l) \<union> set (elev e (Suc l)) \<union> (\<Union>j\<in>{Suc (Suc l)..<?n}. set (elev e j))"
    (is "?C = ?R")
  proof (rule set_eqI)
    fix x
    have "x \<in> ?C \<longleftrightarrow> (\<exists>j. x \<in> set (elev e j))" by (rule in_concat_level)
    also have "\<dots> \<longleftrightarrow> x \<in> ?R"
    proof
      assume "\<exists>j. x \<in> set (elev e j)"
      then obtain j where j: "x \<in> set (elev e j)" by blast
      then have "j < ?n" using out by fastforce
      with j show "x \<in> ?R" by (cases "j < l"; cases "j = l"; cases "j = Suc l") auto
    qed auto
    finally show "x \<in> ?C \<longleftrightarrow> x \<in> ?R" .
  qed
  have "set (concat (engine_layers e)) = insert (mt_snapshot (e_mem e)) (insert (mem_run (e_imm e)) (erun e ` ?C))"
    unfolding engine_inv_version(4) [OF assms(2)] by (auto simp: table_layers_def)
  also have "\<dots> = set (runs_above e l T @ map (erun e) T @ runs_beside e l T @ runs_below e l)"
    unfolding lev runs_above_def runs_beside_def runs_below_def set_append set_map TT by (auto simp: image_Un image_UN)
  finally show ?thesis .
qed

lemma beside_no_key:
  assumes "engine_inv hasher e" "taken e l T" "newest (map (erun e) T) k \<noteq> None"
  shows "newest (runs_beside e l T) k = None"
proof -
  obtain m where m: "m \<in> set T" "k \<in> fst ` set (erun e m)" using assms(3) by (auto simp: newest_None_iff)
  have "k \<notin> fst ` set (erun e a)" if a: "a \<in> set (elev e (Suc l))" "a \<notin> set T" for a
    using kept_beside [OF assms(1,2) a] m meta_ok_run(6) [OF elev_meta_ok [OF assms(1) a(1)], of k] by (meson leD)
  then show ?thesis by (auto simp: newest_None_iff runs_beside_def)
qed

lemma below_no_key:
  assumes "no_older_below e l T" "newest (map (erun e) T) k = Some x" "ent_type x \<noteq> Et_PUT"
  shows "newest (runs_below e l) k = None"
proof -
  have "k \<notin> fst ` set (erun e m)" if "j > Suc l" "m \<in> set (elev e j)" for j m
    using assms that unfolding no_older_below_def by blast
  moreover have "\<exists>j m. j > Suc l \<and> m \<in> set (elev e j) \<and> r = erun e m" if "r \<in> set (runs_below e l)" for r
    using that unfolding runs_below_def by (auto intro!: Suc_le_lessD)
  ultimately show ?thesis unfolding newest_None_iff by blast
qed

text \<open>
  The runs of the new version, level by level: the ones that stay, and the merge one level down.
  Each level is covered by what it was before, together with the levels that were merged.
\<close>

abbreviation old_runs :: "engine \<Rightarrow> nat \<Rightarrow> (string \<times> entry) list list" where
  "old_runs e j \<equiv> map (erun e) (elev e j)"

definition merged_in :: "engine \<Rightarrow> nat \<Rightarrow> nat \<Rightarrow> (string \<times> entry) list list" where
  "merged_in e l j = (if j = Suc l then old_runs e l @ old_runs e (Suc l) else [])"

definition compacted_runs_of :: "engine \<Rightarrow> nat \<Rightarrow> sstable_meta list \<Rightarrow> (string \<times> entry) list \<Rightarrow>
    (nat \<Rightarrow> (string \<times> entry) list list) \<Rightarrow> bool" where
  "compacted_runs_of e l T es L \<longleftrightarrow> taken e l T \<and> (\<forall>k. map_of es k = live (newest (map (erun e) T) k))
     \<and> (\<forall>j. set (L j) = erun e ` {a \<in> set (elev e j). a \<notin> set T} \<union> (if j = Suc l then {es} else {}))"

lemma compacted_covered:
  assumes "compacted_runs_of e l T es L"
  shows "covered (L j) (old_runs e j @ merged_in e l j)"
proof (rule covered_Un [of _ "old_runs e j" "if j = Suc l then [es] else []"])
  have "covered [es] (map (erun e) T)" using assms by (intro covered_merge) (simp add: compacted_runs_of_def)
  moreover have "covered (map (erun e) T) (old_runs e l @ old_runs e (Suc l))"
    using assms by (intro covered_subset) (auto simp: compacted_runs_of_def taken_def)
  ultimately have "covered [es] (old_runs e l @ old_runs e (Suc l))" by (rule covered_trans)
  then have "covered [es] (old_runs e j @ old_runs e l @ old_runs e (Suc l))"
    by (rule covered_trans [OF _ covered_subset]) auto
  then show "covered (if j = Suc l then [es] else []) (old_runs e j @ merged_in e l j)"
    by (cases "j = Suc l") (simp_all add: covered_def [of "[]"] merged_in_def)
  have "set (L j) = erun e ` {a \<in> set (elev e j). a \<notin> set T} \<union> (if j = Suc l then {es} else {})"
    using assms by (simp add: compacted_runs_of_def)
  then show "set (L j) \<subseteq> set (old_runs e j) \<union> set (if j = Suc l then [es] else [])" by auto
  show "covered (old_runs e j) (old_runs e j @ merged_in e l j)" by (rule covered_subset) auto
qed

lemma compacted_older:
  assumes "engine_inv hasher e" "compacted_runs_of e l T es L"
  shows "older_than [mt_snapshot (e_mem e), mem_run (e_imm e)] (L j)" "i < j \<Longrightarrow> older_than (L i) (L j)"
proof -
  note cov = compacted_covered [OF assms(2)] and lo = engine_levels_ok [OF assms(1)]
  have tk: "taken e l T" and es: "covered [es] (map (erun e) T)"
    and set_L: "set (L j) = erun e ` {a \<in> set (elev e j). a \<notin> set T} \<union> (if j = Suc l then {es} else {})" for j
    using assms(2) by (auto simp: compacted_runs_of_def intro!: covered_merge)
  show "older_than [mt_snapshot (e_mem e), mem_run (e_imm e)] (L j)"
    by (rule covered_older [OF covered_subset [OF order_refl] cov]) (simp add: older_union(1) lo(1) merged_in_def older_than_def [of _ "[]"])
  show "older_than (L i) (L j)" if ij: "i < j"
  proof (cases "i = l \<and> j = Suc l")
    case True
    have "older_than (L l) (map (erun e) T)"
      using kept_older [OF assms(1) tk] set_L [of l] unfolding older_than_def by auto
    then have "older_than (L l) [es]" by (rule covered_older [OF covered_subset [OF order_refl] es])
    moreover have "covered (L l) (old_runs e l)" using cov [of l] by (simp add: merged_in_def)
    then have "older_than (L l) (old_runs e (Suc l))"
      by (rule covered_older [OF _ covered_subset [OF order_refl] lo(2)]) simp_all
    ultimately have o: "older_than (L l) ([es] @ old_runs e (Suc l))" by (rule older_union(1))
    have "covered (L (Suc l)) ([es] @ old_runs e (Suc l))"
      by (rule covered_subset) (simp only: set_L, auto)
    then show ?thesis using True covered_older [OF covered_subset [OF order_refl] _ o] by simp
  next
    case False
    have "older_than (old_runs e i @ merged_in e l i) (old_runs e j @ merged_in e l j)"
      using ij False lo(2) by (auto intro!: older_union simp: merged_in_def older_than_def [of "[]"] older_than_def [of _ "[]"])
    then show ?thesis by (rule covered_older [OF cov cov])
  qed
qed

lemma compacted_agree:
  assumes "engine_inv hasher e" "compacted_runs_of e l T es (\<lambda>j. map f (level_of ls j))"
  shows "runs_agree (mt_snapshot (e_mem e) # mem_run (e_imm e) # concat (map (map f) ls))"
proof (rule covered_agree [OF _ engine_levels_ok(4) [OF assms(1)]])
  let ?all = "mt_snapshot (e_mem e) # mem_run (e_imm e) # map (erun e) (concat (tv_levels (engine_version e)))"
  have sub: "set (old_runs e j) \<subseteq> set ?all" for j using level_in_concat [of _ "tv_levels (engine_version e)" j] by auto
  have in_all: "covered (map f (level_of ls j)) ?all" for j
  proof (rule covered_trans [OF compacted_covered [OF assms(2)] covered_subset])
    show "set (old_runs e j @ merged_in e l j) \<subseteq> set ?all"
      using sub [of j] sub [of l] sub [of "Suc l"] by (cases "j = Suc l") (simp_all add: merged_in_def)
  qed
  have "\<exists>r'\<in>set ?all. map_of r' k = Some x" if r: "r \<in> set (concat (map (map f) ls))" and x: "map_of r k = Some x" for r k x
  proof -
    obtain a where a: "a \<in> set (concat ls)" "r = f a" using r unfolding map_concat [symmetric] set_map by blast
    obtain j where "a \<in> set (level_of ls j)" using concat_in_level [OF a(1)] by blast
    then have "r \<in> set (map f (level_of ls j))" using a(2) by simp
    then show ?thesis using in_all [of j] x unfolding covered_def by blast
  qed
  then have "covered (concat (map (map f) ls)) ?all" unfolding covered_def by blast
  then show "covered (mt_snapshot (e_mem e) # mem_run (e_imm e) # concat (map (map f) ls)) ?all"
    by (rule covered_Un [of _ "[mt_snapshot (e_mem e), mem_run (e_imm e)]", rotated 2])
       (simp_all add: covered_subset)
qed

text \<open>The layers of the new version.\<close>

lemma compacted_layers:
  assumes "engine_inv hasher e" "taken e l T" "\<And>k. map_of es k = live (newest (map (erun e) T) k)"
    and f': "\<And>a j. a \<in> set (elev e j) \<Longrightarrow> a \<notin> set T \<Longrightarrow> f a = erun e a" "f m = es"
    and ls: "\<And>j. set (level_of ls j) = {a \<in> set (elev e j). a \<notin> set T} \<union> (if j = Suc l then {m} else {})"
  shows "layers_ok ([mt_snapshot (e_mem e)] # [mem_run (e_imm e)] # map (map f) ls)"
proof -
  have img: "f ` {a \<in> set (elev e j). a \<notin> set T} = erun e ` {a \<in> set (elev e j). a \<notin> set T}" for j
    using f'(1) by (intro image_cong) auto
  have new: "compacted_runs_of e l T es (\<lambda>j. map f (level_of ls j))"
    using assms(2,3) by (simp add: compacted_runs_of_def ls image_Un img f'(2))
  show ?thesis
    unfolding layers_by_level
    using compacted_older [OF assms(1) new] compacted_agree [OF assms(1) new] engine_levels_ok(3) [OF assms(1)] by simp
qed

lemma elev_unique:
  assumes "engine_inv hasher e" "a \<in> set (elev e i)" "a \<in> set (elev e j)"
  shows "i = j"
proof -
  have "unat (meta_level a) = j" if "a \<in> set (elev e j)" for j
    using engine_inv_version(2) [OF assms(1)] that
    by (auto simp: version_ok_def levels_tagged_def level_of_def split: if_splits)
  with assms(2,3) show ?thesis by metis
qed

lemma compaction_live:
  assumes "engine_inv hasher e" "taken e l T" "no_older_below e l T" "\<And>k. map_of es k = live (newest (map (erun e) T) k)"
  shows "live (newest (runs_above e l T @ [es] @ runs_beside e l T @ runs_below e l) k) =
     live (newest (runs_above e l T @ map (erun e) T @ runs_beside e l T @ runs_below e l) k)"
  by (rule compact_view [OF above_older [OF assms(1,2)] assms(4) beside_no_key [OF assms(1,2)] below_no_key [OF assms(3)]])

lemma compacted_runs:
  assumes "engine_inv hasher e" "taken e l T" "compaction_done hasher e l T es v' fs m"
  shows "set (concat (map (map (run_of fs v')) (tv_levels v'))) \<union> {mt_snapshot (e_mem e), mem_run (e_imm e)} =
     set (runs_above e l T @ [es] @ runs_beside e l T @ runs_below e l)"
proof -
  let ?K = "\<lambda>j. {a \<in> set (elev e j). a \<notin> set T}" and ?n = "length (tv_levels (engine_version e))"
  have d: "run_of fs v' m = es" "\<And>j. run_of fs v' ` ?K j = erun e ` ?K j"
    "\<And>j. set (level_of (tv_levels v') j) = ?K j \<union> (if j = Suc l then {m} else {})"
  proof -
    show "run_of fs v' ` ?K j = erun e ` ?K j" for j
      by (rule image_cong [OF refl]) (use assms(3) in \<open>auto simp: compaction_done_def\<close>)
  qed (use assms(3) in \<open>simp_all add: compaction_done_def\<close>)
  have same: "?K j = set (elev e j)" if "j \<noteq> l" "j \<noteq> Suc l" for j
    using assms(2) elev_unique [OF assms(1)] that unfolding taken_def by blast
  have out: "elev e j = []" if "\<not> j < ?n" for j using that by (simp add: level_of_def)
  have "set (concat (tv_levels v')) = (\<Union>j. set (level_of (tv_levels v') j))"
    using in_concat_level [of _ "tv_levels v'"] by blast
  also have "\<dots> = insert m (\<Union>j. ?K j)" unfolding d(3) by (auto split: if_splits)
  finally have "set (concat (map (map (run_of fs v')) (tv_levels v'))) = insert es (\<Union>j. erun e ` ?K j)"
    using d(1,2) by (simp add: map_concat [symmetric] image_UN del: set_concat)
  moreover have "(\<Union>j. erun e ` ?K j) = (\<Union>j<l. erun e ` set (elev e j)) \<union> erun e ` ?K l \<union> erun e ` ?K (Suc l)
      \<union> (\<Union>j\<in>{Suc (Suc l)..<?n}. erun e ` set (elev e j))" (is "?A = ?B")
  proof
    have "(\<Union>j<l. erun e ` set (elev e j)) = (\<Union>j<l. erun e ` ?K j)"
      "(\<Union>j\<in>{Suc (Suc l)..<?n}. erun e ` set (elev e j)) = (\<Union>j\<in>{Suc (Suc l)..<?n}. erun e ` ?K j)"
      by (rule SUP_cong [OF refl], subst same, simp_all)+
    then show "?B \<subseteq> ?A" by (simp only:) blast
    show "?A \<subseteq> ?B"
    proof
      fix x assume "x \<in> ?A"
      then obtain j where j: "x \<in> erun e ` ?K j" by blast
      then have "j < ?n" using out by fastforce
      then show "x \<in> ?B" using j by (cases "j < l"; cases "j = l"; cases "j = Suc l") auto
    qed
  qed
  ultimately show ?thesis by (auto simp: runs_above_def runs_beside_def runs_below_def image_UN atLeast0LessThan)
qed

lemma merged_entries:
  assumes "sorted_keys es" "\<And>k. map_of es k = live (newest rs k)" "(k, x) \<in> set es"
  shows "\<exists>r\<in>set rs. (k, x) \<in> set r"
proof -
  have "map_of es k = Some x" using assms(1,3) by (simp add: sorted_keys_map_of)
  then have "newest rs k = Some x" using assms(2) [of k] by (cases "newest rs k") (auto split: if_splits)
  then show ?thesis using newest_mem map_of_SomeD by metis
qed

lemma compaction_inv:
  assumes "engine_inv hasher e" "wal_ok e" "taken e l T" "unat (e_flush_counter e) + 1 < 2 ^ 64"
    and es: "sorted_keys es" "\<And>k. map_of es k = live (newest (map (erun e) T) k)" "es \<noteq> []" "small_run es"
    and lw: "unat lw = Suc l" "Suc l + 1 < 2 ^ 32" and pre: "keeps_tables pre"
  obtains e' m where "finish_compaction hasher pre lw (map meta_id T) es e = Inr e'" "engine_inv hasher e'" "wal_ok e'"
    "\<And>k. engine_view e' k = newest (runs_above e l T @ [es] @ runs_beside e l T @ runs_below e l) k"
    "e_data_dir e' = e_data_dir e" "e_flush_counter e' = e_flush_counter e + 1"
    "compaction_done hasher e l T es (engine_version e') (e_fs e') m"
proof -
  let ?fc = "e_flush_counter e + 1" and ?T = "map (erun e) T"
  note ver = engine_inv_version [OF assms(1)]
  have vok: "versions_ok e" using assms(1) by (simp add: engine_inv_def)
  note split = engine_runs_split [OF assms(3,1)]
  have T_in: "r \<in> set (all_runs e)" if "r \<in> set ?T" for r using that unfolding all_runs_def split by simp
  have es_in: "\<exists>r\<in>set ?T. x \<in> set r" if "x \<in> set es" for x
    using merged_entries [OF es(1,2), of "fst x" "snd x"] that by simp
  then have fits: "entry_fits x \<and> ent_seq (snd x) < e_seq e" if "x \<in> set es" for x
    using vok T_in that unfolding versions_ok_def by blast
  have snap: "snapshot_ok es" using es fits by (simp add: snapshot_ok_def small_run_def)
  have keys: "fst ` set es \<subseteq> (\<Union>m\<in>set T. fst ` set (erun e m))"
    using es_in by fastforce
  obtain v' fs3 m where fc: "finish_compaction hasher pre lw (map meta_id T) es e =
      Inr (clear_cache (e\<lparr>e_flush_counter := ?fc, e_vm := installVersion v' (e_vm e), e_fs := fs3\<rparr>))"
    and d: "compaction_done hasher e l T es v' fs3 m"
    using finish_compaction_result [OF assms(1-3) snap assms(4) keys lw pre] .
  define e' where "e' = clear_cache (e\<lparr>e_flush_counter := ?fc, e_vm := installVersion v' (e_vm e), e_fs := fs3\<rparr>)"
  have f: "e_mem e' = e_mem e" "e_imm e' = e_imm e" "e_seq e' = e_seq e" "e_data_dir e' = e_data_dir e" "e_wal e' = e_wal e"
    "current_version (e_vm e') = Some v'" "e_flush_counter e' = ?fc" "e_fs e' = fs3" "e_cache e' = map_option lru_clear (e_cache e)"
    by (simp_all add: e'_def clear_cache_def installVersion_def)
  have layers': "engine_layers e' = [mt_snapshot (e_mem e)] # [mem_run (e_imm e)] # map (map (run_of fs3 v')) (tv_levels v')"
    by (simp add: engine_layers_def f table_layers_def)
  have lok: "layers_ok (engine_layers e')"
    unfolding layers' by (rule compacted_layers [OF assms(1,3) es(2)]) (use d in \<open>auto simp: compaction_done_def\<close>)
  have runs: "set (concat (engine_layers e')) = set (runs_above e l T @ [es] @ runs_beside e l T @ runs_below e l)"
    using compacted_runs [OF assms(1,3) d] unfolding layers' by auto
  have agree: "runs_agree (runs_above e l T @ [es] @ runs_beside e l T @ runs_below e l)"
    using lok unfolding layers_ok_def runs_agree_def runs by simp
  have view: "engine_view e' k = newest (runs_above e l T @ [es] @ runs_beside e l T @ runs_below e l) k" for k
    unfolding engine_view_def by (rule newest_set [OF agree runs])
  have "versions_ok e'"
    using vok fits unfolding versions_ok_def all_runs_def runs split f(3) by auto
  moreover have "cache_ok e'" by (rule cache_ok_cleared [OF _ f(9)]) (use assms(1) in \<open>simp add: engine_inv_def cache_ok_def\<close>)
  moreover have "mt_inv (e_mem e)" "\<forall>t. e_imm e = Some t \<longrightarrow> mt_inv t" using assms(1) by (simp_all add: engine_inv_def)
  moreover have "fs_inv fs3" "version_ok hasher fs3 (engine_dir e) v'" "\<forall>j\<in>tv_ids v'. j \<le> ?fc"
    "\<forall>j>?fc. fs_read (sst_name (engine_dir e) j) fs3 = None"
    using d unfolding compaction_done_def by blast+
  ultimately have "engine_inv hasher e'"
    using lok unfolding engine_inv_def f by blast
  moreover have wk: "wal_ok (e\<lparr>e_fs := fs3\<rparr>)" using d unfolding compaction_done_def by blast
  have "wal_ok e'" by (rule wal_ok_cong [OF wk]) (simp_all add: f)
  moreover have "engine_version e' = v'" by (simp add: engine_version_def f(6))
  ultimately show ?thesis using that fc [folded e'_def] view f(4,7,8) d by simp
qed

lemma engine_view_split:
  assumes "engine_inv hasher e" "taken e l T"
  shows "engine_view e k = newest (runs_above e l T @ map (erun e) T @ runs_beside e l T @ runs_below e l) k"
proof -
  note split = engine_runs_split [OF assms(2,1)]
  have "runs_agree (runs_above e l T @ map (erun e) T @ runs_beside e l T @ runs_below e l)"
    using assms(1) unfolding engine_inv_def layers_ok_def runs_agree_def split by simp
  then show ?thesis unfolding engine_view_def by (rule newest_set [OF _ split])
qed

section \<open>The inputs of the two compactions\<close>

lemma select_tables_all:
  assumes "\<forall>m\<in>set ms. findSSTableById v (meta_id m) \<noteq> None"
  shows "select_tables v P ms = map (\<lambda>m. (meta_id m, the (findSSTableById v (meta_id m)))) (filter P ms)"
  using assms by (induction ms) auto

lemma elev_found:
  assumes "engine_inv hasher e" "m \<in> set (elev e j)"
  shows "findSSTableById (engine_version e) (meta_id m) \<noteq> None"
  using elev_meta_ok [OF assms] by (auto simp: meta_ok_def)

lemma select_level:
  assumes "engine_inv hasher e"
  shows "(if j < length (tv_levels (engine_version e)) then select_tables (engine_version e) P (tv_levels (engine_version e) ! j) else [])
    = map (\<lambda>m. (meta_id m, the (findSSTableById (engine_version e) (meta_id m)))) (filter P (elev e j))"
proof (cases "j < length (tv_levels (engine_version e))")
  case True
  then show ?thesis
    using select_tables_all [of "elev e j" "engine_version e" P] elev_found [OF assms] by (simp add: level_of_def)
qed (simp add: level_of_def)

lemma merge_taken:
  assumes "engine_inv hasher e" "\<forall>m\<in>set T. \<exists>j. m \<in> set (elev e j)"
  obtains es where "merge_tables (e_fs e) (map (\<lambda>m. the (findSSTableById (engine_version e) (meta_id m))) T) = Inr es"
    "sorted_keys es" "\<And>k. map_of es k = live (newest (map (erun e) T) k)"
proof (rule merge_tables_correct)
  have "sst_holds hasher (e_fs e) (the (findSSTableById (engine_version e) (meta_id m))) (erun e m)" if m: "m \<in> set T" for m
  proof -
    obtain j where "m \<in> set (elev e j)" using assms(2) m by blast
    then obtain t where "findSSTableById (engine_version e) (meta_id m) = Some t" "sst_ok hasher (e_fs e) t"
      using elev_meta_ok [OF assms(1)] unfolding meta_ok_def by blast
    then show ?thesis by (simp add: run_of_def sst_ok_def)
  qed
  then show "list_all2 (sst_holds hasher (e_fs e)) (map (\<lambda>m. the (findSSTableById (engine_version e) (meta_id m))) T) (map (erun e) T)"
    by (simp add: list_all2_conv_all_nth)
  have "set T \<subseteq> set (concat (tv_levels (engine_version e)))" using assms(2) level_in_concat by fast
  then have "set (map (erun e) T) \<subseteq> set (mt_snapshot (e_mem e) # mem_run (e_imm e) # map (erun e) (concat (tv_levels (engine_version e))))"
    by auto
  then show "runs_agree (map (erun e) T)"
    using covered_agree [OF covered_subset engine_levels_ok(4) [OF assms(1)]] by blast
qed (use that in blast)

lemma key_range_covers:
  assumes "ms \<noteq> []" "key_range ms = (mn, mx)" "m \<in> set ms"
  shows "mn \<le> minKey m \<and> maxKey m \<le> mx"
proof -
  let ?f = "\<lambda>(mn, mx) meta. (if minKey meta < mn then minKey meta else mn, if maxKey meta > mx then maxKey meta else mx)"
  have mono: "fst (foldl ?f (a, b) xs) \<le> a \<and> b \<le> snd (foldl ?f (a, b) xs)" for a b xs
  proof (induction xs arbitrary: a b)
    case (Cons x xs)
    show ?case
      using Cons.IH [of "if minKey x < a then minKey x else a" "if maxKey x > b then maxKey x else b"]
      by (auto split: if_splits)
  qed simp
  have "fst (foldl ?f (a, b) xs) \<le> minKey m \<and> maxKey m \<le> snd (foldl ?f (a, b) xs)" if "m \<in> set xs" for a b xs
    using that
  proof (induction xs arbitrary: a b)
    case (Cons x xs)
    show ?case
    proof (cases "m \<in> set xs")
      case False
      with Cons.prems have "x = m" by simp
      then show ?thesis
        using mono [of "if minKey x < a then minKey x else a" "if maxKey x > b then maxKey x else b" xs]
        by (auto split: if_splits)
    qed (use Cons.IH in simp)
  qed simp
  from this [OF assms(3), of "minKey (hd ms)" "maxKey (hd ms)"] show ?thesis
    using assms(2) by (simp add: key_range_def)
qed

definition l0_inputs :: "engine \<Rightarrow> sstable_meta list" where
  "l0_inputs e = elev e 0 @ filter (overlaps (fst (key_range (elev e 0))) (snd (key_range (elev e 0)))) (elev e 1)"

definition level_inputs :: "nat \<Rightarrow> engine \<Rightarrow> sstable_meta list" where
  "level_inputs l e = (let src = hd (elev e l) in src # filter (overlaps (minKey src) (maxKey src)) (elev e (Suc l)))"

lemma l0_taken:
  assumes "engine_inv hasher e" "elev e 0 \<noteq> []"
  shows "taken e 0 (l0_inputs e)"
proof -
  obtain mn mx where kr: "key_range (elev e 0) = (mn, mx)" by fastforce
  have "m \<notin> set (elev e 0)" if "m \<in> set (elev e 1)" for m using elev_unique [OF assms(1) that, of 0] by auto
  then show ?thesis
    using key_range_covers [OF assms(2) kr] unfolding taken_def l0_inputs_def kr
    by (intro conjI exI [of _ mn] exI [of _ mx]) auto
qed

lemma level_taken:
  assumes "engine_inv hasher e" "elev e l \<noteq> []" "l \<noteq> 0"
  shows "taken e l (level_inputs l e)"
proof -
  let ?src = "hd (elev e l)"
  have src: "?src \<in> set (elev e l)" using assms(2) by simp
  have other: "m \<notin> set (elev e l)" if "m \<in> set (elev e (Suc l))" for m using elev_unique [OF assms(1) that, of l] by auto
  have "?src \<notin> set (elev e (Suc l))" using other src by blast
  then show ?thesis
    using src other assms(3) unfolding taken_def level_inputs_def Let_def
    by (intro conjI exI [of _ "minKey ?src"] exI [of _ "maxKey ?src"]) auto
qed

section \<open>Sizes\<close>

abbreviation all_metas :: "engine \<Rightarrow> sstable_meta set" where
  "all_metas e \<equiv> set (concat (tv_levels (engine_version e)))"

definition weight :: "(string \<times> entry \<Rightarrow> nat) \<Rightarrow> engine \<Rightarrow> nat" where
  "weight g e = (\<Sum>a\<in>all_metas e. sum_list (map g (erun e a)))"

text \<open>All tables together fit into one.\<close>

definition tables_small :: "engine \<Rightarrow> bool" where
  "tables_small e \<longleftrightarrow> weight (\<lambda>(k, x). length (sst_record k x)) e < 2 ^ 64 \<and> 14 * weight (\<lambda>_. 1) e < 2 ^ 32"

lemma sum_set_le_list: "sum g (set xs) \<le> sum_list (map g xs)" for g :: "'a \<Rightarrow> nat"
  by (induction xs) (auto simp: sum.insert_if)

lemma merged_weight:
  fixes g :: "string \<times> entry \<Rightarrow> nat"
  assumes "sorted_keys es" "\<And>x. x \<in> set es \<Longrightarrow> \<exists>a\<in>set T. x \<in> set (f a)"
  shows "sum_list (map g es) \<le> (\<Sum>a\<in>set T. sum_list (map g (f a)))"
proof -
  let ?rs = "concat (map f (remdups T))"
  have flat: "sum_list (map g (concat (map f xs))) = sum_list (map (\<lambda>a. sum_list (map g (f a))) xs)" for xs
    by (induction xs) simp_all
  have "distinct es" using sorted_keys_distinct [OF assms(1)] by (simp add: distinct_map)
  then have "sum_list (map g es) = sum g (set es)" by (rule sum_list_distinct_conv_sum_set)
  also have "\<dots> \<le> sum g (set ?rs)" by (rule sum_mono2) (use assms(2) in auto)
  also have "\<dots> \<le> sum_list (map g ?rs)" by (rule sum_set_le_list)
  also have "\<dots> = sum_list (map (\<lambda>a. sum_list (map g (f a))) (remdups T))"
    by (rule flat)
  also have "\<dots> = (\<Sum>a\<in>set T. sum_list (map g (f a)))"
    by (simp add: sum_list_distinct_conv_sum_set)
  finally show ?thesis .
qed

lemma done_weight:
  fixes g :: "string \<times> entry \<Rightarrow> nat"
  assumes "taken e l T" "compaction_done hasher e l T es (engine_version e') (e_fs e') m"
    and "sum_list (map g es) \<le> (\<Sum>a\<in>set T. sum_list (map g (erun e a)))"
  shows "weight g e' \<le> weight g e"
proof -
  let ?w = "\<lambda>a. sum_list (map g (erun e a))" and ?w' = "\<lambda>a. sum_list (map g (erun e' a))"
  have T: "set T \<subseteq> all_metas e" using assms(1) level_in_concat unfolding taken_def by fast
  have lv: "set (elev e' j) = {a \<in> set (elev e j). a \<notin> set T} \<union> (if j = Suc l then {m} else {})" for j
    using assms(2) by (simp add: compaction_done_def)
  have "all_metas e' \<subseteq> insert m (all_metas e - set T)"
  proof
    fix a assume "a \<in> all_metas e'"
    then obtain j where "a \<in> set (elev e' j)" using concat_in_level [of a] by blast
    then have "a = m \<or> a \<in> set (elev e j) \<and> a \<notin> set T" unfolding lv by (auto split: if_splits)
    then show "a \<in> insert m (all_metas e - set T)" using level_in_concat [of a] by blast
  qed
  then have "weight g e' \<le> sum ?w' (insert m (all_metas e - set T))"
    unfolding weight_def by (intro sum_mono2) auto
  also have "\<dots> \<le> ?w' m + sum ?w' (all_metas e - set T)" by (simp add: sum.insert_if)
  also have "sum ?w' (all_metas e - set T) = sum ?w (all_metas e - set T)"
  proof (rule sum.cong [OF refl])
    fix a assume a: "a \<in> all_metas e - set T"
    then obtain j where "a \<in> set (elev e j)" using concat_in_level [of a] by blast
    then show "?w' a = ?w a" using assms(2) a unfolding compaction_done_def by simp
  qed
  also have "?w' m = sum_list (map g es)" using assms(2) by (simp add: compaction_done_def)
  also have "sum_list (map g es) + sum ?w (all_metas e - set T) \<le> sum ?w (set T) + sum ?w (all_metas e - set T)"
    using assms(3) by simp
  also have "\<dots> = weight g e" unfolding weight_def using sum.subset_diff [OF T, of ?w] by (simp add: add.commute)
  finally show ?thesis .
qed

lemma data_bytes_weight: "length (data_bytes es) = sum_list (map (\<lambda>(k, x). length (sst_record k x)) es)"
  by (simp add: data_bytes_def length_concat comp_def split_def)

lemma inputs_small:
  assumes "tables_small e" "taken e l T" "\<And>g :: string \<times> entry \<Rightarrow> nat. sum_list (map g es) \<le> (\<Sum>a\<in>set T. sum_list (map g (erun e a)))"
  shows "small_run es"
proof -
  have T: "set T \<subseteq> all_metas e" using assms(2) level_in_concat unfolding taken_def by fast
  have le: "sum_list (map g es) \<le> weight g e" for g :: "string \<times> entry \<Rightarrow> nat"
    unfolding weight_def by (rule order_trans [OF assms(3) sum_mono2]) (use T in auto)
  have "length es = sum_list (map (\<lambda>_. 1) es)" by (simp add: sum_list_triv)
  then have "length es \<le> weight (\<lambda>_. 1) e" using le [of "\<lambda>_. 1"] by simp
  moreover have "length (data_bytes es) \<le> weight (\<lambda>(k, x). length (sst_record k x)) e"
    unfolding data_bytes_weight by (rule le)
  ultimately show ?thesis using assms(1) by (simp add: small_run_def tables_small_def)
qed

section \<open>Tombstones\<close>

text \<open>No tombstone of a table has an older version below it.\<close>

definition settled :: "engine \<Rightarrow> bool" where
  "settled e \<longleftrightarrow> (\<forall>i j a b k x. i < j \<longrightarrow> a \<in> set (elev e i) \<longrightarrow> b \<in> set (elev e j) \<longrightarrow> map_of (erun e a) k = Some x \<longrightarrow>
     ent_type x \<noteq> Et_PUT \<longrightarrow> k \<notin> fst ` set (erun e b))"

lemma taken_level: "taken e l T \<Longrightarrow> c \<in> set T \<Longrightarrow> c \<in> set (elev e l) \<or> c \<in> set (elev e (Suc l))"
  unfolding taken_def by blast

lemma settledD:
  "settled e \<Longrightarrow> i < j \<Longrightarrow> a \<in> set (elev e i) \<Longrightarrow> b \<in> set (elev e j) \<Longrightarrow> map_of (erun e a) k = Some x \<Longrightarrow>
     ent_type x \<noteq> Et_PUT \<Longrightarrow> k \<notin> fst ` set (erun e b)"
  unfolding settled_def by blast

lemma settled_no_older:
  assumes "settled e" "taken e l T"
  shows "no_older_below e l T"
  unfolding no_older_below_def
proof (intro allI impI ballI)
  fix k x j m assume x: "newest (map (erun e) T) k = Some x" "ent_type x \<noteq> Et_PUT" and j: "Suc l < j" "m \<in> set (elev e j)"
  obtain a where a: "a \<in> set T" "map_of (erun e a) k = Some x" using newest_mem [OF x(1)] by auto
  obtain i where "i < j" "a \<in> set (elev e i)" using taken_level [OF assms(2) a(1)] j(1) by (meson Suc_lessD)
  from settledD [OF assms(1) this j(2) a(2) x(2)] show "k \<notin> fst ` set (erun e m)" .
qed

lemma done_settled:
  assumes "engine_inv hasher e" "settled e" "taken e l T" "\<And>k. map_of es k = live (newest (map (erun e) T) k)"
    and "compaction_done hasher e l T es (engine_version e') (e_fs e') m"
  shows "settled e'"
  unfolding settled_def
proof (intro allI impI)
  fix i j a b k x
  assume ij: "i < j" "a \<in> set (elev e' i)" "b \<in> set (elev e' j)" and x: "map_of (erun e' a) k = Some x" "ent_type x \<noteq> Et_PUT"
  have lv: "set (elev e' j) = {a \<in> set (elev e j). a \<notin> set T} \<union> (if j = Suc l then {m} else {})" for j
    using assms(5) by (simp add: compaction_done_def)
  have run: "erun e' m = es" "\<And>c n. c \<in> set (elev e n) \<Longrightarrow> c \<notin> set T \<Longrightarrow> erun e' c = erun e c"
    using assms(5) unfolding compaction_done_def by blast+
  have put: "map_of es k = Some y \<Longrightarrow> ent_type y = Et_PUT" for y
    using assms(4) [of k] by (cases "newest (map (erun e) T) k") (auto split: if_splits)
  then have "a \<noteq> m" using x run(1) by auto
  then have a: "a \<in> set (elev e i)" "a \<notin> set T" using ij(2) unfolding lv by (auto split: if_splits)
  then have xa: "map_of (erun e a) k = Some x" using x(1) run(2) by simp
  show "k \<notin> fst ` set (erun e' b)"
  proof (cases "b \<in> set (elev e j) \<and> b \<notin> set T")
    case True
    then show ?thesis using settledD [OF assms(2) ij(1) a(1) _ xa x(2), of b] run(2) [of b j] by simp
  next
    case False
    then have b: "b = m" "j = Suc l" using ij(3) unfolding lv by (auto split: if_splits)
    show ?thesis
    proof
      assume "k \<in> fst ` set (erun e' b)"
      then have "map_of es k \<noteq> None" by (simp add: b run(1) map_of_eq_None_iff)
      then have "newest (map (erun e) T) k \<noteq> None" using assms(4) [of k] by (metis live_simps(1))
      then obtain c where c: "c \<in> set T" "k \<in> fst ` set (erun e c)" by (auto simp: newest_None_iff)
      show False
      proof (cases "c \<in> set (elev e l) \<and> i = l")
        case False
        then obtain n where "i < n" "c \<in> set (elev e n)"
          using taken_level [OF assms(3) c(1)] ij(1) b(2) by (meson less_SucE)
        then show False using settledD [OF assms(2) _ a(1) _ xa x(2)] c(2) by blast
      next
        case True
        have "l \<noteq> 0" using assms(3) a True by (cases l) (auto simp: taken_def)
        then have "maxKey a < minKey c \<or> maxKey c < minKey a"
          using disjoint_level_pair [OF elev_disjoint [OF assms(1)]] a True c(1) by blast
        moreover have "k \<in> fst ` set (erun e a)" using xa by (force dest: map_of_SomeD)
        ultimately show False
          using disjoint_no_common_key [OF elev_meta_ok [OF assms(1)] elev_meta_ok [OF assms(1)]] a(1) True c(2) by blast
      qed
    qed
  qed
qed

section \<open>Steps\<close>

text \<open>Tables only lose versions, whatever the measure.\<close>

definition shrinks :: "engine \<Rightarrow> engine \<Rightarrow> bool" where
  "shrinks e e' \<longleftrightarrow> (\<forall>g. weight g e' \<le> weight g e)
     \<and> (\<forall>x. (\<exists>a\<in>all_metas e'. x \<in> set (erun e' a)) \<longrightarrow> (\<exists>a\<in>all_metas e. x \<in> set (erun e a)))"

lemma shrinks_self: "shrinks e e"
  by (simp add: shrinks_def)

lemma shrinks_trans: "shrinks e e1 \<Longrightarrow> shrinks e1 e2 \<Longrightarrow> shrinks e e2"
  unfolding shrinks_def by (meson order_trans)

lemma done_shrinks:
  assumes "taken e l T" "compaction_done hasher e l T es (engine_version e') (e_fs e') m"
    and "\<And>g :: string \<times> entry \<Rightarrow> nat. sum_list (map g es) \<le> (\<Sum>a\<in>set T. sum_list (map g (erun e a)))"
    and "\<And>x. x \<in> set es \<Longrightarrow> \<exists>a\<in>set T. x \<in> set (erun e a)"
  shows "shrinks e e'"
proof -
  have T: "set T \<subseteq> all_metas e" using assms(1) level_in_concat unfolding taken_def by fast
  have "\<exists>b\<in>all_metas e. x \<in> set (erun e b)" if a: "a \<in> all_metas e'" and x: "x \<in> set (erun e' a)" for a x
  proof -
    obtain j where "a \<in> set (elev e' j)" using concat_in_level [OF a] by blast
    then have "a = m \<or> a \<in> set (elev e j) \<and> a \<notin> set T"
      using assms(2) by (auto simp: compaction_done_def split: if_splits)
    then show ?thesis
    proof
      assume "a = m"
      then have "x \<in> set es" using assms(2) x by (simp add: compaction_done_def)
      then show ?thesis using assms(4) T by blast
    next
      assume old: "a \<in> set (elev e j) \<and> a \<notin> set T"
      then have "erun e' a = erun e a" using assms(2) unfolding compaction_done_def by blast
      moreover have "a \<in> all_metas e" by (rule level_in_concat [OF conjunct1 [OF old]])
      ultimately show ?thesis using x by metis
    qed
  qed
  then show ?thesis using done_weight [OF assms(1-3)] unfolding shrinks_def by blast
qed

text \<open>What a compaction keeps.\<close>

definition compactable :: "(string \<Rightarrow> uint64) \<Rightarrow> engine \<Rightarrow> bool" where
  "compactable hasher e \<longleftrightarrow> engine_inv hasher e \<and> wal_ok e \<and> settled e \<and> tables_small e"

definition compacts_to :: "(string \<Rightarrow> uint64) \<Rightarrow> engine \<Rightarrow> kv_error + engine \<Rightarrow> bool" where
  "compacts_to hasher e r \<longleftrightarrow> (\<exists>e'. r = Inr e' \<and> compactable hasher e' \<and> engine_map e' = engine_map e
     \<and> unat (e_flush_counter e') \<le> unat (e_flush_counter e) + 1 \<and> shrinks e e')"

lemma compacts_to_self: "compactable hasher e \<Longrightarrow> compacts_to hasher e (Inr e)"
  by (simp add: compacts_to_def shrinks_self)

text \<open>The common end of both compactions: nothing happens when everything merged away, else the new table is installed.\<close>

lemma finish_cases:
  assumes "engine_inv hasher e" "wal_ok e" "tables_small e" "taken e l T" "unat (e_flush_counter e) + 1 < 2 ^ 64"
    and lw: "unat lw = Suc l" "Suc l + 1 < 2 ^ 32" and pre: "keeps_tables pre"
    and r: "r = sum_bind (merge_tables (e_fs e) (map (\<lambda>m. the (findSSTableById (engine_version e) (meta_id m))) T))
     (\<lambda>merged_data. finish_compaction hasher pre lw (map meta_id T) merged_data e)"
  obtains (empty) "r = Inr e" "\<And>k. live (newest (map (erun e) T) k) = None"
  | (compacted) e' es m where "r = Inr e'" "engine_inv hasher e'" "wal_ok e'" "tables_small e'"
      "\<And>k. map_of es k = live (newest (map (erun e) T) k)"
      "\<And>k. engine_view e' k = newest (runs_above e l T @ [es] @ runs_beside e l T @ runs_below e l) k"
      "e_flush_counter e' = e_flush_counter e + 1"
      "compaction_done hasher e l T es (engine_version e') (e_fs e') m" "shrinks e e'"
proof -
  have "\<forall>m\<in>set T. \<exists>j. m \<in> set (elev e j)" using taken_level [OF assms(4)] by blast
  then obtain es where es: "merge_tables (e_fs e) (map (\<lambda>m. the (findSSTableById (engine_version e) (meta_id m))) T) = Inr es"
    "sorted_keys es" "\<And>k. map_of es k = live (newest (map (erun e) T) k)"
    using merge_taken [OF assms(1)] by metis
  show ?thesis
  proof (cases "es = []")
    case True
    show ?thesis by (rule empty) (use True es(1) es(3) [symmetric] in \<open>simp_all add: r finish_compaction_def\<close>)
  next
    case False
    have src: "\<exists>a\<in>set T. x \<in> set (erun e a)" if "x \<in> set es" for x
      using merged_entries [OF es(2,3), of "fst x" "snd x"] that by auto
    have w: "sum_list (map g es) \<le> (\<Sum>a\<in>set T. sum_list (map g (erun e a)))" for g :: "string \<times> entry \<Rightarrow> nat"
      by (rule merged_weight [OF es(2) src])
    obtain e' m where e': "finish_compaction hasher pre lw (map meta_id T) es e = Inr e'" "engine_inv hasher e'" "wal_ok e'"
      "\<And>k. engine_view e' k = newest (runs_above e l T @ [es] @ runs_beside e l T @ runs_below e l) k"
      "e_flush_counter e' = e_flush_counter e + 1" "compaction_done hasher e l T es (engine_version e') (e_fs e') m"
      using compaction_inv [OF assms(1,2,4,5) es(2,3) False inputs_small [OF assms(3,4) w] lw pre] by metis
    have "tables_small e'"
      using done_weight [OF assms(4) e'(6) w] assms(3) unfolding tables_small_def by (meson le_less_trans mult_le_mono2)
    then show ?thesis
      using compacted [OF _ e'(2,3) _ es(3) e'(4,5,6) done_shrinks [OF assms(4) e'(6) w src]] e'(1) es(1) by (simp add: r)
  qed
qed

lemma finish_step:
  assumes "compactable hasher e" "taken e l T" "unat (e_flush_counter e) + 1 < 2 ^ 64"
    and lw: "unat lw = Suc l" "Suc l + 1 < 2 ^ 32" and pre: "keeps_tables pre"
  shows "compacts_to hasher e (sum_bind (merge_tables (e_fs e) (map (\<lambda>m. the (findSSTableById (engine_version e) (meta_id m))) T))
     (\<lambda>merged_data. finish_compaction hasher pre lw (map meta_id T) merged_data e))"
proof -
  have c: "engine_inv hasher e" "wal_ok e" "settled e" "tables_small e" using assms(1) by (simp_all add: compactable_def)
  show ?thesis
  proof (rule finish_cases [OF c(1,2,4) assms(2,3) lw pre refl])
    assume "sum_bind (merge_tables (e_fs e) (map (\<lambda>m. the (findSSTableById (engine_version e) (meta_id m))) T))
     (\<lambda>merged_data. finish_compaction hasher pre lw (map meta_id T) merged_data e) = Inr e"
    then show ?thesis using compacts_to_self [OF assms(1)] by simp
  next
    fix e' es m
    assume r: "sum_bind (merge_tables (e_fs e) (map (\<lambda>m. the (findSSTableById (engine_version e) (meta_id m))) T))
     (\<lambda>merged_data. finish_compaction hasher pre lw (map meta_id T) merged_data e) = Inr e'"
      and e': "engine_inv hasher e'" "wal_ok e'" "tables_small e'" "\<And>k. map_of es k = live (newest (map (erun e) T) k)"
        "\<And>k. engine_view e' k = newest (runs_above e l T @ [es] @ runs_beside e l T @ runs_below e l) k"
        "e_flush_counter e' = e_flush_counter e + 1" "compaction_done hasher e l T es (engine_version e') (e_fs e') m" "shrinks e e'"
    have "settled e'" by (rule done_settled [OF c(1,3) assms(2) e'(4,7)])
    moreover have "live (engine_view e' k) = live (engine_view e k)" for k
      unfolding e'(5) engine_view_split [OF c(1) assms(2)]
      by (rule compaction_live [OF c(1) assms(2) settled_no_older [OF c(3) assms(2)] e'(4)])
    ultimately show ?thesis
      using r e'(1-3,6,8) unat_seq_Suc [OF assms(3)] by (simp add: compacts_to_def compactable_def engine_map_def fun_eq_iff)
  qed
qed

lemma compactL0toL1_eq:
  assumes "engine_inv hasher e"
  shows "compactL0toL1 hasher e = (if elev e 0 = [] then Inr e
     else sum_bind (merge_tables (e_fs e) (map (\<lambda>m. the (findSSTableById (engine_version e) (meta_id m))) (l0_inputs e)))
       (\<lambda>merged_data. finish_compaction hasher id 1 (map meta_id (l0_inputs e)) merged_data e))"
proof -
  let ?v = "engine_version e"
  note inv = assms and cur = engine_inv_version(1) [OF assms]
  show ?thesis
  proof (cases "elev e 0 = []")
    case True
    then show ?thesis
      using cur by (simp add: compactL0toL1_def with_version_def getCurrentVersion_def level_of_def split: if_splits)
  next
    case False
    obtain mn mx where kr: "key_range (elev e 0) = (mn, mx)" by fastforce
    have lv: "tv_levels ?v \<noteq> []" "tv_levels ?v ! 0 = elev e 0" using False by (auto simp: level_of_def split: if_splits)
    have s0: "select_tables ?v (\<lambda>_. True) (elev e 0) = map (\<lambda>m. (meta_id m, the (findSSTableById ?v (meta_id m)))) (elev e 0)"
      using select_tables_all [of "elev e 0" ?v "\<lambda>_. True"] elev_found [OF inv] by simp
    have s1: "(if length (tv_levels ?v) > 1 then select_tables ?v (overlaps mn mx) (tv_levels ?v ! 1) else []) =
        map (\<lambda>m. (meta_id m, the (findSSTableById ?v (meta_id m)))) (filter (overlaps mn mx) (elev e 1))"
      by (rule select_level [OF inv])
    show ?thesis
      using cur lv False
      by (simp add: compactL0toL1_def with_version_def getCurrentVersion_def kr s0 s1 l0_inputs_def Let_def comp_def del: One_nat_def)
  qed
qed

lemma compactL0toL1_step:
  assumes "compactable hasher e" "unat (e_flush_counter e) + 1 < 2 ^ 64"
  shows "compacts_to hasher e (compactL0toL1 hasher e)"
proof -
  have inv: "engine_inv hasher e" using assms(1) by (simp add: compactable_def)
  show ?thesis
  proof (cases "elev e 0 = []")
    case True
    then show ?thesis using compacts_to_self [OF assms(1)] by (simp add: compactL0toL1_eq [OF inv])
  next
    case False
    then show ?thesis
      using finish_step [OF assms(1) l0_taken [OF inv False] assms(2), of 1 id] by (simp add: compactL0toL1_eq [OF inv] keeps_tables_def)
  qed
qed

lemma compactlevelN_step:
  assumes "compactable hasher e" "unat (e_flush_counter e) + 1 < 2 ^ 64" "unat level + 2 < 2 ^ 32"
  shows "compacts_to hasher e (compactlevelN hasher level e)"
proof -
  let ?v = "engine_version e" and ?l = "unat level"
  have inv: "engine_inv hasher e" using assms(1) by (simp add: compactable_def)
  note cur = engine_inv_version(1) [OF inv]
  have nx: "unat (level + 1) = Suc ?l" "unat (level + 2) = Suc (Suc ?l)" using assms(3) by (simp_all add: unat_word_ariths)
  show ?thesis
  proof (cases "level = 0 \<or> elev e ?l = []")
    case True
    then have "compactlevelN hasher level e = Inr e"
      using cur by (auto simp: compactlevelN_def with_version_def getCurrentVersion_def level_of_def Let_def split: if_splits)
    then show ?thesis using compacts_to_self [OF assms(1)] by simp
  next
    case False
    let ?src = "hd (elev e ?l)"
    have lv: "?l < length (tv_levels ?v)" "tv_levels ?v ! ?l = elev e ?l" using False by (auto simp: level_of_def split: if_splits)
    have l0: "?l \<noteq> 0" using False by (simp add: unat_eq_0)
    obtain t where t: "findSSTableById ?v (meta_id ?src) = Some t"
      using elev_found [OF inv, of ?src ?l] False by auto
    have s1: "(if Suc ?l < length (tv_levels ?v)
        then select_tables ?v (overlaps (minKey ?src) (maxKey ?src)) (tv_levels ?v ! Suc ?l) else []) =
        map (\<lambda>m. (meta_id m, the (findSSTableById ?v (meta_id m)))) (filter (overlaps (minKey ?src) (maxKey ?src)) (elev e (Suc ?l)))"
      by (rule select_level [OF inv])
    define pre where "pre v = (if length (tv_levels v) \<le> Suc ?l then v\<lparr>tv_levels := resize (unat (level + 2)) (tv_levels v)\<rparr> else v)" for v :: table_version
    have "keeps_tables pre" by (simp add: keeps_tables_def pre_def nx level_of_resize)
    moreover have "compactlevelN hasher level e = sum_bind (merge_tables (e_fs e)
          (map (\<lambda>m. the (findSSTableById ?v (meta_id m))) (level_inputs ?l e)))
        (\<lambda>merged_data. finish_compaction hasher pre (level + 1) (map meta_id (level_inputs ?l e)) merged_data e)"
      using cur lv False t s1 unfolding pre_def
      by (simp add: compactlevelN_def with_version_def getCurrentVersion_def nx level_inputs_def Let_def comp_def)
    ultimately show ?thesis
      using finish_step [OF assms(1) level_taken [OF inv _ l0] assms(2) nx(1)] False assms(3) by simp
  qed
qed

end
