(* ===== verification/Compaction_Turns.thy ===== *)
theory Compaction_Turns
  imports Engine_Compaction
begin

text \<open>
  The compaction thread.  A turn runs over the levels and compacts where the limits are
  exceeded.  With no tombstone above an older version the turn changes nothing a reader can
  see; level 0 is emptied unless everything on it merges away; and a tombstone above an
  older version of a deeper level is lost together with the deletion it stands for.
\<close>

section \<open>The turn\<close>

lemma compactable_cong:
  assumes "compactable hasher e" "e_mem e' = e_mem e" "e_imm e' = e_imm e" "e_vm e' = e_vm e" "e_data_dir e' = e_data_dir e"
    and "e_flush_counter e' = e_flush_counter e" "e_seq e' = e_seq e" "e_cache e' = e_cache e" "e_fs e' = e_fs e" "e_wal e' = e_wal e"
  shows "compactable hasher e'" "engine_map e' = engine_map e"
proof -
  have c: "engine_inv hasher e" "wal_ok e" "settled e" "tables_small e" using assms(1) by (simp_all add: compactable_def)
  have i: "engine_inv hasher e' \<and> engine_layers e' = engine_layers e"
    by (rule engine_inv_frame [OF c(1)]) (use assms c(1) in \<open>simp_all add: same_tables_def engine_inv_def\<close>)
  have v: "engine_version e' = engine_version e" by (simp add: engine_version_def assms(4))
  have "settled e'" "tables_small e'"
    using c(3,4) by (simp_all add: settled_def tables_small_def weight_def v assms(9))
  moreover have "wal_ok e'" by (rule wal_ok_cong [OF c(2) assms(10,5,9)])
  ultimately show "compactable hasher e'" using i by (simp add: compactable_def)
  show "engine_map e' = engine_map e" using i by (simp add: engine_map_def engine_view_def fun_eq_iff)
qed

lemma maybeCompact_from_step:
  assumes "compactable hasher e" "unat (e_flush_counter e) + length ls < 2 ^ 64" "\<forall>l\<in>set ls. unat l + 2 < 2 ^ 32"
  shows "\<exists>e'. maybeCompact_from hasher ls e = Inr e' \<and> compactable hasher e' \<and> engine_map e' = engine_map e
     \<and> unat (e_flush_counter e') \<le> unat (e_flush_counter e) + length ls \<and> shrinks e e'"
  using assms
proof (induction ls arbitrary: e)
  case (Cons l ls)
  let ?r = "if shouldCompact l (getCurrentVersion (e_vm e))
      then (if l = 0 then compactL0toL1 hasher e else compactlevelN hasher l e) else Inr e"
  have "compacts_to hasher e ?r"
    using compactL0toL1_step [OF Cons.prems(1)] compactlevelN_step [OF Cons.prems(1)] compacts_to_self [OF Cons.prems(1)]
      Cons.prems(2,3) by simp
  then obtain e1 where e1: "?r = Inr e1" "compactable hasher e1" "engine_map e1 = engine_map e"
    "unat (e_flush_counter e1) \<le> unat (e_flush_counter e) + 1" "shrinks e e1"
    unfolding compacts_to_def by blast
  obtain e' where "maybeCompact_from hasher ls e1 = Inr e'" "compactable hasher e'" "engine_map e' = engine_map e1"
    "unat (e_flush_counter e') \<le> unat (e_flush_counter e1) + length ls" "shrinks e1 e'"
    using Cons.IH [OF e1(2)] Cons.prems(2,3) e1(4) by auto
  with e1 show ?case using shrinks_trans [of e e1 e'] by simp
qed (simp add: shrinks_self)

section \<open>An engine with a table on level 0 and one on level 2\<close>

lemma two_tables:
  assumes "dir_ok dir" "fs_inv fs" "\<And>i. fs_read (sst_name dir i) fs = None" "snapshot_ok es1" "snapshot_ok es2"
  obtains v m1 m2 bs1 bs2 fs' where "tv_levels v = [[m2], [], [m1]]" "meta_id m1 = 1" "meta_id m2 = 2"
    "fs' = fs_write_file (sst_name dir 2) bs2 (fs_write_file (sst_name dir 1) bs1 fs)"
    "version_ok hasher fs' dir v" "run_of fs' v m1 = es1" "run_of fs' v m2 = es2"
proof -
  have name: "sst_name dir 1 \<noteq> sst_name dir 2" by (simp add: sst_name_eq)
  obtain t1 fs1 where t1: "sst_flush hasher es1 dir 1 fs = Inr (t1, fs1)" "sst_path t1 = sst_name dir 1" "sst_holds hasher fs1 t1 es1"
    using sst_flush_holds [OF assms(3,4)] by blast
  obtain bs1 where bs1: "fs1 = fs_write_file (sst_name dir 1) bs1 fs" using sst_flush_file [OF t1(1)] .
  have "fs_read (sst_name dir 2) fs1 = None" using assms(2,3) name by (simp add: bs1)
  then obtain t2 fs2 where t2: "sst_flush hasher es2 dir 2 fs1 = Inr (t2, fs2)" "sst_path t2 = sst_name dir 2" "sst_holds hasher fs2 t2 es2"
    using sst_flush_holds [OF _ assms(5)] by blast
  obtain bs2 where bs2: "fs2 = fs_write_file (sst_name dir 2) bs2 fs1" using sst_flush_file [OF t2(1)] .
  have "fs_inv fs1" using assms(2) by (simp add: bs1)
  then have "fs_read (sst_path t1) fs2 = fs_read (sst_path t1) fs1" using name by (simp add: bs2 t1(2))
  then have h1: "sst_holds hasher fs2 t1 es1" using t1(3) sst_holds_cong by blast
  define m1 where "m1 = new_meta 1 2 es1 0 0"
  define m2 where "m2 = new_meta 2 0 es2 0 0"
  define v where "v = \<lparr>tv_levels = [[m2], [], [m1]], tv_sstables = [Some t1, Some t2], version_number = 0, tv_flush_counter = 2\<rparr>"
  define its where "its = [(1 :: uint64, t1), (2, t2)]"
  have tabs: "tv_sstables v = map (Some \<circ> snd) its" and paths: "\<forall>(i, t)\<in>set its. sst_path t = sst_name dir i"
    by (simp_all add: v_def its_def t1(2) t2(2))
  have ids: "meta_id m1 = 1" "meta_id m2 = 2" by (simp_all add: m1_def m2_def new_meta_def)
  have wf: "tv_wf dir v"
    unfolding tv_wf_def using assms(1) tabs paths by (auto simp: v_def its_def tv_ids_def ids intro!: exI [of _ its])
  have find: "findSSTableById v = map_of its" by (rule find_map_of [OF assms(1) tabs paths])
  have f1: "findSSTableById v (meta_id m1) = Some t1" and f2: "findSSTableById v (meta_id m2) = Some t2"
    by (simp_all add: find its_def ids)
  note r1 = run_of_new [OF f1 h1 m1_def] and r2 = run_of_new [OF f2 t2(3) m2_def]
  have "version_ok hasher fs2 dir v"
    using wf r1(2) r2(2)
    by (auto simp: version_ok_def v_def levels_tagged_def less_Suc_eq m1_def m2_def new_meta_def disjoint_level_def)
  then show ?thesis using that [of v m2 m1] ids bs1 bs2 r1(1) r2(1) by (simp add: v_def)
qed

lemma two_level_engine:
  assumes "snapshot_ok es1" "snapshot_ok es2" "older_than [es2] [es1]" "runs_agree [es2, es1]"
    and "\<forall>x\<in>set es1 \<union> set es2. ent_seq (snd x) < 4"
  obtains e m1 m2 where "engine_inv hasher e" "wal_ok e" "e_mem e = mt_new" "e_imm e = None" "e_flush_counter e = 2"
    "tv_levels (engine_version e) = [[m2], [], [m1]]" "erun e m1 = es1" "erun e m2 = es2"
    "\<not> e_shutdown e" "\<not> e_compaction_paused e" "wq_queue (e_queue e) = []" "e_seq e = 4"
proof -
  have d: "dir_ok (sst_dir ''d'')" by (rule dir_ok_no_dot) (simp add: sst_dir_def)
  obtain e0 where e0: "engine_inv hasher e0" "e_data_dir e0 = ''d''" "e_mem e0 = mt_new" "e_imm e0 = None"
    "e_fs e0 = snd (wal_open (log_path ''d'') fs_empty)" "e_wal e0 = fst (wal_open (log_path ''d'') fs_empty)" "e_flush_counter e0 = 0"
    "\<not> e_shutdown e0" "e_queue e0 = wq_new 10000"
    using engine_fresh [OF d] by metis
  have wok: "wal_ok e0" by (rule wal_ok_open [OF fs_inv_empty e0(6,5,2)])
  have fsi: "fs_inv (e_fs e0)" using e0(1) by (simp add: engine_inv_def)
  have none: "fs_read (sst_name (sst_dir ''d'') i) (e_fs e0) = None" for i
    using log_open_reads(3) [OF fs_inv_empty sst_name_not_log] by (simp add: e0(5))
  obtain v m1 m2 bs1 bs2 fs' where v: "tv_levels v = [[m2], [], [m1]]" "meta_id m1 = 1" "meta_id m2 = 2"
    "fs' = fs_write_file (sst_name (sst_dir ''d'') 2) bs2 (fs_write_file (sst_name (sst_dir ''d'') 1) bs1 (e_fs e0))"
    "version_ok hasher fs' (sst_dir ''d'') v" "run_of fs' v m1 = es1" "run_of fs' v m2 = es2"
    using two_tables [OF d fsi none assms(1,2)] by metis
  define e where "e = e0\<lparr>e_fs := fs', e_vm := \<lparr>current_version = Some v\<rparr>, e_flush_counter := 2, e_seq := 4, e_cache := None,
    e_compaction_paused := False\<rparr>"
  have f: "e_mem e = mt_new" "e_imm e = None" "e_fs e = fs'" "current_version (e_vm e) = Some v" "e_data_dir e = ''d''"
    "e_flush_counter e = 2" "e_seq e = 4" "e_cache e = None" "e_wal e = e_wal e0" "engine_version e = v"
    by (simp_all add: e_def e0 engine_version_def)
  have layers: "engine_layers e = [[[]], [[]], [es2], [], [es1]]"
    by (simp add: engine_layers_def f table_layers_def v(1,6,7) mem_run_def mt_snapshot_def mt_new_def)
  have fits: "\<forall>x\<in>set es1 \<union> set es2. entry_fits x" using assms(1,2) by (auto simp: snapshot_ok_def)
  have "layers_ok (engine_layers e)"
    using assms(3,4) by (auto simp: layers layers_ok_def older_than_def runs_agree_def)
  moreover have "versions_ok e" using fits assms(5) by (auto simp: versions_ok_def all_runs_def layers f)
  moreover have "cache_ok e" by (simp add: cache_ok_def f)
  moreover have "tv_ids v = {1, 2}" by (auto simp: tv_ids_def v(1-3))
  moreover have "fs_read (sst_name (sst_dir ''d'') i) fs' = None" if "2 < i" for i :: uint64
  proof -
    have "i \<noteq> 1" "i \<noteq> 2" using that by auto
    then show ?thesis using none fsi by (simp add: v(4) sst_name_eq)
  qed
  moreover have "fs_inv fs'" using fsi by (simp add: v(4))
  moreover have "mt_inv mt_new" by (simp add: mt_inv_def mt_new_def)
  ultimately have "engine_inv hasher e" using v(5) by (simp add: engine_inv_def f)
  moreover have "wal_ok (e0\<lparr>e_fs := fs'\<rparr>)"
    using wal_ok_write [OF wok fsi sst_name_not_log] wal_ok_write [of "e0\<lparr>e_fs := _\<rparr>", OF _ _ sst_name_not_log] fsi e0(2)
    unfolding v(4) by simp
  then have "wal_ok e" by (rule wal_ok_cong) (simp_all add: f e0(2))
  moreover have "\<not> e_shutdown e" "\<not> e_compaction_paused e" "wq_queue (e_queue e) = []"
    using e0(8,9) by (simp_all add: e_def wq_new_def)
  ultimately show ?thesis using that f v(1,6,7) by simp
qed

section \<open>Properties\<close>

text \<open>
  C11: the compaction thread preserves the map.  In a state that satisfies the invariant,
  where the tables fit into one table and no tombstone lies above an older version on a
  deeper level, a turn of the compaction thread succeeds, keeps all of this, and leaves
  every key with the value it had.
\<close>

theorem compaction_turn_preserves_map:
  assumes "compactable hasher e" "unat (e_flush_counter e) + 3 < 2 ^ 64"
  shows "\<exists>e'. compaction_turn hasher e = Inr e' \<and> compactable hasher e' \<and> engine_map e' = engine_map e"
proof (cases "\<not> e_shutdown e \<and> e_compaction_needed e \<and> \<not> e_compaction_paused e")
  case True
  let ?e = "e\<lparr>e_compaction_needed := False, e_compaction_in_progress := True\<rparr>"
  have c: "compactable hasher ?e" "engine_map ?e = engine_map e" by (rule compactable_cong [OF assms(1)]; simp)+
  obtain e1 where e1: "maybeCompactBackground hasher ?e = Inr e1" "compactable hasher e1" "engine_map e1 = engine_map ?e"
    using maybeCompact_from_step [OF c(1), of "[0, 1, 2]"] assms(2) by (auto simp: maybeCompactBackground_def)
  have "compactable hasher (e1\<lparr>e_compaction_in_progress := False\<rparr>)"
    "engine_map (e1\<lparr>e_compaction_in_progress := False\<rparr>) = engine_map e1"
    by (rule compactable_cong [OF e1(2)]; simp)+
  with True e1 c(2) show ?thesis by (simp add: compaction_turn_def)
next
  case False
  then show ?thesis using assms(1) by (auto simp: compaction_turn_def)
qed

definition run_k :: "(string \<times> entry) list" where
  "run_k = [(''k'', \<lparr>ent_value = ''v'', ent_seq = 1, ent_type = Et_PUT\<rparr>)]"

definition run_j :: "(string \<times> entry) list" where
  "run_j = [(''j'', \<lparr>ent_value = ''w'', ent_seq = 3, ent_type = Et_PUT\<rparr>)]"

definition run_del_k :: "(string \<times> entry) list" where
  "run_del_k = run_j @ [(''k'', \<lparr>ent_value = [], ent_seq = 2, ent_type = Et_DELETE\<rparr>)]"

lemmas sample_runs = run_k_def run_j_def run_del_k_def

lemma sample_runs_ok: "snapshot_ok run_k" "snapshot_ok run_j" "snapshot_ok run_del_k"
  by (simp_all add: sample_runs snapshot_ok_def entry_fits_def entry_ok_def sst_record_def)

lemma two_level_small:
  assumes "tv_levels (engine_version e) = [[m2], [], [m1]]" "erun e m1 = run_k" "erun e m2 \<in> {run_j, run_del_k}"
  shows "tables_small e"
proof -
  have "m1 \<noteq> m2" using assms(2,3) by (auto simp: sample_runs)
  then have "weight g e = sum_list (map g run_k) + sum_list (map g (erun e m2))" for g :: "string \<times> entry \<Rightarrow> nat"
    by (simp add: weight_def assms(1,2))
  with assms(3) show ?thesis by (auto simp: tables_small_def sample_runs sst_record_def)
qed

lemma two_level_view:
  assumes "tv_levels (engine_version e) = [[m2], [], [m1]]" "e_mem e = mt_new" "e_imm e = None" "engine_inv hasher e"
  shows "engine_view e k = newer (map_of (erun e m2) k) (map_of (erun e m1) k)"
  unfolding engine_view_def engine_inv_version(4) [OF assms(4)]
  by (simp add: table_layers_def assms(1-3) mem_run_def mt_snapshot_def mt_new_def)

lemma puts_compactable:
  obtains e m1 m2 where "compactable hasher e" "e_flush_counter e = 2" "engine_map e = [''k'' \<mapsto> ''v'', ''j'' \<mapsto> ''w'']"
    "tv_levels (engine_version e) = [[m2], [], [m1]]" "erun e m2 = run_j"
proof -
  have ord: "older_than [run_j] [run_k]" "runs_agree [run_j, run_k]" "\<forall>x\<in>set run_k \<union> set run_j. ent_seq (snd x) < 4"
    by (auto simp: sample_runs older_than_def runs_agree_def)
  obtain e m1 m2 where e: "engine_inv hasher e" "wal_ok e" "e_mem e = mt_new" "e_imm e = None" "e_flush_counter e = 2"
    "tv_levels (engine_version e) = [[m2], [], [m1]]" "erun e m1 = run_k" "erun e m2 = run_j"
    using two_level_engine [OF sample_runs_ok(1,2) ord] by metis
  have "a = m1 \<or> a = m2" if "a \<in> set (elev e i)" for a i
    using level_in_concat [OF that] by (auto simp: e(6))
  then have put: "ent_type x = Et_PUT" if "a \<in> set (elev e i)" "map_of (erun e a) k = Some x" for a i k x
    using that e(7,8) by (fastforce simp: sample_runs split: if_splits)
  then have "settled e" unfolding settled_def by blast
  moreover have "tables_small e" using two_level_small [OF e(6,7)] e(8) by simp
  moreover have "engine_map e = [''k'' \<mapsto> ''v'', ''j'' \<mapsto> ''w'']"
    using two_level_view [OF e(6,3,4,1)] by (auto simp: engine_map_def e(7,8) sample_runs fun_eq_iff)
  ultimately show ?thesis using that e(1,2,5,6,8) by (simp add: compactable_def)
qed

theorem compaction_turn_preserves_map_witness:
  "\<exists>e e'. engine_map e ''k'' = Some ''v'' \<and> compaction_turn (\<lambda>s. 0) e = Inr e' \<and> engine_map e' ''k'' = Some ''v''"
proof -
  obtain e where e: "compactable (\<lambda>s. 0) e" "e_flush_counter e = 2" "engine_map e = [''k'' \<mapsto> ''v'', ''j'' \<mapsto> ''w'']"
    using puts_compactable by metis
  have "unat (e_flush_counter e) + 3 < 2 ^ 64" by (simp add: e(2))
  then obtain e' where "compaction_turn (\<lambda>s. 0) e = Inr e'" "engine_map e' = engine_map e"
    using compaction_turn_preserves_map [OF e(1)] by blast
  with e(3) show ?thesis by (intro exI [of _ e] exI [of _ e']) simp
qed

text \<open>
  Level 0 is emptied.  A compaction of level 0 succeeds and either leaves level 0 empty,
  with at most one more table on level 1, or changes nothing because no key of the tables it
  took is live; in that second case the tables stay where they are and the next turn finds
  them again.
\<close>

lemma compactL0_empties_level0:
  assumes "compactable hasher e" "unat (e_flush_counter e) + 1 < 2 ^ 64"
  shows "\<exists>e'. compactL0toL1 hasher e = Inr e' \<and>
     (level_of (tv_levels (engine_version e')) 0 = [] \<and>
        length (level_of (tv_levels (engine_version e')) 1) \<le> Suc (length (level_of (tv_levels (engine_version e)) 1))
      \<or> e' = e \<and> (\<forall>k. live (newest (map (run_of (e_fs e) (engine_version e)) (l0_inputs e)) k) = None))"
proof (cases "elev e 0 = []")
  case True
  then show ?thesis using assms(1) by (auto simp: compactable_def compactL0toL1_eq)
next
  case False
  have c: "engine_inv hasher e" "wal_ok e" "tables_small e" using assms(1) by (simp_all add: compactable_def)
  note tk = l0_taken [OF c(1) False]
  have pre: "keeps_tables id" by (simp add: keeps_tables_def)
  have eq: "compactL0toL1 hasher e = sum_bind (merge_tables (e_fs e)
      (map (\<lambda>m. the (findSSTableById (engine_version e) (meta_id m))) (l0_inputs e)))
      (\<lambda>merged_data. finish_compaction hasher id 1 (map meta_id (l0_inputs e)) merged_data e)"
    using False by (simp add: compactL0toL1_eq [OF c(1)])
  show ?thesis
  proof (rule finish_cases [OF c tk assms(2) _ _ pre eq])
    fix e' es m
    assume r: "compactL0toL1 hasher e = Inr e'" "engine_inv hasher e'"
      and d: "compaction_done hasher e 0 (l0_inputs e) es (engine_version e') (e_fs e') m"
    have lv: "set (elev e' j) = {a \<in> set (elev e j). a \<notin> set (l0_inputs e)} \<union> (if j = Suc 0 then {m} else {})" for j
      using d by (simp add: compaction_done_def)
    have "set (elev e' 0) = {}" unfolding lv by (simp add: l0_inputs_def)
    then have "elev e' 0 = []" by simp
    moreover have "distinct (map meta_id (concat (tv_levels (engine_version e'))))"
      using engine_inv_version(5) [OF r(2)] by (simp add: tv_wf_def)
    then have "distinct (elev e' 1)" using distinct_level by (metis distinct_map)
    then have "length (elev e' 1) = card (set (elev e' 1))" by (simp add: distinct_card)
    moreover have "card (set (elev e' 1)) \<le> card (insert m (set (elev e 1)))"
      by (rule card_mono) (auto simp: lv)
    moreover have "card (insert m (set (elev e 1))) \<le> Suc (card (set (elev e 1)))" by (simp add: card_insert_if)
    moreover have "card (set (elev e 1)) \<le> length (elev e 1)" by (rule card_length)
    ultimately show ?thesis using r(1) by simp
  qed (use eq in auto)
qed

lemma compactL0_empties_level0_example:
  "\<exists>e e'. level_of (tv_levels (engine_version e)) 0 \<noteq> [] \<and> compactL0toL1 (\<lambda>s. 0) e = Inr e'
     \<and> level_of (tv_levels (engine_version e')) 0 = []"
proof -
  obtain e m1 m2 where e: "compactable (\<lambda>s. 0) e" "e_flush_counter e = 2"
    "tv_levels (engine_version e) = [[m2], [], [m1]]" "erun e m2 = run_j"
    using puts_compactable by metis
  have b: "unat (e_flush_counter e) + 1 < 2 ^ 64" by (simp add: e(2))
  have "l0_inputs e = [m2]" by (simp add: l0_inputs_def level_of_def e(3))
  then have "live (newest (map (erun e) (l0_inputs e)) ''j'') \<noteq> None" by (simp add: e(4) run_j_def)
  then show ?thesis using compactL0_empties_level0 [OF e(1) b] e(3) by (metis level_of_def length_greater_0_conv list.distinct(1) nth_Cons_0)
qed

text \<open>
  C21: a deletion can be undone.  When the newest version of a key among the tables that a
  compaction of level 0 takes is a tombstone, nothing younger exists in memory, and a deeper
  level still holds a put of the key, then the key reads as deleted before the compaction
  and with its old value after it, unless nothing is live among the tables taken: the merge
  drops the tombstone although the version it hides is still there.
\<close>

theorem compaction_resurrects:
  assumes "engine_inv hasher e" "wal_ok e" "tables_small e" "unat (e_flush_counter e) + 1 < 2 ^ 64"
    and "level_of (tv_levels (engine_version e)) 0 \<noteq> []" "e_mem e = mt_new" "e_imm e = None"
    and "newest (map (run_of (e_fs e) (engine_version e)) (l0_inputs e)) k = Some x" "ent_type x = Et_DELETE"
    and "newest (runs_below e 0) k = Some y" "ent_type y = Et_PUT"
    and "live (newest (map (run_of (e_fs e) (engine_version e)) (l0_inputs e)) j) \<noteq> None"
  shows "engine_map e k = None \<and> (\<exists>e'. compactL0toL1 hasher e = Inr e' \<and> engine_map e' k = Some (ent_value y))"
proof -
  note tk = l0_taken [OF assms(1,5)]
  have pre: "keeps_tables id" by (simp add: keeps_tables_def)
  have eq: "compactL0toL1 hasher e = sum_bind (merge_tables (e_fs e)
      (map (\<lambda>m. the (findSSTableById (engine_version e) (meta_id m))) (l0_inputs e)))
      (\<lambda>merged_data. finish_compaction hasher id 1 (map meta_id (l0_inputs e)) merged_data e)"
    using assms(5) by (simp add: compactL0toL1_eq [OF assms(1)])
  have above: "newest (runs_above e 0 (l0_inputs e)) k = None"
    by (auto simp: newest_None_iff runs_above_def assms(6,7) mt_snapshot_def mt_new_def mem_run_def l0_inputs_def)
  have beside: "newest (runs_beside e 0 (l0_inputs e)) k = None"
    using beside_no_key [OF assms(1) tk, of k] assms(8) by simp
  have "older_than (map (erun e) (l0_inputs e)) (runs_below e 0)"
    unfolding older_than_iff [of "map (erun e) (l0_inputs e)"]
  proof (intro ballI)
    fix r r' assume "r \<in> set (map (erun e) (l0_inputs e))" "r' \<in> set (runs_below e 0)"
    then obtain a b i where a: "r = erun e a" "a \<in> set (l0_inputs e)" and b: "r' = erun e b" "b \<in> set (elev e i)" "1 < i"
      by (auto simp: runs_below_def)
    obtain n where n: "n < i" "a \<in> set (elev e n)" using taken_level [OF tk a(2)] b(3) by auto
    show "older_than [r] [r']"
      using engine_levels_ok(2) [OF assms(1) n(1)] n(2) a(1) b(1,2) older_than_iff [of "map (erun e) (elev e n)"] by auto
  qed
  then have "newer (Some x) (newest (runs_below e 0) k) = Some x"
    using newer_older [of "map (erun e) (l0_inputs e)" "runs_below e 0" k] assms(8) by simp
  then have "engine_view e k = Some x"
    unfolding engine_view_split [OF assms(1) tk] newest_append using above beside assms(8) by simp
  then have "engine_map e k = None" using assms(9) by (simp add: engine_map_def)
  moreover have "\<exists>e'. compactL0toL1 hasher e = Inr e' \<and> engine_map e' k = Some (ent_value y)"
  proof (rule finish_cases [OF assms(1-3) tk assms(4) _ _ pre eq])
    fix e' es m
    assume r: "compactL0toL1 hasher e = Inr e'" "\<And>k. map_of es k = live (newest (map (erun e) (l0_inputs e)) k)"
      "\<And>k. engine_view e' k = newest (runs_above e 0 (l0_inputs e) @ [es] @ runs_beside e 0 (l0_inputs e) @ runs_below e 0) k"
    have "map_of es k = None" unfolding r(2) using assms(8,9) by simp
    then have "engine_view e' k = Some y" unfolding r(3) newest_append using above beside assms(10) by simp
    then show ?thesis using r(1) assms(11) by (simp add: engine_map_def)
  qed (use assms(12) in auto)
  ultimately show ?thesis ..
qed

theorem compaction_resurrects_witness:
  "\<exists>e e'. engine_map e ''k'' = None \<and> compactL0toL1 (\<lambda>s. 0) e = Inr e' \<and> engine_map e' ''k'' = Some ''v''"
proof -
  have ord: "older_than [run_del_k] [run_k]" "runs_agree [run_del_k, run_k]" "\<forall>x\<in>set run_k \<union> set run_del_k. ent_seq (snd x) < 4"
    by (auto simp: sample_runs older_than_def runs_agree_def)
  obtain e m1 m2 where e: "engine_inv (\<lambda>s. 0) e" "wal_ok e" "e_mem e = mt_new" "e_imm e = None" "e_flush_counter e = 2"
    "tv_levels (engine_version e) = [[m2], [], [m1]]" "erun e m1 = run_k" "erun e m2 = run_del_k"
    using two_level_engine [OF sample_runs_ok(1,3) ord, of "\<lambda>s. 0"] by metis
  have in0: "l0_inputs e = [m2]" by (simp add: l0_inputs_def level_of_def e(6))
  have below: "runs_below e 0 = [run_k]" by (simp add: runs_below_def level_of_def e(6,7))
  have "engine_map e ''k'' = None \<and> (\<exists>e'. compactL0toL1 (\<lambda>s. 0) e = Inr e' \<and> engine_map e' ''k'' =
      Some (ent_value \<lparr>ent_value = ''v'', ent_seq = 1, ent_type = Et_PUT\<rparr>))"
    by (rule compaction_resurrects [OF e(1,2) two_level_small [OF e(6,7)], where j = "''j''" and x = "\<lparr>ent_value = [], ent_seq = 2, ent_type = Et_DELETE\<rparr>"])
       (simp_all add: e in0 below level_of_def sample_runs)
  then show ?thesis by auto
qed

text \<open>The true total of the sizes of a level, and the limits in bytes.\<close>

definition level_total :: "table_version \<Rightarrow> nat \<Rightarrow> nat" where
  "level_total v l = sum_list (map (\<lambda>m. unat (sizeBytes m)) (level_of (tv_levels v) l))"

lemma unat_add_wrap: "unat ((a :: uint64) + b) = (unat a + unat b) mod 2 ^ 64"
  by (simp add: unat_word_ariths)

lemma size_fold:
  "unat a + sum_list (map (\<lambda>m. unat (sizeBytes m)) ms) < 2 ^ 64 \<Longrightarrow>
     unat (foldl (\<lambda>sum meta. sum + sizeBytes meta) a ms) = unat a + sum_list (map (\<lambda>m. unat (sizeBytes m)) ms)"
proof (induction ms arbitrary: a)
  case (Cons m ms)
  have "unat (a + sizeBytes m) = unat a + unat (sizeBytes m)" using Cons.prems by (simp add: unat_add_wrap)
  with Cons.IH [of "a + sizeBytes m"] Cons.prems show ?case by simp
qed simp

text \<open>
  The size limits.  When the sizes of the tables of a level add up to less than
  \<open>2 ^ 64\<close>, the wrapping sum of the code is the true total: level 0 is compacted from four
  tables on, the levels 1, 2 and 3 when their total exceeds 10, 100 and 1024 MiB, and a
  deeper level never.
\<close>

lemma shouldCompact_limits:
  assumes "level_total v (unat level) < 2 ^ 64"
  shows "shouldCompact level (Some v) \<longleftrightarrow>
     (if level = 0 then 4 \<le> length (level_of (tv_levels v) 0)
      else unat level < 4 \<and> unat (klevelSizes ! unat level) < level_total v (unat level))"
proof -
  let ?l = "unat level" and ?ms = "level_of (tv_levels v) (unat level)"
  have sum: "unat (foldl (\<lambda>sum meta. sum + sizeBytes meta) 0 ?ms) = level_total v ?l"
    using size_fold [of 0 ?ms] assms by (simp add: level_total_def)
  have l0: "level = 0 \<longleftrightarrow> ?l = 0" by (simp add: unat_eq_0)
  have k: "length klevelSizes = 4" by (simp add: klevelSizes_def)
  show ?thesis
  proof (cases "?ms = []")
    case True
    then have "\<not> shouldCompact level (Some v)" by (auto simp: shouldCompact_def level_of_def Let_def split: if_splits)
    moreover have "level_total v ?l = 0" using True by (simp add: level_total_def)
    ultimately show ?thesis using True l0 by auto
  next
    case False
    then have lv: "?l < length (tv_levels v)" "tv_levels v ! ?l = ?ms" by (auto simp: level_of_def split: if_splits)
    have "shouldCompact level (Some v) = (if level = 0 then 4 \<le> length ?ms
        else ?l < 4 \<and> klevelSizes ! ?l < foldl (\<lambda>sum meta. sum + sizeBytes meta) 0 ?ms)"
      using False lv l0 k by (auto simp: shouldCompact_def Let_def)
    then show ?thesis using sum l0 by (simp add: word_less_nat_alt)
  qed
qed

lemma shouldCompact_limits_example:
  "shouldCompact 1 (Some (tv_new\<lparr>tv_levels := [[], [(sample_meta ''a'')\<lparr>sizeBytes := 10485761\<rparr>]]\<rparr>))
   \<and> \<not> shouldCompact 1 (Some (tv_new\<lparr>tv_levels := [[], [(sample_meta ''a'')\<lparr>sizeBytes := 10485760\<rparr>]]\<rparr>))"
  by (intro conjI; subst shouldCompact_limits; simp add: level_total_def level_of_def klevelSizes_def sample_meta_def)

end
