(* ===== verification/Table_Handles.thy ===== *)
theory Table_Handles
  imports Compaction_Turns
begin

text \<open>
  The file that a table keeps open (\<open>cached_file_\<close> in \<open>engine/src/sstable.cpp\<close>).  The first \<open>get\<close> of
  a table opens its file and later ones use the open stream.  As long as the file has its name the
  two cannot be told apart, which is why the other theories read by name; once a compaction has
  removed the file, a table that was opened before still answers.
\<close>

section \<open>Open files\<close>

text \<open>The open files by path: a version has one table object for each path.\<close>

type_synonym handles = "string \<Rightarrow> nat option"

definition getFile :: "string \<Rightarrow> handles \<Rightarrow> file_system \<Rightarrow> kv_error + nat \<times> handles" where
  "getFile path h fs =
     (case h path of
        Some i \<Rightarrow> Inr (i, h)
      | None \<Rightarrow>
          (case fs_names fs path of
             None \<Rightarrow> Inl (RuntimeError (''Failed to open SSTable: '' @ path))
           | Some i \<Rightarrow> Inr (i, h(path \<mapsto> i))))"

definition closeFile :: "string \<Rightarrow> handles \<Rightarrow> handles" where
  "closeFile path h = h(path := None)"

text \<open>\<open>SSTable::get\<close> with the open file.\<close>

definition sst_get_open :: "(string \<Rightarrow> uint64) \<Rightarrow> handles \<Rightarrow> file_system \<Rightarrow> sstable \<Rightarrow> string \<Rightarrow>
    kv_error + entry option \<times> handles" where
  "sst_get_open hasher h fs t key =
     (if key < sst_min t \<or> key > sst_max t then Inr (None, h)
      else sum_bind (case sst_bloom t of None \<Rightarrow> Inr True | Some bf \<Rightarrow> bf_contains hasher bf key) (\<lambda>may.
        if \<not> may then Inr (None, h)
        else sum_bind (getFile (sst_path t) h fs) (\<lambda>(file, h').
          case sst_meta_off t of
            None \<Rightarrow> Inl UndefinedBehaviour
          | Some off \<Rightarrow>
              let (search_start, search_end) = sst_search_range (sst_index t) off key
              in sum_bind (sst_scan key (search_end - search_start) (drop search_start (fs_inodes fs file)))
                   (\<lambda>r. Inr (r, h')))))"

text \<open>What the tables see: by name, unless a file is open.\<close>

definition with_handles :: "handles \<Rightarrow> file_system \<Rightarrow> file_system" where
  "with_handles h fs = fs\<lparr>fs_names := fs_names fs ++ h\<rparr>"

lemma with_handles_read:
  "fs_read p (with_handles h fs) = (case h p of Some i \<Rightarrow> Some (fs_inodes fs i) | None \<Rightarrow> fs_read p fs)"
  by (simp add: with_handles_def fs_read_def map_add_def split: option.split)

lemma getFile_read:
  "getFile p h fs = Inl err \<Longrightarrow> fs_read p (with_handles h fs) = None \<and> err = RuntimeError (''Failed to open SSTable: '' @ p)"
  "getFile p h fs = Inr (i, h') \<Longrightarrow> fs_read p (with_handles h fs) = Some (fs_inodes fs i)"
  unfolding with_handles_read by (auto simp: getFile_def fs_read_def split: option.splits)

lemma sst_get_open_result:
  "sum_bind (sst_get_open hasher h fs t key) (\<lambda>(r, h'). Inr r) = sst_get hasher (with_handles h fs) t key"
proof -
  define may where "may = (case sst_bloom t of None \<Rightarrow> Inr True | Some bf \<Rightarrow> bf_contains hasher bf key)"
  show ?thesis
  proof (cases "getFile (sst_path t) h fs")
    case (Inl err)
    with getFile_read(1) [OF Inl] show ?thesis
      unfolding sst_get_open_def sst_get_def may_def [symmetric] by (cases may) simp_all
  next
    case (Inr x)
    obtain i h' where x: "x = (i, h')" by (cases x)
    have "fs_read (sst_path t) (with_handles h fs) = Some (fs_inodes fs i)"
      using getFile_read(2) Inr x by blast
    moreover have "sum_bind (sum_bind s (\<lambda>r. Inr (r, h'))) (\<lambda>(r, h'). Inr r) = s" for s :: "kv_error + entry option"
      by (cases s) simp_all
    ultimately show ?thesis
      using Inr x unfolding sst_get_open_def sst_get_def may_def [symmetric]
      by (cases may) (auto split: option.split prod.split)
  qed
qed

text \<open>Opening leaves alone what the tables see.\<close>

lemma getFile_same: "getFile p h fs = Inr (i, h') \<Longrightarrow> with_handles h' fs = with_handles h fs"
proof -
  assume "getFile p h fs = Inr (i, h')"
  then have "h' x = None \<and> h x = None \<or> h' x = h x \<or> h x = None \<and> h' x = fs_names fs x" for x
    by (auto simp: getFile_def split: option.splits if_splits)
  then have "(fs_names fs ++ h') x = (fs_names fs ++ h) x" for x
    by (metis map_add_None map_add_def option.simps(4,5) option.exhaust)
  then show "with_handles h' fs = with_handles h fs" by (simp add: with_handles_def fun_eq_iff)
qed

text \<open>While every open file has its name, reading by name is the same.\<close>

definition handles_named :: "handles \<Rightarrow> file_system \<Rightarrow> bool" where
  "handles_named h fs \<longleftrightarrow> (\<forall>p i. h p = Some i \<longrightarrow> fs_names fs p = Some i)"

lemma named_handles: "handles_named h fs \<Longrightarrow> with_handles h fs = fs"
  by (cases fs) (auto simp: handles_named_def with_handles_def map_add_def fun_eq_iff split: option.split)

lemma getFile_named: "handles_named h fs \<Longrightarrow> getFile p h fs = Inr (i, h') \<Longrightarrow> handles_named h' fs"
  by (auto simp: getFile_def handles_named_def split: option.splits if_splits)

lemma closeFile_named: "handles_named h fs \<Longrightarrow> handles_named (closeFile p h) fs"
  by (simp add: handles_named_def closeFile_def)

lemma sst_get_open_named:
  assumes "handles_named h fs"
  shows "sum_bind (sst_get_open hasher h fs t key) (\<lambda>(r, h'). Inr r) = sst_get hasher fs t key"
  using sst_get_open_result named_handles [OF assms] by metis

section \<open>Files that are not written again\<close>

lemma write_other_inode:
  assumes "fs_inv fs" "fs_names fs p = Some i" "q \<noteq> p"
  shows "fs_names (fs_write_file q bs fs) p = Some i" "fs_inodes (fs_write_file q bs fs) i = fs_inodes fs i"
proof -
  have "i < fs_next fs" "\<And>j. fs_names fs q = Some j \<Longrightarrow> j \<noteq> i" using assms unfolding fs_inv_def by blast+
  then show "fs_names (fs_write_file q bs fs) p = Some i" "fs_inodes (fs_write_file q bs fs) i = fs_inodes fs i"
    using assms(2,3) by (auto simp: fs_write_file_def fs_open_create_def split: option.split)
qed

lemma compaction_keeps_inode:
  assumes "finish_compaction hasher pre lw ids es e = Inr e'" "fs_inv (e_fs e)"
    and "fs_names (e_fs e) (table_path (e_data_dir e) j) = Some i" "j \<noteq> e_flush_counter e + 1"
  shows "fs_inodes (e_fs e') i = fs_inodes (e_fs e) i"
proof (cases "es = []")
  case True
  then show ?thesis using assms(1) by (simp add: finish_compaction_def)
next
  case False
  let ?dir = "e_data_dir e" and ?fc = "e_flush_counter e + 1" and ?p = "table_path (e_data_dir e) j"
  obtain tab fs1 v where fs1: "sst_flush hasher es (sst_dir ?dir) ?fc (e_fs e) = Inr (tab, fs1)"
    and e': "e_fs e' = remove_tables ?dir ids (saveMetadata ?dir ?fc (e_seq e) v fs1)"
    using assms(1) False by (auto simp: finish_compaction_def Let_def sum_bind_Inr_conv clear_cache_def)
  obtain bs where bs: "fs1 = fs_write_file (sst_name (sst_dir ?dir) ?fc) bs (e_fs e)" using sst_flush_file [OF fs1] .
  have names: "sst_name (sst_dir ?dir) ?fc \<noteq> ?p" "?dir @ ''/metadata.txt'' \<noteq> ?p" "?dir @ ''/levels.txt'' \<noteq> ?p"
    using assms(4) sst_name_not_meta [of ?dir j] by (auto simp: table_path_name sst_name_eq dest: sym)
  note w1 = write_other_inode [OF assms(2,3) names(1), of bs, folded bs]
  have inv1: "fs_inv fs1" using assms(2) by (simp add: bs)
  note w2 = write_other_inode [OF inv1 w1(1) names(2), of "print_counters ?fc (e_seq e)"]
  note w3 = write_other_inode [OF fs_inv_write [OF inv1] w2(1) names(3), of "print_levels (tv_levels v)"]
  show ?thesis using w1(2) w2(2) w3(2) by (simp add: e' remove_tables_names saveMetadata_def)
qed

section \<open>Reads of a version on other files\<close>

lemma sst_get_cong: "fs_read (sst_path t) fs' = fs_read (sst_path t) fs \<Longrightarrow> sst_get hasher fs' t key = sst_get hasher fs t key"
  unfolding sst_get_def by (simp only:)

lemma get_l0_cong:
  assumes "\<And>i t. findSSTableById v i = Some t \<Longrightarrow> fs_read (sst_path t) fs' = fs_read (sst_path t) fs"
  shows "get_l0 hasher fs' v key metas cand = get_l0 hasher fs v key metas cand"
proof (induction metas arbitrary: cand)
  case (Cons m metas)
  have "findSSTableById v (meta_id m) = Some t \<Longrightarrow> sst_get hasher fs' t key = sst_get hasher fs t key" for t
    using sst_get_cong assms by blast
  then show ?case using Cons.IH by (simp split: option.split)
qed simp

lemma get_levels_cong:
  assumes "\<And>i t. findSSTableById v i = Some t \<Longrightarrow> fs_read (sst_path t) fs' = fs_read (sst_path t) fs"
  shows "get_levels hasher fs' v key l ls cand = get_levels hasher fs v key l ls cand"
proof (induction ls arbitrary: l cand)
  case (Cons metas ls)
  have "findSSTableById v i = Some t \<Longrightarrow> sst_get hasher fs' t key = sst_get hasher fs t key" for i t
    using sst_get_cong assms by blast
  then show ?case
    using get_l0_cong [OF assms] by (simp add: Cons.IH Let_def cong: if_cong split: option.split)
qed simp

end
