(* ===== verification/Engine_Calls.thy ===== *)
theory Engine_Calls
  imports Engine_Writes
begin

text \<open>
  The blocking calls of the engine, \<open>put\<close>, \<open>del\<close> and \<open>get\<close>, as their callers see them: on an
  engine whose queue is empty and that has no memtable waiting to be flushed, each call returns
  and acts on the map of keys and values.
\<close>

definition engine_ready :: "(string \<Rightarrow> uint64) \<Rightarrow> engine \<Rightarrow> bool" where
  "engine_ready hasher e \<longleftrightarrow> engine_inv hasher e \<and> wal_ok e \<and> e_imm e = None
     \<and> wq_queue (e_queue e) = [] \<and> \<not> wq_shutdown (e_queue e) \<and> 0 < wq_max_size (e_queue e)"

text \<open>How much a call can add to the size of the memtable.\<close>

lemma entries_size_put:
  "entries_size (smap_put k en m) \<le> entries_size m + 17 + length k + length (ent_value en)"
  by (induction k en m rule: smap_put.induct) auto

lemma mem_size_write:
  assumes "request_ok r"
  shows "mt_getSize (e_mem (snd (write_batch zcrc [r] e)))
     \<le> mt_getSize (e_mem e) + 17 + length (wr_key r) + length (wr_value r)"
  using entries_size_put [of "wr_key r" "request_entry r (e_seq e)" "mt_map (e_mem e)"]
  by (auto simp: write_one_eq [OF assms] mt_getSize_def invalidate_cache_def request_entry_def)

definition fits_in_memtable :: "nat \<Rightarrow> engine \<Rightarrow> bool" where
  "fits_in_memtable n e \<longleftrightarrow> mt_getSize (e_mem e) + n < kMemTableThreshold"

text \<open>One queued request and the turn that serves it.\<close>

lemma one_request:
  assumes "engine_ready hasher e" "request_ok r" "unat (e_seq e) + 1 < 2 ^ 64"
  obtains e' where
    "engine_push (wr_op r) (wr_key r) (wr_value r) (wr_completion r) e
       = (Push_queued ((e_queue e)\<lparr>wq_queue := [r]\<rparr>), e\<lparr>e_queue := (e_queue e)\<lparr>wq_queue := [r]\<rparr>\<rparr>)"
    "writer_turn zcrc [] (e\<lparr>e_queue := (e_queue e)\<lparr>wq_queue := [r]\<rparr>\<rparr>) = Some ([(wr_completion r, True)], e')"
    "engine_inv hasher e'" "wal_ok e'" "engine_map e' = apply_request r (engine_map e)" "e_queue e' = e_queue e"
    "unat (e_seq e') = unat (e_seq e) + 1"
    "\<And>n. fits_in_memtable (17 + length (wr_key r) + length (wr_value r) + n) e \<Longrightarrow>
       engine_ready hasher e' \<and> fits_in_memtable n e'"
proof -
  let ?q = "(e_queue e)\<lparr>wq_queue := [r]\<rparr>"
  let ?e = "e\<lparr>e_queue := ?q\<rparr>"
  have same: "engine_layers ?e = engine_layers e" by (rule engine_layers_cong) simp_all
  have q: "wq_queue (e_queue e) = []" "\<not> wq_shutdown (e_queue e)" "0 < wq_max_size (e_queue e)" "e_imm e = None"
    using assms(1) by (simp_all add: engine_ready_def)
  have pre: "engine_inv hasher ?e" "wal_ok ?e" "engine_map ?e = engine_map e"
    using assms(1) same by (simp_all add: engine_ready_def engine_inv_def versions_ok_def all_runs_def cache_ok_def
        engine_view_def wal_ok_def engine_map_def fun_eq_iff)
  have pb: "wq_popBatch MAX_BATCH_SIZE [] (e_queue ?e) = Some ([r], e_queue e)"
    using q(1) by (cases "e_queue e") (simp add: wq_popBatch_def wq_take_eq MAX_BATCH_SIZE_def)
  obtain e' where e': "writer_turn zcrc [] ?e = Some (map (\<lambda>r. (wr_completion r, True)) [r], e')"
    "engine_inv hasher e'" "wal_ok e'" "engine_map e' = fold apply_request [r] (engine_map ?e)" "e_queue e' = e_queue e"
    "unat (e_seq e') = unat (e_seq ?e) + length [r]"
    "mt_getSize (e_mem (snd (write_batch zcrc [r] (?e\<lparr>e_queue := e_queue e\<rparr>)))) < kMemTableThreshold \<longrightarrow>
       e_imm e' = None \<and> e_mem e' = e_mem (snd (write_batch zcrc [r] (?e\<lparr>e_queue := e_queue e\<rparr>)))"
    by (rule writer_turn_correct [OF pre(1,2) _ pb, of zcrc]) (use assms q in simp_all)
  have p: "engine_push (wr_op r) (wr_key r) (wr_value r) (wr_completion r) e = (Push_queued ?q, ?e)"
    using q by (cases r) (simp add: engine_push_def wq_push_def)
  have "engine_ready hasher e' \<and> fits_in_memtable n e'"
    if "fits_in_memtable (17 + length (wr_key r) + length (wr_value r) + n) e" for n
    using that e'(2,3,5,7) q mem_size_write [OF assms(2), of zcrc "?e\<lparr>e_queue := e_queue e\<rparr>"]
    by (auto simp: engine_ready_def fits_in_memtable_def)
  then show ?thesis using that [OF p _ e'(2,3) _ e'(5)] e' pre(3) by simp
qed

lemma engine_put_correct:
  assumes "engine_ready hasher e" "length key < 2 ^ 32" "length val < 2 ^ 32" "unat (e_seq e) + 1 < 2 ^ 64"
  obtains e' where "engine_put zcrc key val c e = Some (True, e')"
    "engine_inv hasher e'" "wal_ok e'" "engine_map e' = (engine_map e)(key \<mapsto> val)" "e_queue e' = e_queue e"
    "unat (e_seq e') = unat (e_seq e) + 1"
    "\<And>n. fits_in_memtable (17 + length key + length val + n) e \<Longrightarrow> engine_ready hasher e' \<and> fits_in_memtable n e'"
proof -
  let ?r = "\<lparr>wr_op = Op_PUT, wr_key = key, wr_value = val, wr_completion = c\<rparr>"
  have r: "request_ok ?r" using assms by (simp add: request_ok_def)
  obtain e' where e': "engine_push Op_PUT key val c e
       = (Push_queued ((e_queue e)\<lparr>wq_queue := [?r]\<rparr>), e\<lparr>e_queue := (e_queue e)\<lparr>wq_queue := [?r]\<rparr>\<rparr>)"
    "writer_turn zcrc [] (e\<lparr>e_queue := (e_queue e)\<lparr>wq_queue := [?r]\<rparr>\<rparr>) = Some ([(c, True)], e')"
    "engine_inv hasher e'" "wal_ok e'" "engine_map e' = apply_request ?r (engine_map e)" "e_queue e' = e_queue e"
    "unat (e_seq e') = unat (e_seq e) + 1"
    "\<And>n. fits_in_memtable (17 + length key + length val + n) e \<Longrightarrow> engine_ready hasher e' \<and> fits_in_memtable n e'"
    by (rule one_request [OF assms(1) r assms(4), of zcrc]) simp
  then have "engine_put zcrc key val c e = Some (True, e')" by (simp add: engine_put_def putAsync_def)
  then show ?thesis using e' by (intro that) (simp_all add: apply_request_def)
qed

lemma engine_ready_cache:
  assumes "engine_ready hasher e" "engine_inv hasher (e\<lparr>e_cache := c\<rparr>)"
  shows "engine_ready hasher (e\<lparr>e_cache := c\<rparr>)" "engine_map (e\<lparr>e_cache := c\<rparr>) = engine_map e"
  using assms by (simp_all add: engine_ready_def wal_ok_def engine_map_def fun_eq_iff)

lemma fits_in_memtable_cache [simp]: "fits_in_memtable n (e\<lparr>e_cache := c\<rparr>) = fits_in_memtable n e"
  by (simp add: fits_in_memtable_def)

lemma engine_get_ready:
  assumes "engine_ready hasher e"
  obtains r c where "engine_get hasher key e = Inr (r, e\<lparr>e_cache := c\<rparr>)" "engine_ready hasher (e\<lparr>e_cache := c\<rparr>)"
    "map_option ent_value r = engine_map e key" "\<And>x. r = Some x \<Longrightarrow> ent_type x = Et_PUT"
proof -
  have inv: "engine_inv hasher e" using assms by (simp add: engine_ready_def)
  obtain e' where e': "engine_get hasher key e = Inr (live (engine_view e key), e')" "engine_inv hasher e'"
    "\<exists>c. e' = e\<lparr>e_cache := c\<rparr>"
    using engine_get_correct [OF inv] by metis
  then obtain c where c: "e' = e\<lparr>e_cache := c\<rparr>" by blast
  have "ent_type x = Et_PUT" if "live (engine_view e key) = Some x" for x
    using that by (cases "engine_view e key") (auto split: if_splits)
  then show ?thesis
    using that [of "live (engine_view e key)" c] e' engine_ready_cache [OF assms] c by (simp add: engine_map_def)
qed

lemma engine_del_correct:
  assumes "engine_ready hasher e" "length key < 2 ^ 32" "unat (e_seq e) + 1 < 2 ^ 64"
  obtains e' where "engine_del hasher zcrc key c e = Inr (Some (engine_map e key \<noteq> None, e'))"
    "engine_inv hasher e'" "wal_ok e'" "engine_map e' = (engine_map e)(key := None)" "e_queue e' = e_queue e"
    "unat (e_seq e') = unat (e_seq e) + 1"
    "\<And>n. fits_in_memtable (17 + length key + n) e \<Longrightarrow> engine_ready hasher e' \<and> fits_in_memtable n e'"
proof -
  let ?r = "\<lparr>wr_op = Op_DELETE, wr_key = key, wr_value = [], wr_completion = c\<rparr>"
  obtain r ca where g: "engine_get hasher key e = Inr (r, e\<lparr>e_cache := ca\<rparr>)" "engine_ready hasher (e\<lparr>e_cache := ca\<rparr>)"
    "map_option ent_value r = engine_map e key"
    using engine_get_ready [OF assms(1)] by metis
  let ?e = "e\<lparr>e_cache := ca\<rparr>"
  have r: "request_ok ?r" using assms by (simp add: request_ok_def)
  obtain e' where e': "engine_push Op_DELETE key [] c ?e
       = (Push_queued ((e_queue ?e)\<lparr>wq_queue := [?r]\<rparr>), ?e\<lparr>e_queue := (e_queue ?e)\<lparr>wq_queue := [?r]\<rparr>\<rparr>)"
    "writer_turn zcrc [] (?e\<lparr>e_queue := (e_queue ?e)\<lparr>wq_queue := [?r]\<rparr>\<rparr>) = Some ([(c, True)], e')"
    "engine_inv hasher e'" "wal_ok e'" "engine_map e' = apply_request ?r (engine_map ?e)" "e_queue e' = e_queue ?e"
    "unat (e_seq e') = unat (e_seq ?e) + 1"
    "\<And>n. fits_in_memtable (17 + length key + n) ?e \<Longrightarrow> engine_ready hasher e' \<and> fits_in_memtable n e'"
    by (rule one_request [OF g(2) r, of zcrc]) (use assms(3) in simp_all)
  have "engine_map ?e = engine_map e" by (rule engine_ready_cache(2) [OF assms(1)]) (use g(2) in \<open>simp add: engine_ready_def\<close>)
  moreover have "(r \<noteq> None) = (engine_map e key \<noteq> None)" using g(3) [symmetric] by (cases r) auto
  moreover have "engine_del hasher zcrc key c e = Inr (Some (r \<noteq> None, e'))"
    using e'(1,2) g(1) by (simp add: engine_del_def delAsync_def)
  ultimately show ?thesis using e' by (intro that) (simp_all add: apply_request_def)
qed

text \<open>An engine on an empty directory is ready.\<close>

lemma engine_fresh_ready:
  obtains e where "engine_open (\<lambda>c b. c) ''d'' 2 fs_empty = Inr e" "engine_ready (\<lambda>s. 0) e"
    "engine_map e = Map.empty" "unat (e_seq e) = 1" "\<And>n. n < kMemTableThreshold \<Longrightarrow> fits_in_memtable n e"
proof -
  have d: "dir_ok (sst_dir ''d'')" by (rule dir_ok_no_dot) (simp add: sst_dir_def)
  obtain e where e: "engine_open (\<lambda>c b. c) ''d'' 2 fs_empty = Inr e" "engine_inv (\<lambda>s. 0) e" "\<And>k. engine_view e k = None"
    "e_data_dir e = ''d''" "e_mem e = mt_new" "e_imm e = None" "e_seq e = 1"
    "e_fs e = snd (wal_open (log_path ''d'') fs_empty)" "e_wal e = fst (wal_open (log_path ''d'') fs_empty)"
    using engine_fresh [OF d, of "\<lambda>c b. c" 2 "\<lambda>s. 0"] by metis
  have q: "e_queue e = wq_new 10000"
    using e(1) by (auto simp: engine_open_def engine_load_def engine_init_def recover_def Let_def sum_bind_Inr_conv
        split: prod.splits option.splits if_splits)
  have "wal_ok e" using e(4,8,9) by (intro wal_ok_open [of fs_empty _ "''d''"]) simp_all
  then have "engine_ready (\<lambda>s. 0) e" using e(2,6) q by (simp add: engine_ready_def wq_new_def)
  moreover have "engine_map e = Map.empty" using e(3) by (simp add: engine_map_def fun_eq_iff)
  moreover have "unat (e_seq e) = 1" using e(7) by simp
  moreover have "fits_in_memtable n e" if "n < kMemTableThreshold" for n
    using that e(5) by (simp add: fits_in_memtable_def mt_getSize_def mt_new_def)
  ultimately show ?thesis using that e(1) by blast
qed

end
