(* ===== verification/Read_Races.thy ===== *)
theory Read_Races
  imports Table_Handles Engine_Calls
begin

text \<open>
  Reads that other threads overtake.  \<open>StorageEngine::get\<close> holds no lock over its parts: it takes
  the memtables and the current version, then reads the files of that version, and last puts what
  it found into the cache.  The parts are functions of their own here.  Run one after the other
  they are the read of the other theories; a write between the last two leaves an old value in the
  cache, a compaction between the first two takes the files away, and a read between the two
  assignments of a hand-over finds the memtable in neither place.
\<close>

section \<open>The parts of a read\<close>

text \<open>What a read finds in memory, and the version it goes on with.\<close>

definition read_memory :: "string \<Rightarrow> engine \<Rightarrow> kv_error + entry option \<times> table_version" where
  "read_memory key e =
     with_version e (\<lambda>v. Inr (newer (mt_get (e_mem e) key)
       (case e_imm e of None \<Rightarrow> None | Some t \<Rightarrow> mt_get t key), v))"

text \<open>The levels of that version, on the files there are by then.\<close>

definition read_files :: "(string \<Rightarrow> uint64) \<Rightarrow> string \<Rightarrow> file_system \<Rightarrow> entry option \<times> table_version \<Rightarrow> kv_error + entry option" where
  "read_files hasher key fs s =
     (case s of (candidate, v) \<Rightarrow>
        sum_bind (get_levels hasher fs v key 0 (tv_levels v) candidate) (\<lambda>c.
          Inr (case c of None \<Rightarrow> None | Some x \<Rightarrow> if ent_type x = Et_DELETE then None else Some x)))"

text \<open>Putting the result into the cache.\<close>

definition read_fill :: "string \<Rightarrow> entry option \<Rightarrow> engine \<Rightarrow> kv_error + engine" where
  "read_fill key r e =
     (case (r, e_cache e) of
        (Some x, Some c) \<Rightarrow> sum_bind (lru_put key x c) (\<lambda>c'. Inr (e\<lparr>e_cache := Some c'\<rparr>))
      | _ \<Rightarrow> Inr e)"

lemma read_parts: "get_uncached hasher key e = sum_bind (read_memory key e) (read_files hasher key (e_fs e))"
  by (simp add: get_uncached_def read_memory_def read_files_def with_version_def Let_def split: option.split)

text \<open>The whole read, after its lookup in the cache has failed.\<close>

lemma read_whole:
  assumes "e_cache e = Some c" "fst (lru_get key c) = None"
  shows "engine_get hasher key e =
     sum_bind (read_memory key e) (\<lambda>s. sum_bind (read_files hasher key (e_fs e) s) (\<lambda>r.
       sum_bind (read_fill key r (e\<lparr>e_cache := Some (snd (lru_get key c))\<rparr>)) (\<lambda>e'. Inr (r, e'))))"
proof -
  obtain c' where c': "lru_get key c = (None, c')" using assms(2) by (cases "lru_get key c") simp
  have m: "read_memory key (e\<lparr>e_cache := Some c'\<rparr>) = read_memory key e" by (simp add: read_memory_def with_version_def)
  show ?thesis
    by (cases "read_memory key e")
      (auto simp: engine_get_def assms(1) c' read_parts m read_fill_def sum_bind_def split: sum.splits option.splits)
qed

section \<open>A write before the cache is filled\<close>

lemma fill_hits:
  assumes "engine_inv hasher e" "e_cache e = Some c"
  shows "\<exists>e'. read_fill key (Some x) e = Inr e' \<and> engine_map e' = engine_map e
     \<and> (\<exists>e''. engine_get hasher key e' = Inr (Some x, e''))"
proof -
  have "lru_inv c" using assms by (simp add: engine_inv_def cache_ok_def)
  then obtain c' where c': "lru_put key x c = Inr c'" "lru_inv c'" "lru_contents c' key = Some x"
    using lru.put_ok by blast
  then have "fst (lru_get key c') = Some x" using lru.get_contents by simp
  then obtain c'' where "lru_get key c' = (Some x, c'')" by (cases "lru_get key c'") simp
  then have "engine_get hasher key (e\<lparr>e_cache := Some c'\<rparr>) = Inr (Some x, e\<lparr>e_cache := Some c''\<rparr>)"
    by (simp add: engine_get_def)
  moreover have "engine_map (e\<lparr>e_cache := Some c'\<rparr>) = engine_map e" by (simp add: engine_map_def fun_eq_iff)
  ultimately show ?thesis using c'(1) assms(2) by (auto simp: read_fill_def)
qed

text \<open>A write invalidates an entry of the cache; it does not take the cache away.\<close>

lemma write_one_cache: "(e_cache (snd (write_one zcrc r e)) = None) = (e_cache e = None)"
  by (cases "wr_op r") (auto simp: write_one_def invalidate_cache_def Let_def split: prod.split)

lemma write_batch_cache: "(e_cache (snd (write_batch zcrc rs e)) = None) = (e_cache e = None)"
proof (induction rs arbitrary: e)
  case (Cons r rs)
  obtain ok e1 where "write_one zcrc r e = (ok, e1)" by fastforce
  moreover obtain results e2 where "write_batch zcrc rs e1 = (results, e2)" by fastforce
  ultimately show ?case using Cons [of e1] write_one_cache [of zcrc r e] by simp
qed simp

lemma wal_flush_cache [simp]: "e_cache (engine_wal_flush e) = e_cache e"
  by (simp add: engine_wal_flush_def split: prod.split)

lemma checkFlush_cache: "checkFlush debug e = Some e' \<Longrightarrow> e_cache e' = e_cache e"
  by (auto simp: checkFlush_def Let_def split: if_splits)

lemma writer_turn_cache:
  assumes "writer_turn zcrc gap e = Some (results, e')"
  shows "(e_cache e' = None) = (e_cache e = None)"
proof -
  obtain batch q e1 where "write_batch zcrc batch (e\<lparr>e_queue := q\<rparr>) = (results, e1)" "checkFlush False (engine_wal_flush e1) = Some e'"
    using assms by (auto simp: writer_turn_def writer_apply_def split: option.splits if_splits prod.splits)
  then show ?thesis
    using write_batch_cache [of zcrc batch "e\<lparr>e_queue := q\<rparr>"] checkFlush_cache [of False "engine_wal_flush e1" e'] by simp
qed

lemma engine_push_cache: "e_cache (snd (engine_push op key val n e)) = e_cache e"
  by (simp add: engine_push_def Let_def split: push_result.split)

lemma put_keeps_cache:
  assumes "engine_put zcrc key val n e = Some (ok, e')"
  shows "(e_cache e' = None) = (e_cache e = None)"
proof -
  obtain r e1 where p: "putAsync key val n e = (r, e1)" by fastforce
  have "e_cache e1 = e_cache e" using engine_push_cache [of Op_PUT key val n e] p by (simp add: putAsync_def)
  then show ?thesis
    using assms p writer_turn_cache [of zcrc "[]" e1] by (auto simp: engine_put_def split: push_result.splits option.splits)
qed

text \<open>
  C22: a read can put an old value into the cache.  When a put of the key is acknowledged between
  a read of its files and the last part of that read, the engine holds the new value, and the
  next read of the key is answered from the cache with the old one.
\<close>

theorem late_fill_serves_old_value:
  assumes "engine_ready hasher e" "e_cache e \<noteq> None" "length key < 2 ^ 32" "length val < 2 ^ 32" "unat (e_seq e) + 1 < 2 ^ 64"
    and "read_memory key e = Inr s" "read_files hasher key (e_fs e) s = Inr (Some x)"
  shows "engine_map e key = Some (ent_value x)
     \<and> (\<exists>e1 e2 e3. engine_put zcrc key val n e = Some (True, e1) \<and> read_fill key (Some x) e1 = Inr e2
          \<and> engine_map e2 key = Some val \<and> engine_get hasher key e2 = Inr (Some x, e3))"
proof
  have inv: "engine_inv hasher e" using assms(1) by (simp add: engine_ready_def)
  have "get_uncached hasher key e = Inr (Some x)" using assms(6,7) by (simp add: read_parts)
  then show "engine_map e key = Some (ent_value x)" using get_uncached_view [OF inv, of key] by (simp add: engine_map_def)
  obtain e1 where e1: "engine_put zcrc key val n e = Some (True, e1)" "engine_inv hasher e1"
    "engine_map e1 = (engine_map e)(key \<mapsto> val)"
    by (rule engine_put_correct [OF assms(1,3,4,5), of zcrc n])
  obtain c where c: "e_cache e1 = Some c" using put_keeps_cache [OF e1(1)] assms(2) by auto
  obtain e2 e3 where "read_fill key (Some x) e1 = Inr e2" "engine_map e2 = engine_map e1" "engine_get hasher key e2 = Inr (Some x, e3)"
    using fill_hits [OF e1(2) c, of key x] by blast
  then show "\<exists>e1 e2 e3. engine_put zcrc key val n e = Some (True, e1) \<and> read_fill key (Some x) e1 = Inr e2
      \<and> engine_map e2 key = Some val \<and> engine_get hasher key e2 = Inr (Some x, e3)"
    using e1(1,3) by auto
qed

theorem late_fill_serves_old_value_witness:
  "\<exists>e x e1 e2 e3. engine_map e ''k'' = Some ''v'' \<and> get_uncached (\<lambda>s. 0) ''k'' e = Inr (Some x)
     \<and> engine_put (\<lambda>c b. c) ''k'' ''w'' 1 e = Some (True, e1) \<and> read_fill ''k'' (Some x) e1 = Inr e2
     \<and> engine_map e2 ''k'' = Some ''w'' \<and> engine_get (\<lambda>s. 0) ''k'' e2 = Inr (Some x, e3) \<and> ent_value x = ''v''"
proof -
  obtain e0 where e0: "engine_open (\<lambda>c b. c) ''d'' 2 fs_empty = Inr e0" "engine_ready (\<lambda>s. 0) e0"
    "engine_map e0 = Map.empty" "unat (e_seq e0) = 1" "\<And>n. n < kMemTableThreshold \<Longrightarrow> fits_in_memtable n e0"
    by (rule engine_fresh_ready) blast
  have "e_cache e0 \<noteq> None"
    using e0(1) by (auto simp: engine_open_def engine_load_def engine_init_def recover_def Let_def sum_bind_Inr_conv
        split: prod.splits option.splits if_splits)
  obtain e where e: "engine_put (\<lambda>c b. c) ''k'' ''v'' 0 e0 = Some (True, e)" "engine_map e = [''k'' \<mapsto> ''v'']" "unat (e_seq e) = 2"
    "\<And>n. fits_in_memtable (17 + 1 + 1 + n) e0 \<Longrightarrow> engine_ready (\<lambda>s. 0) e \<and> fits_in_memtable n e"
    by (rule engine_put_correct [OF e0(2), of "''k''" "''v''" "\<lambda>c b. c" 0]) (use e0(3,4) in auto)
  have ready: "engine_ready (\<lambda>s. 0) e" using e(4) [of 0] e0(5) [of "17 + 1 + 1 + 0"] by (simp add: kMemTableThreshold_def)
  have cache: "e_cache e \<noteq> None" using put_keeps_cache [OF e(1)] \<open>e_cache e0 \<noteq> None\<close> by simp
  have "engine_inv (\<lambda>s. 0) e" using ready by (simp add: engine_ready_def)
  note view = get_uncached_view [OF this, of "''k''"]
  have "map_option ent_value (live (engine_view e ''k'')) = Some ''v''" using fun_cong [OF e(2), of "''k''"] by (simp add: engine_map_def)
  then obtain x where x: "get_uncached (\<lambda>s. 0) ''k'' e = Inr (Some x)" using view by auto
  then obtain s where s: "read_memory ''k'' e = Inr s" "read_files (\<lambda>s. 0) ''k'' (e_fs e) s = Inr (Some x)"
    by (auto simp: read_parts sum_bind_Inr_conv)
  have r: "engine_map e ''k'' = Some (ent_value x)
     \<and> (\<exists>e1 e2 e3. engine_put (\<lambda>c b. c) ''k'' ''w'' 1 e = Some (True, e1) \<and> read_fill ''k'' (Some x) e1 = Inr e2
          \<and> engine_map e2 ''k'' = Some ''w'' \<and> engine_get (\<lambda>s. 0) ''k'' e2 = Inr (Some x, e3))"
    by (rule late_fill_serves_old_value [OF ready cache _ _ _ s]) (use e(3) in simp_all)
  then obtain e1 e2 e3 where "engine_put (\<lambda>c b. c) ''k'' ''w'' 1 e = Some (True, e1)" "read_fill ''k'' (Some x) e1 = Inr e2"
    "engine_map e2 ''k'' = Some ''w''" "engine_get (\<lambda>s. 0) ''k'' e2 = Inr (Some x, e3)" by blast
  moreover have "engine_map e ''k'' = Some ''v''" using e(2) by simp
  moreover from this r have "ent_value x = ''v''" by simp
  ultimately show ?thesis using x by blast
qed

section \<open>A read during a hand-over\<close>

text \<open>
  \<open>checkFlush\<close> empties the memtable first and stores the copy after that; the lock it holds is not
  one that reads take.
\<close>

definition hand_over_clear :: "engine \<Rightarrow> memtable \<times> engine" where
  "hand_over_clear e =
     (let new_immutable = mt_copy_into (mt_snapshot (e_mem e)) mt_new
      in (new_immutable, e\<lparr>e_mem := mt_clear (e_mem e)\<rparr>))"

definition hand_over_store :: "memtable \<Rightarrow> engine \<Rightarrow> engine" where
  "hand_over_store new_immutable e =
     e\<lparr>e_imm := Some new_immutable, e_flush_pending := True, e_fs := fs_remove (log_path (e_data_dir e)) (e_fs e)\<rparr>"

lemma checkFlush_parts:
  "checkFlush debug e =
     (if mt_getSize (e_mem e) \<ge> kMemTableThreshold \<or> debug then
        let e1 = engine_wal_flush e in
        if e_imm e1 \<noteq> None \<and> \<not> e_shutdown e1 then None
        else if e_shutdown e1 then Some e1
        else Some (case hand_over_clear e1 of (new_immutable, e2) \<Rightarrow> hand_over_store new_immutable e2)
      else Some e)"
  by (simp add: checkFlush_def hand_over_clear_def hand_over_store_def Let_def)

lemma cleared_inv:
  assumes "engine_inv hasher e" "e_imm e = None"
  defines "e' \<equiv> e\<lparr>e_mem := mt_clear (e_mem e), e_cache := None\<rparr>"
  shows "engine_inv hasher e'" "engine_layers e' = [[]] # [[]] # table_layers (e_fs e) (engine_version e)"
proof -
  note ver = engine_inv_version [OF assms(1)]
  show layers: "engine_layers e' = [[]] # [[]] # table_layers (e_fs e) (engine_version e)"
    by (simp add: engine_layers_def e'_def assms(2) ver(1) mem_run_def mt_snapshot_def mt_clear_def)
  have "layers_ok (engine_layers e)" using assms(1) by (simp add: engine_inv_def)
  then have "layers_ok (engine_layers e')" unfolding layers ver(4)
    by (auto simp: assms(2) mem_run_def layers_ok_def older_than_def runs_agree_def)
  moreover have "versions_ok e" using assms(1) by (simp add: engine_inv_def)
  then have "versions_ok e'" unfolding versions_ok_def all_runs_def layers ver(4) by (auto simp: e'_def)
  moreover have "cache_ok e'" by (simp add: cache_ok_def e'_def)
  ultimately show "engine_inv hasher e'"
    using assms(1) by (simp add: engine_inv_def) (simp add: e'_def mt_inv_def mt_clear_def)
qed

text \<open>
  C23: a read can miss an acknowledged write.  The value of a key is in the memtable and in no
  table when the memtable is handed over to the flush thread.  Between the two assignments of the
  hand-over a read of the key finds nothing, although the key has its value before and after it.
\<close>

theorem hand_over_hides_writes:
  assumes "engine_inv hasher e" "wal_ok e" "e_imm e = None"
    and "mt_get (e_mem e) key = Some x" "ent_type x = Et_PUT"
    and "\<forall>r\<in>set (concat (table_layers (e_fs e) (engine_version e))). map_of r key = None"
    and "hand_over_clear e = (t, e1)"
  shows "engine_map e key = Some (ent_value x) \<and> get_uncached hasher key e1 = Inr None
     \<and> engine_inv hasher (hand_over_store t e1) \<and> engine_map (hand_over_store t e1) key = Some (ent_value x)"
proof -
  have old: "newest (concat (table_layers (e_fs e) (engine_version e))) key = None"
    using assms(6) by (simp add: newest_None_iff map_of_eq_None_iff)
  have "engine_layers e = [mt_snapshot (e_mem e)] # [[]] # table_layers (e_fs e) (engine_version e)"
    unfolding engine_inv_version(4) [OF assms(1)] by (simp add: assms(3) mem_run_def)
  moreover have "mt_inv (e_mem e)" using assms(1) by (simp add: engine_inv_def)
  from mt.lookup_data [OF this] have "map_of (mt_snapshot (e_mem e)) key = Some x" using assms(4) by simp
  ultimately have view: "engine_view e key = Some x" by (simp add: engine_view_def old)
  have st: "t = mt_copy_into (mt_snapshot (e_mem e)) mt_new" "e1 = e\<lparr>e_mem := mt_clear (e_mem e)\<rparr>"
    using assms(7) by (simp_all add: hand_over_clear_def)
  then have store: "hand_over_store t e1 = e\<lparr>e_imm := Some (mt_copy_into (mt_snapshot (e_mem e)) mt_new), e_mem := mt_clear (e_mem e),
      e_flush_pending := True, e_fs := fs_remove (log_path (e_data_dir e)) (e_fs e)\<rparr>"
    by (simp add: hand_over_store_def)
  note after = hand_over_correct [OF assms(1-3), folded store]
  note mid = cleared_inv [OF assms(1,3)]
  have "get_uncached hasher key e1 = get_uncached hasher key (e\<lparr>e_mem := mt_clear (e_mem e), e_cache := None\<rparr>)"
    by (simp add: get_uncached_def with_version_def st(2))
  also have "\<dots> = Inr None" unfolding get_uncached_view [OF mid(1)] engine_view_def mid(2) by (simp add: old)
  finally show ?thesis using view after(1,3) assms(5) by (simp add: engine_map_def)
qed

text \<open>Two tables, and one more key in the memtable or in the one that waits for the flush thread.\<close>

definition run_z :: "(string \<times> entry) list" where
  "run_z = [(''z'', \<lparr>ent_value = ''u'', ent_seq = 2, ent_type = Et_PUT\<rparr>)]"

lemma two_level_memory:
  assumes "(a, i) = (run_z, None) \<or> (a, i) = ([], Some \<lparr>mt_map = run_z\<rparr>)"
  obtains e m1 m2 where "compactable (\<lambda>s. 0) e" "e_mem e = \<lparr>mt_map = a\<rparr>" "e_imm e = i" "e_flush_counter e = 2"
    "tv_levels (engine_version e) = [[m2], [], [m1]]" "erun e m2 = run_j"
    "table_layers (e_fs e) (engine_version e) = [[run_j], [], [run_k]]"
proof -
  have ord: "older_than [run_j] [run_k]" "runs_agree [run_j, run_k]" "\<forall>x\<in>set run_k \<union> set run_j. ent_seq (snd x) < 4"
    by (auto simp: sample_runs older_than_def runs_agree_def)
  obtain e0 m1 m2 where e0: "engine_inv (\<lambda>s. 0) e0" "wal_ok e0" "e_flush_counter e0 = 2"
    "tv_levels (engine_version e0) = [[m2], [], [m1]]" "erun e0 m1 = run_k" "erun e0 m2 = run_j" "e_seq e0 = 4"
    using two_level_engine [OF sample_runs_ok(1,2) ord] by metis
  define e where "e = e0\<lparr>e_mem := \<lparr>mt_map = a\<rparr>, e_imm := i, e_cache := None\<rparr>"
  note ver0 = engine_inv_version [OF e0(1)]
  have v: "engine_version e = engine_version e0" "e_fs e = e_fs e0" by (simp_all add: e_def engine_version_def)
  have tables: "table_layers (e_fs e) (engine_version e) = [[run_j], [], [run_k]]"
    using e0(4-6) by (simp add: v table_layers_def)
  have "engine_layers e = [a] # [mem_run i] # table_layers (e_fs e) (engine_version e)"
    using ver0(1) by (simp add: engine_layers_def v) (simp add: e_def mt_snapshot_def)
  then have layers: "engine_layers e = [[a], [mem_run i], [run_j], [], [run_k]]" by (simp add: tables)
  have "layers_ok (engine_layers e)" using assms
    by (auto simp: layers layers_ok_def older_than_def runs_agree_def sample_runs run_z_def mem_run_def mt_snapshot_def)
  moreover have "e_seq e = 4" by (simp add: e_def e0(7))
  then have "versions_ok e" using assms
    by (auto simp: versions_ok_def all_runs_def layers sample_runs run_z_def entry_fits_def entry_ok_def mem_run_def mt_snapshot_def)
  moreover have "cache_ok e" by (simp add: cache_ok_def e_def)
  moreover have "mt_inv \<lparr>mt_map = a\<rparr>" "\<forall>t. i = Some t \<longrightarrow> mt_inv t" using assms by (auto simp: mt_inv_def run_z_def entry_ok_def)
  ultimately have inv: "engine_inv (\<lambda>s. 0) e" using e0(1) by (simp add: engine_inv_def) (simp add: e_def)
  have "ent_type x = Et_PUT" if "m \<in> set (elev e j)" "map_of (erun e m) k = Some x" for m j k x
    using level_in_concat [OF that(1)] that(2) e0(5,6) by (auto simp: v e0(4) sample_runs split: if_splits)
  then have "settled e" unfolding settled_def by blast
  moreover have "tables_small e" using two_level_small [of e] e0(4-6) by (simp add: v)
  moreover have "wal_ok e" by (rule wal_ok_cong [OF e0(2)]) (simp_all add: e_def)
  ultimately have "compactable (\<lambda>s. 0) e" using inv by (simp add: compactable_def)
  then show ?thesis using that [of e m2 m1] tables e0(3,4,6) by (simp add: v) (simp add: e_def)
qed

theorem hand_over_hides_writes_witness:
  "\<exists>e t e1. engine_map e ''z'' = Some ''u'' \<and> hand_over_clear e = (t, e1) \<and> get_uncached (\<lambda>s. 0) ''z'' e1 = Inr None
     \<and> engine_map (hand_over_store t e1) ''z'' = Some ''u''"
proof -
  obtain e where e: "compactable (\<lambda>s. 0) e" "e_mem e = \<lparr>mt_map = run_z\<rparr>" "e_imm e = None"
    "table_layers (e_fs e) (engine_version e) = [[run_j], [], [run_k]]"
    using two_level_memory [of run_z None] by blast
  have c: "engine_inv (\<lambda>s. 0) e" "wal_ok e" using e(1) by (simp_all add: compactable_def)
  obtain t e1 where s: "hand_over_clear e = (t, e1)" by fastforce
  have "mt_get (e_mem e) ''z'' = Some \<lparr>ent_value = ''u'', ent_seq = 2, ent_type = Et_PUT\<rparr>"
    by (simp add: e(2) run_z_def mt_get_def)
  from hand_over_hides_writes [OF c e(3) this _ _ s] s show ?thesis by (auto simp: e(4) sample_runs)
qed

section \<open>A compaction before the files are read\<close>

text \<open>A table whose file is gone, where it used to answer.\<close>

lemma sst_get_gone:
  assumes "fs_read (sst_path t) fs' = None" "sst_get hasher fs t key = Inr r"
  shows "sst_get hasher fs' t key = Inl (RuntimeError (''Failed to open SSTable: '' @ sst_path t)) \<or> sst_get hasher fs' t key = Inr None"
    "r \<noteq> None \<Longrightarrow> sst_get hasher fs' t key = Inl (RuntimeError (''Failed to open SSTable: '' @ sst_path t))"
proof -
  define may where "may = (case sst_bloom t of None \<Rightarrow> Inr True | Some bf \<Rightarrow> bf_contains hasher bf key)"
  note get = sst_get_def [of hasher _ t key, folded may_def]
  have "sst_get hasher fs' t key = Inl (RuntimeError (''Failed to open SSTable: '' @ sst_path t))
      \<or> sst_get hasher fs' t key = Inr None \<and> r = None"
  proof (cases "key < sst_min t \<or> key > sst_max t")
    case True
    then show ?thesis using assms(2) by (simp add: get)
  next
    case range: False
    show ?thesis
    proof (cases may)
      case (Inr b)
      then show ?thesis using assms range by (cases b) (simp_all add: get)
    qed (use assms(2) range in \<open>simp add: get\<close>)
  qed
  then show "sst_get hasher fs' t key = Inl (RuntimeError (''Failed to open SSTable: '' @ sst_path t)) \<or> sst_get hasher fs' t key = Inr None"
    "r \<noteq> None \<Longrightarrow> sst_get hasher fs' t key = Inl (RuntimeError (''Failed to open SSTable: '' @ sst_path t))"
    by auto
qed

text \<open>Some files of a level 0 are gone, the others are as they were.\<close>

lemma get_l0_gone:
  assumes "\<forall>m\<in>set metas. meta_ok hasher fs v m"
    and "\<And>m t. m \<in> set metas \<Longrightarrow> findSSTableById v (meta_id m) = Some t \<Longrightarrow>
       fs_read (sst_path t) fs' = None \<or> fs_read (sst_path t) fs' = fs_read (sst_path t) fs"
    and "\<exists>m\<in>set metas. map_of (run_of fs v m) key \<noteq> None \<and> (\<forall>t. findSSTableById v (meta_id m) = Some t \<longrightarrow> fs_read (sst_path t) fs' = None)"
  shows "\<exists>msg. get_l0 hasher fs' v key metas cand = Inl (RuntimeError msg)"
  using assms
proof (induction metas arbitrary: cand)
  case (Cons m metas)
  obtain t where t: "findSSTableById v (meta_id m) = Some t" "sst_get hasher fs t key = Inr (map_of (run_of fs v m) key)"
    using meta_ok_get [of hasher fs v m key] Cons.prems(1) by auto
  have step: "\<exists>msg. get_l0 hasher fs' v key (m # metas) cand = Inl (RuntimeError msg)"
    if "sst_get hasher fs' t key = Inr r" "\<not> (map_of (run_of fs v m) key \<noteq> None \<and> fs_read (sst_path t) fs' = None)" for r
  proof -
    have "\<exists>msg. get_l0 hasher fs' v key metas (newer cand r) = Inl (RuntimeError msg)"
      using Cons.prems that(2) t(1) by (intro Cons.IH Cons.prems(2)) auto
    then show ?thesis using t(1) that(1) by simp
  qed
  show ?case
  proof (cases "fs_read (sst_path t) fs' = None")
    case gone: True
    show ?thesis
    proof (cases "sst_get hasher fs' t key = Inr None")
      case True
      then have "map_of (run_of fs v m) key = None"
        using sst_get_gone(2) [OF gone t(2)] by (cases "map_of (run_of fs v m) key") simp_all
      then show ?thesis using step [OF True] by simp
    next
      case False
      then show ?thesis using sst_get_gone(1) [OF gone t(2)] t(1) by auto
    qed
  next
    case False
    then have "fs_read (sst_path t) fs' = fs_read (sst_path t) fs" using Cons.prems(2) [OF _ t(1)] by auto
    from sst_get_cong [OF this] t(2) show ?thesis using step False by simp
  qed
qed simp

lemma finish_removes:
  assumes "finish_compaction hasher pre lw ids es e = Inr e'" "es \<noteq> []" "i \<in> set ids"
  shows "fs_read (table_path (e_data_dir e) i) (e_fs e') = None"
  using assms by (auto simp: finish_compaction_def Let_def sum_bind_Inr_conv clear_cache_def remove_tables_read)

text \<open>The same read with all tables of its version open.\<close>

lemma open_tables_survive:
  assumes "engine_inv hasher e" "finish_compaction hasher pre lw ids es e = Inr e'" "unat (e_flush_counter e) + 1 < 2 ^ 64"
    and "handles_named h (e_fs e)" "\<forall>i\<in>tv_ids (engine_version e). h (table_path (e_data_dir e) i) \<noteq> None"
  shows "read_files hasher key (with_handles h (e_fs e')) (cand, engine_version e) = read_files hasher key (e_fs e) (cand, engine_version e)"
proof -
  let ?v = "engine_version e"
  note ver = engine_inv_version [OF assms(1)]
  have fsi: "fs_inv (e_fs e)" using assms(1) by (simp add: engine_inv_def)
  have "fs_read (sst_path t) (with_handles h (e_fs e')) = fs_read (sst_path t) (e_fs e)" if t: "findSSTableById ?v i = Some t" for i t
  proof -
    have i: "i \<in> tv_ids ?v" using tv_lookup_dom [OF ver(5), of i] t by auto
    have p: "sst_path t = table_path (e_data_dir e) i" using find_path [OF ver(5) t] by (simp add: table_path_name)
    obtain n where n: "h (sst_path t) = Some n" using assms(5) i p by fastforce
    then have name: "fs_names (e_fs e) (table_path (e_data_dir e) i) = Some n" using assms(4) by (simp add: handles_named_def p)
    have "i \<noteq> e_flush_counter e + 1" using ver(3) i counter_fresh(1) [OF assms(3)] by blast
    from compaction_keeps_inode [OF assms(2) fsi name this] show ?thesis using n name unfolding with_handles_read p by (simp add: fs_read_def)
  qed
  then show ?thesis unfolding read_files_def prod.case by (subst get_levels_cong [where fs = "e_fs e"]) simp_all
qed

text \<open>
  C24: a compaction can make a read fail.  A read has taken the current version when a compaction
  of level 0 that merges something runs to its end.  If the key is in a table of level 0 and no
  table has its file open, the read then ends with an exception, because the file of that table
  was removed, although the same read succeeds when it runs wholly before the compaction and also
  when it runs wholly after it.  With all tables of its version open, from earlier reads, it
  returns what it would have returned before the compaction.
\<close>

theorem read_fails_during_compaction:
  assumes "engine_inv hasher e" "wal_ok e" "tables_small e" "unat (e_flush_counter e) + 1 < 2 ^ 64"
    and "\<exists>m\<in>set (level_of (tv_levels (engine_version e)) 0). map_of (run_of (e_fs e) (engine_version e) m) key \<noteq> None"
    and "live (newest (map (run_of (e_fs e) (engine_version e)) (l0_inputs e)) j) \<noteq> None"
    and "read_memory key e = Inr s"
    and "handles_named h (e_fs e)" "\<forall>i\<in>tv_ids (engine_version e). h (table_path (e_data_dir e) i) \<noteq> None"
  shows "\<exists>e' msg. compactL0toL1 hasher e = Inr e' \<and> read_files hasher key (with_handles Map.empty (e_fs e')) s = Inl (RuntimeError msg)
     \<and> (\<exists>r. get_uncached hasher key e = Inr r) \<and> (\<exists>r. get_uncached hasher key e' = Inr r)
     \<and> read_files hasher key (with_handles h (e_fs e')) s = get_uncached hasher key e"
proof -
  let ?v = "engine_version e"
  have ne: "elev e 0 \<noteq> []" using assms(5) by auto
  note tk = l0_taken [OF assms(1) ne] and ver = engine_inv_version [OF assms(1)]
  have pre: "keeps_tables id" by (simp add: keeps_tables_def)
  have eq: "compactL0toL1 hasher e = sum_bind (merge_tables (e_fs e)
      (map (\<lambda>m. the (findSSTableById ?v (meta_id m))) (l0_inputs e)))
      (\<lambda>merged_data. finish_compaction hasher id 1 (map meta_id (l0_inputs e)) merged_data e)"
    using ne by (simp add: compactL0toL1_eq [OF assms(1)])
  obtain e' where e': "compactL0toL1 hasher e = Inr e'" "engine_inv hasher e'" "e_flush_counter e' = e_flush_counter e + 1"
    by (rule finish_cases [OF assms(1-3) tk assms(4) _ _ pre eq]) (use assms(6) in auto)
  obtain es where es: "finish_compaction hasher id 1 (map meta_id (l0_inputs e)) es e = Inr e'"
    using e'(1) unfolding eq by (auto simp: sum_bind_Inr_conv)
  have "es \<noteq> []"
  proof
    assume "es = []"
    then have "e' = e" using es by (simp add: finish_compaction_def)
    then show False using e'(3) by simp
  qed
  note gone = finish_removes [OF es this]
  have missing: "fs_read (sst_path t) (e_fs e') = None" if "m \<in> set (elev e 0)" "findSSTableById ?v (meta_id m) = Some t" for m t
    using gone [of "meta_id m"] find_path [OF ver(5) that(2)] that(1) by (simp add: l0_inputs_def table_path_name)
  have s: "s = (newer (mt_get (e_mem e) key) (case e_imm e of None \<Rightarrow> None | Some t \<Rightarrow> mt_get t key), ?v)"
    using assms(7) ver(1) by (simp add: read_memory_def with_version_def getCurrentVersion_def)
  obtain A Ls where lv: "tv_levels ?v = A # Ls" "elev e 0 = A"
    using ne by (cases "tv_levels ?v") (auto simp: level_of_def split: if_splits)
  have ok: "\<forall>m\<in>set (elev e 0). meta_ok hasher (e_fs e) ?v m" using elev_meta_ok [OF assms(1)] by blast
  have "\<exists>msg. get_l0 hasher (e_fs e') ?v key (elev e 0) cand = Inl (RuntimeError msg)" for cand
    using get_l0_gone [OF ok, of "e_fs e'" key cand] missing assms(5) by blast
  then obtain msg where "get_l0 hasher (e_fs e') ?v key A (fst s) = Inl (RuntimeError msg)" unfolding lv(2) by blast
  moreover have "A \<noteq> []" using ne lv(2) by simp
  ultimately have "read_files hasher key (e_fs e') s = Inl (RuntimeError msg)"
    by (simp add: read_files_def s lv(1))
  moreover have "with_handles Map.empty (e_fs e') = e_fs e'" by (rule named_handles) (simp add: handles_named_def)
  ultimately have "compactL0toL1 hasher e = Inr e' \<and> read_files hasher key (with_handles Map.empty (e_fs e')) s = Inl (RuntimeError msg)"
    using e'(1) by simp
  moreover have "read_files hasher key (with_handles h (e_fs e')) s = get_uncached hasher key e"
    unfolding read_parts assms(7) s using open_tables_survive [OF assms(1) es assms(4,8,9)] by simp
  moreover have "\<exists>r. get_uncached hasher key e = Inr r" by (rule exI, rule get_uncached_view [OF assms(1)])
  moreover have "\<exists>r. get_uncached hasher key e' = Inr r" by (rule exI, rule get_uncached_view [OF e'(2)])
  ultimately show ?thesis by blast
qed

theorem read_fails_during_compaction_witness:
  "\<exists>e s e' msg x. read_memory ''j'' e = Inr s \<and> compactL0toL1 (\<lambda>s. 0) e = Inr e'
     \<and> read_files (\<lambda>s. 0) ''j'' (with_handles Map.empty (e_fs e')) s = Inl (RuntimeError msg)
     \<and> read_files (\<lambda>s. 0) ''j'' (with_handles (fs_names (e_fs e)) (e_fs e')) s = Inr (Some x) \<and> ent_value x = ''w''"
proof -
  obtain e m1 m2 where e: "compactable (\<lambda>s. 0) e" "e_flush_counter e = 2" "engine_map e = [''k'' \<mapsto> ''v'', ''j'' \<mapsto> ''w'']"
    "tv_levels (engine_version e) = [[m2], [], [m1]]" "erun e m2 = run_j"
    using puts_compactable by metis
  have c: "engine_inv (\<lambda>s. 0) e" "wal_ok e" "tables_small e" using e(1) by (simp_all add: compactable_def)
  note ver = engine_inv_version [OF c(1)]
  obtain s where s: "read_memory ''j'' e = Inr s"
    using ver(1) by (simp add: read_memory_def with_version_def getCurrentVersion_def)
  have l0: "level_of (tv_levels (engine_version e)) 0 = [m2]" "l0_inputs e = [m2]" by (simp_all add: l0_inputs_def level_of_def e(4))
  have named: "handles_named (fs_names (e_fs e)) (e_fs e)" by (simp add: handles_named_def)
  have opened: "\<forall>i\<in>tv_ids (engine_version e). fs_names (e_fs e) (table_path (e_data_dir e) i) \<noteq> None"
    using meta_ok_exists [OF ver(5), where hasher = "\<lambda>s. 0" and fs = "e_fs e"] ver(2)
    by (fastforce simp: tv_ids_def version_ok_def fs_exists_def)
  have "\<exists>e' msg. compactL0toL1 (\<lambda>s. 0) e = Inr e' \<and> read_files (\<lambda>s. 0) ''j'' (with_handles Map.empty (e_fs e')) s = Inl (RuntimeError msg)
     \<and> (\<exists>r. get_uncached (\<lambda>s. 0) ''j'' e = Inr r) \<and> (\<exists>r. get_uncached (\<lambda>s. 0) ''j'' e' = Inr r)
     \<and> read_files (\<lambda>s. 0) ''j'' (with_handles (fs_names (e_fs e)) (e_fs e')) s = get_uncached (\<lambda>s. 0) ''j'' e"
    by (rule read_fails_during_compaction [OF c _ _ _ s named opened, where j = "''j''"]) (simp_all add: l0 e(2,5) run_j_def)
  then obtain e' msg where r: "compactL0toL1 (\<lambda>s. 0) e = Inr e'"
    "read_files (\<lambda>s. 0) ''j'' (with_handles Map.empty (e_fs e')) s = Inl (RuntimeError msg)"
    "read_files (\<lambda>s. 0) ''j'' (with_handles (fs_names (e_fs e)) (e_fs e')) s = get_uncached (\<lambda>s. 0) ''j'' e" by blast
  have "map_option ent_value (live (engine_view e ''j'')) = Some ''w''" using fun_cong [OF e(3), of "''j''"] by (simp add: engine_map_def)
  then obtain x where "get_uncached (\<lambda>s. 0) ''j'' e = Inr (Some x)" "ent_value x = ''w''"
    using get_uncached_view [OF c(1), of "''j''"] by auto
  then show ?thesis using s r by (intro exI [of _ e] exI [of _ s] exI [of _ e'] exI [of _ msg] exI [of _ x]) simp
qed

end
