(* ===== verification/Version_Races.thy ===== *)
theory Version_Races
  imports Read_Races
begin

text \<open>
  The flush thread and the compaction thread at the same time.  Each takes a copy of the current
  version (\<open>getVersionForModification\<close>), changes the copy and installs it (\<open>installVersion\<close>); no lock
  spans the two calls, so the later installation undoes the earlier one.  Both threads are cut in
  two here, at the moment where they hold their copy.  When the compaction installs last, the table
  of the flush is in no version; when the flush installs last, its version names files that the
  compaction has removed.
\<close>

section \<open>The threads in two parts\<close>

text \<open>A compaction up to its changed copy, and what it does from \<open>installVersion\<close> on.\<close>

definition compaction_prepare :: "(string \<Rightarrow> uint64) \<Rightarrow> (table_version \<Rightarrow> table_version) \<Rightarrow> uint32 \<Rightarrow>
    uint64 list \<Rightarrow> (string \<times> entry) list \<Rightarrow> engine \<Rightarrow> kv_error + table_version \<times> engine" where
  "compaction_prepare hasher pre target idsToRemove merged_data e =
     (let dir_path = sst_dir (e_data_dir e);
          fc = e_flush_counter e + 1;
          e1 = e\<lparr>e_flush_counter := fc\<rparr> in
      sum_bind (sst_flush hasher merged_data dir_path fc (e_fs e1)) (\<lambda>(newSSTable, fs1).
      sum_bind (file_size (sst_name dir_path fc) fs1) (\<lambda>size_bytes.
      sum_bind (addSSTable newSSTable (new_meta fc target merged_data (e_seq e1) size_bytes)
                  (removeSSTablesByIds idsToRemove (pre (getVersionForModification (e_vm e1))))) (\<lambda>v.
        let l = unat target;
            v' = v\<lparr>tv_flush_counter := fc,
                   tv_levels := (if l < length (tv_levels v)
                                 then (tv_levels v)[l := sort_key minKey (tv_levels v ! l)] else tv_levels v)\<rparr>
        in Inr (v', e1\<lparr>e_fs := fs1\<rparr>)))))"

definition compaction_publish :: "uint64 list \<Rightarrow> table_version \<Rightarrow> engine \<Rightarrow> engine" where
  "compaction_publish idsToRemove v e =
     (let fs2 = saveMetadata (e_data_dir e) (e_flush_counter e) (e_seq e) v (e_fs e);
          fs3 = foldl (\<lambda>fs i. fs_remove (table_path (e_data_dir e) i) fs) fs2 idsToRemove
      in clear_cache (e\<lparr>e_vm := installVersion v (e_vm e), e_fs := fs3\<rparr>))"

lemma finish_compaction_parts:
  "finish_compaction hasher pre target ids es e =
     (if es = [] then Inr e else sum_bind (compaction_prepare hasher pre target ids es e) (\<lambda>(v, e1). Inr (compaction_publish ids v e1)))"
  by (auto simp: finish_compaction_def compaction_prepare_def compaction_publish_def Let_def sum_bind_def split: sum.split)

text \<open>A compaction of level 0 up to its changed copy; nothing when it has nothing to do.\<close>

definition compactL0_prepare :: "(string \<Rightarrow> uint64) \<Rightarrow> engine \<Rightarrow> kv_error + (uint64 list \<times> table_version \<times> engine) option" where
  "compactL0_prepare hasher e =
     with_version e (\<lambda>oldVersion.
       if tv_levels oldVersion = [] \<or> tv_levels oldVersion ! 0 = [] then Inr None
       else
         let (mn, mx) = key_range (tv_levels oldVersion ! 0);
             l0 = select_tables oldVersion (\<lambda>_. True) (tv_levels oldVersion ! 0);
             l1 = (if length (tv_levels oldVersion) > 1
                   then select_tables oldVersion (overlaps mn mx) (tv_levels oldVersion ! 1) else []);
             ids = map fst l0 @ map fst l1
         in sum_bind (merge_tables (e_fs e) (map snd l0 @ map snd l1)) (\<lambda>merged_data.
              if merged_data = [] then Inr None
              else sum_bind (compaction_prepare hasher id 1 ids merged_data e) (\<lambda>(v, e1). Inr (Some (ids, v, e1)))))"

lemma compactL0toL1_parts:
  "compactL0toL1 hasher e = sum_bind (compactL0_prepare hasher e) (\<lambda>r.
     case r of None \<Rightarrow> Inr e | Some (ids, v, e1) \<Rightarrow> Inr (compaction_publish ids v e1))"
  unfolding compactL0toL1_def compactL0_prepare_def finish_compaction_parts with_version_def Let_def
  by (auto simp: sum_bind_def split: sum.split option.split prod.split)

text \<open>A turn of the flush thread for the memtable \<open>t\<close>, which is not empty.\<close>

definition flush_prepare :: "(string \<Rightarrow> uint64) \<Rightarrow> memtable \<Rightarrow> engine \<Rightarrow> kv_error + table_version \<times> engine" where
  "flush_prepare hasher t e =
     (let snapshot = mt_snapshot t;
          dir_path = sst_dir (e_data_dir e);
          fc = e_flush_counter e + 1;
          e1 = e\<lparr>e_flush_pending := False, e_flush_counter := fc\<rparr> in
      sum_bind (sst_flush hasher snapshot dir_path fc (e_fs e1)) (\<lambda>(newSSTable, fs1).
      sum_bind (file_size (sst_name dir_path fc) fs1) (\<lambda>size_bytes.
      sum_bind (addSSTable newSSTable (new_meta fc 0 snapshot (e_seq e1) size_bytes)
                  (getVersionForModification (e_vm e1))) (\<lambda>v.
        Inr (v\<lparr>tv_flush_counter := fc\<rparr>, e1\<lparr>e_fs := fs1\<rparr>)))))"

definition flush_publish :: "table_version \<Rightarrow> engine \<Rightarrow> engine" where
  "flush_publish v e =
     (scheduleCompaction (clear_cache (e\<lparr>e_vm := installVersion v (e_vm e),
        e_fs := saveMetadata (e_data_dir e) (e_flush_counter e) (e_seq e) v (e_fs e)\<rparr>)))\<lparr>e_imm := None\<rparr>"

lemma flush_turn_parts:
  assumes "e_imm e = Some t" "mt_snapshot t \<noteq> []"
  shows "flush_turn hasher e = sum_bind (flush_prepare hasher t e) (\<lambda>(v, e1). Inr (flush_publish v e1))"
  using assms
  by (auto simp: flush_turn_def flush_prepare_def flush_publish_def Let_def sum_bind_def split: sum.split)

section \<open>Frames\<close>

text \<open>Only the files of the tables in the current version matter.\<close>

lemma version_ok_files:
  assumes "version_ok hasher fs dir v" "\<forall>i\<in>tv_ids v. fs_read (sst_name dir i) fs' = fs_read (sst_name dir i) fs"
  shows "version_ok hasher fs' dir v" "table_layers fs' v = table_layers fs v"
    "m \<in> set (concat (tv_levels v)) \<Longrightarrow> run_of fs' v m = run_of fs v m"
proof -
  have wf: "tv_wf dir v" using assms(1) by (simp add: version_ok_def)
  have same: "run_of fs' v m = run_of fs v m" "meta_ok hasher fs' v m = meta_ok hasher fs v m"
    if "m \<in> set (concat (tv_levels v))" for m
  proof -
    have "fs_read (sst_name dir (meta_id m)) fs' = fs_read (sst_name dir (meta_id m)) fs"
      using assms(2) that unfolding tv_ids_def by blast
    then show "run_of fs' v m = run_of fs v m" "meta_ok hasher fs' v m = meta_ok hasher fs v m"
      by (rule run_of_find_cong [OF wf refl])+
  qed
  show "version_ok hasher fs' dir v" using assms(1) same(2) unfolding version_ok_def by blast
  show "table_layers fs' v = table_layers fs v" unfolding table_layers_def using same(1) by (intro map_cong refl) auto
  show "m \<in> set (concat (tv_levels v)) \<Longrightarrow> run_of fs' v m = run_of fs v m" by (rule same(1))
qed

lemma engine_inv_files:
  assumes "engine_inv hasher e" "e_vm e' = e_vm e" "e_mem e' = e_mem e" "e_imm e' = e_imm e" "e_seq e' = e_seq e"
    and "e_data_dir e' = e_data_dir e" "e_cache e' = e_cache e" "fs_inv (e_fs e')" "e_flush_counter e \<le> e_flush_counter e'"
    and "\<forall>i\<in>tv_ids (engine_version e). fs_read (sst_name (engine_dir e) i) (e_fs e') = fs_read (sst_name (engine_dir e) i) (e_fs e)"
    and "\<forall>i>e_flush_counter e'. fs_read (sst_name (engine_dir e) i) (e_fs e') = None"
  shows "engine_inv hasher e'" "engine_layers e' = engine_layers e"
proof -
  note ver = engine_inv_version [OF assms(1)]
  note files = version_ok_files [OF ver(2) assms(10)]
  show layers: "engine_layers e' = engine_layers e" using files(2) ver(1) assms(2-4) by (simp add: engine_layers_def)
  then have "versions_ok e' = versions_ok e" "cache_ok e' = cache_ok e"
    using assms(5,7) by (simp_all add: versions_ok_def all_runs_def cache_ok_def engine_view_def)
  moreover have "\<forall>i\<in>tv_ids (engine_version e). i \<le> e_flush_counter e'" using ver(3) assms(9) by (meson order_trans)
  ultimately show "engine_inv hasher e'"
    using assms(1-8,11) files(1) ver(1) layers unfolding engine_inv_def by simp
qed

text \<open>A new table file with the next number, not in any version yet.\<close>

lemma engine_inv_next_file:
  assumes "engine_inv hasher e" "e_vm e' = e_vm e" "e_mem e' = e_mem e" "e_imm e' = e_imm e" "e_seq e' = e_seq e"
    and "e_data_dir e' = e_data_dir e" "e_cache e' = e_cache e" "fs_inv (e_fs e')"
    and "unat (e_flush_counter e) + 1 < 2 ^ 64" "e_flush_counter e' = e_flush_counter e + 1"
    and other: "\<And>i. i \<noteq> e_flush_counter e + 1 \<Longrightarrow> fs_read (sst_name (engine_dir e) i) (e_fs e') = fs_read (sst_name (engine_dir e) i) (e_fs e)"
  shows "engine_inv hasher e'" "engine_layers e' = engine_layers e" "e_flush_counter e' \<notin> tv_ids (engine_version e')"
    "\<forall>i\<in>tv_ids (engine_version e). fs_read (sst_name (engine_dir e) i) (e_fs e') = fs_read (sst_name (engine_dir e) i) (e_fs e)"
proof -
  let ?fc = "e_flush_counter e + 1"
  have lt: "e_flush_counter e < ?fc" using counter_fresh(2) [OF assms(9)] by simp
  have "engine_version e' = engine_version e" by (simp add: engine_version_def assms(2))
  moreover have "?fc \<notin> tv_ids (engine_version e)" using engine_inv_version(3) [OF assms(1)] counter_fresh [OF assms(9)] by blast
  ultimately show "e_flush_counter e' \<notin> tv_ids (engine_version e')"
    and ids: "\<forall>i\<in>tv_ids (engine_version e). fs_read (sst_name (engine_dir e) i) (e_fs e') = fs_read (sst_name (engine_dir e) i) (e_fs e)"
    using other assms(10) by (simp, metis)
  have none: "\<forall>i>?fc. fs_read (sst_name (engine_dir e) i) (e_fs e') = None"
  proof (intro allI impI)
    fix i assume "?fc < i"
    then have "e_flush_counter e < i" "i \<noteq> ?fc" using lt by (metis less_trans, metis less_irrefl)
    then show "fs_read (sst_name (engine_dir e) i) (e_fs e') = None" using other assms(1) by (simp add: engine_inv_def)
  qed
  show "engine_inv hasher e'" "engine_layers e' = engine_layers e"
    by (rule engine_inv_files [OF assms(1-8) _ ids]; use none lt in \<open>simp add: assms(10)\<close>)+
qed

lemma engine_inv_new_file:
  assumes "engine_inv hasher e" "unat (e_flush_counter e) + 1 < 2 ^ 64"
    and "e' = e\<lparr>e_flush_counter := e_flush_counter e + 1,
        e_fs := fs_write_file (sst_name (engine_dir e) (e_flush_counter e + 1)) bs (e_fs e)\<rparr>"
  shows "engine_inv hasher e'" "engine_layers e' = engine_layers e"
    "\<forall>i\<in>tv_ids (engine_version e). fs_read (sst_name (engine_dir e) i) (e_fs e') = fs_read (sst_name (engine_dir e) i) (e_fs e)"
proof -
  have "fs_inv (e_fs e)" using assms(1) by (simp add: engine_inv_def)
  then show "engine_inv hasher e'" "engine_layers e' = engine_layers e"
    "\<forall>i\<in>tv_ids (engine_version e). fs_read (sst_name (engine_dir e) i) (e_fs e') = fs_read (sst_name (engine_dir e) i) (e_fs e)"
    by (intro engine_inv_next_file [OF assms(1)]; use assms(2) in \<open>simp add: assms(3) sst_name_eq\<close>)+
qed

text \<open>What a compaction writes before it installs its version depends on the tables only.\<close>

lemma compaction_prepare_result:
  assumes "compaction_prepare hasher pre l ids es e = Inr (v, e1)"
  obtains bs where "e1 = e\<lparr>e_flush_counter := e_flush_counter e + 1,
      e_fs := fs_write_file (sst_name (engine_dir e) (e_flush_counter e + 1)) bs (e_fs e)\<rparr>"
    "\<And>e'. e_vm e' = e_vm e \<Longrightarrow> e_fs e' = e_fs e \<Longrightarrow> e_data_dir e' = e_data_dir e \<Longrightarrow> e_flush_counter e' = e_flush_counter e \<Longrightarrow>
       e_seq e' = e_seq e \<Longrightarrow> compaction_prepare hasher pre l ids es e' = Inr (v, e'\<lparr>e_flush_counter := e_flush_counter e1, e_fs := e_fs e1\<rparr>)"
proof -
  let ?fc = "e_flush_counter e + 1"
  note run = assms [unfolded compaction_prepare_def Let_def]
  obtain tab fs1 where fs1: "sst_flush hasher es (engine_dir e) ?fc (e_fs e) = Inr (tab, fs1)"
    using run by (cases "sst_flush hasher es (engine_dir e) ?fc (e_fs e)") auto
  obtain z where z: "file_size (sst_name (engine_dir e) ?fc) fs1 = Inr z"
    using run fs1 by (cases "file_size (sst_name (engine_dir e) ?fc) fs1") simp_all
  obtain w where w: "addSSTable tab (new_meta ?fc l es (e_seq e) z) (removeSSTablesByIds ids (pre (getVersionForModification (e_vm e)))) = Inr w"
    using run fs1 z
    by (cases "addSSTable tab (new_meta ?fc l es (e_seq e) z) (removeSSTablesByIds ids (pre (getVersionForModification (e_vm e))))") simp_all
  have v: "v = w\<lparr>tv_flush_counter := ?fc, tv_levels := (if unat l < length (tv_levels w)
        then (tv_levels w)[unat l := sort_key minKey (tv_levels w ! unat l)] else tv_levels w)\<rparr>"
    and e1: "e1 = e\<lparr>e_flush_counter := ?fc, e_fs := fs1\<rparr>"
    using run fs1 z w by simp_all
  obtain bs where bs: "fs1 = fs_write_file (sst_name (engine_dir e) ?fc) bs (e_fs e)" using sst_flush_file [OF fs1] .
  have again: "compaction_prepare hasher pre l ids es e' = Inr (v, e'\<lparr>e_flush_counter := e_flush_counter e1, e_fs := e_fs e1\<rparr>)"
    if "e_vm e' = e_vm e" "e_fs e' = e_fs e" "e_data_dir e' = e_data_dir e" "e_flush_counter e' = e_flush_counter e" "e_seq e' = e_seq e" for e'
    unfolding compaction_prepare_def Let_def v by (simp add: that fs1 z w e1)
  show ?thesis by (rule that [OF _ again]) (simp_all add: e1 bs)
qed

lemma select_tables_ids: "fst ` set (select_tables v P ms) \<subseteq> meta_id ` set ms"
  by (induction ms) (auto split: option.split)

lemma compactL0_prepare_result:
  assumes "compactL0_prepare hasher e = Inr (Some (ids, v, e1))"
  obtains bs where "e1 = e\<lparr>e_flush_counter := e_flush_counter e + 1,
      e_fs := fs_write_file (sst_name (engine_dir e) (e_flush_counter e + 1)) bs (e_fs e)\<rparr>"
    "set ids \<subseteq> tv_ids (engine_version e)"
    "\<forall>m\<in>set (elev e 0). findSSTableById (engine_version e) (meta_id m) \<noteq> None \<Longrightarrow> meta_id ` set (elev e 0) \<subseteq> set ids"
    "\<And>e'. e_vm e' = e_vm e \<Longrightarrow> e_fs e' = e_fs e \<Longrightarrow> e_data_dir e' = e_data_dir e \<Longrightarrow> e_flush_counter e' = e_flush_counter e \<Longrightarrow>
       e_seq e' = e_seq e \<Longrightarrow> compactL0_prepare hasher e' = Inr (Some (ids, v, e'\<lparr>e_flush_counter := e_flush_counter e1, e_fs := e_fs e1\<rparr>))"
proof -
  obtain w where w: "current_version (e_vm e) = Some w"
    using assms by (auto simp: compactL0_prepare_def with_version_def getCurrentVersion_def split: option.splits)
  obtain mn mx where kr: "key_range (tv_levels w ! 0) = (mn, mx)" by fastforce
  define l0 where "l0 = select_tables w (\<lambda>_. True) (tv_levels w ! 0)"
  define l1 where "l1 = (if length (tv_levels w) > 1 then select_tables w (overlaps mn mx) (tv_levels w ! 1) else [])"
  have ne: "tv_levels w \<noteq> []" "tv_levels w ! 0 \<noteq> []"
    using assms w by (auto simp: compactL0_prepare_def with_version_def getCurrentVersion_def split: if_splits)
  have eq: "compactL0_prepare hasher e' = sum_bind (merge_tables (e_fs e') (map snd l0 @ map snd l1)) (\<lambda>merged_data.
      if merged_data = [] then Inr None
      else sum_bind (compaction_prepare hasher id 1 (map fst l0 @ map fst l1) merged_data e') (\<lambda>(v, e1). Inr (Some (map fst l0 @ map fst l1, v, e1))))"
    if "e_vm e' = e_vm e" for e'
    using that w ne unfolding compactL0_prepare_def with_version_def getCurrentVersion_def Let_def
    by (simp add: kr l0_def [symmetric] l1_def [symmetric] del: One_nat_def cong: if_cong)
  obtain es where es: "merge_tables (e_fs e) (map snd l0 @ map snd l1) = Inr es" "es \<noteq> []"
    "compaction_prepare hasher id 1 ids es e = Inr (v, e1)" "ids = map fst l0 @ map fst l1"
    using assms unfolding eq [OF refl] by (auto simp: sum_bind_Inr_conv split: if_splits)
  obtain bs where bs: "e1 = e\<lparr>e_flush_counter := e_flush_counter e + 1,
      e_fs := fs_write_file (sst_name (engine_dir e) (e_flush_counter e + 1)) bs (e_fs e)\<rparr>"
    "\<And>e'. e_vm e' = e_vm e \<Longrightarrow> e_fs e' = e_fs e \<Longrightarrow> e_data_dir e' = e_data_dir e \<Longrightarrow> e_flush_counter e' = e_flush_counter e \<Longrightarrow>
       e_seq e' = e_seq e \<Longrightarrow> compaction_prepare hasher id 1 ids es e' = Inr (v, e'\<lparr>e_flush_counter := e_flush_counter e1, e_fs := e_fs e1\<rparr>)"
    by (rule compaction_prepare_result [OF es(3)]) blast
  have "set ids \<subseteq> meta_id ` (set (tv_levels w ! 0) \<union> (if length (tv_levels w) > 1 then set (tv_levels w ! 1) else {}))"
    using select_tables_ids [of w "\<lambda>_. True" "tv_levels w ! 0"] select_tables_ids [of w "overlaps mn mx" "tv_levels w ! 1"]
    by (auto simp: es(4) l0_def l1_def)
  also have "\<dots> \<subseteq> tv_ids w"
  proof -
    have "set (tv_levels w ! i) \<subseteq> set (concat (tv_levels w))" if "i < length (tv_levels w)" for i
      using nth_mem [OF that] by auto
    from this [of 0] this [of 1] show ?thesis using ne(1) unfolding tv_ids_def by (simp add: image_mono image_Un split: if_split del: set_concat)
  qed
  finally have "set ids \<subseteq> tv_ids (engine_version e)" by (simp add: engine_version_def w)
  moreover have "meta_id ` set (elev e 0) \<subseteq> set ids" if "\<forall>m\<in>set (elev e 0). findSSTableById (engine_version e) (meta_id m) \<noteq> None"
  proof -
    have v0: "engine_version e = w" "elev e 0 = tv_levels w ! 0" using w ne by (simp_all add: engine_version_def level_of_def)
    then have "map fst l0 = map meta_id (elev e 0)"
      using select_tables_all [of "elev e 0" w "\<lambda>_. True"] that by (simp add: l0_def comp_def)
    then show ?thesis by (simp add: es(4) del: map_map)
  qed
  ultimately show ?thesis
    using bs(2) es(1,2,4) by (intro that [OF bs(1)]) (simp_all add: eq)
qed

text \<open>The table files after both threads have saved and removed what they do.\<close>

lemma published_files:
  assumes "fs_inv fs"
  shows "fs_inv (remove_tables dir ids (saveMetadata dir a b v fs))"
    "fs_read (sst_name (sst_dir dir) i) (remove_tables dir ids (saveMetadata dir a b v fs))
      = (if i \<in> set ids then None else fs_read (sst_name (sst_dir dir) i) fs)"
proof -
  note saved = fs_read_saved [OF assms refl, where data_dir = dir and f = a and q = b and v = v]
  show "fs_inv (remove_tables dir ids (saveMetadata dir a b v fs))" by (rule remove_tables_inv [OF saved(1)])
  have "sst_name (sst_dir dir) i \<in> table_path dir ` set ids \<longleftrightarrow> i \<in> set ids" by (auto simp: table_path_name sst_name_eq)
  then show "fs_read (sst_name (sst_dir dir) i) (remove_tables dir ids (saveMetadata dir a b v fs))
      = (if i \<in> set ids then None else fs_read (sst_name (sst_dir dir) i) fs)"
    unfolding remove_tables_read using saved(4) [OF sst_name_not_meta] by simp
qed


section \<open>The compaction installs last\<close>

text \<open>An engine without the memtable that waits for the flush thread.\<close>

definition without_imm :: "engine \<Rightarrow> engine" where
  "without_imm e = e\<lparr>e_imm := None, e_cache := map_option lru_clear (e_cache e)\<rparr>"

lemma layers_drop: "layers_ok (M # [s] # Ls) \<Longrightarrow> layers_ok (M # [[]] # Ls)"
  by (auto simp: layers_ok_def older_than_def runs_agree_def)

lemma without_imm_inv:
  assumes "engine_inv hasher e"
  shows "engine_inv hasher (without_imm e)" "engine_map (without_imm e) = engine_map (e\<lparr>e_imm := None\<rparr>)"
proof -
  let ?e = "without_imm e"
  have f: "e_mem ?e = e_mem e" "e_imm ?e = None" "e_vm ?e = e_vm e" "e_fs ?e = e_fs e" "e_seq ?e = e_seq e"
    "e_data_dir ?e = e_data_dir e" "e_flush_counter ?e = e_flush_counter e" "e_cache ?e = map_option lru_clear (e_cache e)"
    by (simp_all add: without_imm_def)
  note ver = engine_inv_version [OF assms]
  have layers: "engine_layers ?e = [mt_snapshot (e_mem e)] # [[]] # table_layers (e_fs e) (engine_version e)"
    by (simp add: engine_layers_def f ver(1) mem_run_def)
  have "layers_ok (engine_layers e)" using assms by (simp add: engine_inv_def)
  then have "layers_ok (engine_layers ?e)" unfolding layers ver(4) by (rule layers_drop)
  moreover have "versions_ok ?e"
    using assms by (auto simp: engine_inv_def versions_ok_def all_runs_def layers ver(4) f(5))
  moreover have "cache_ok ?e" by (rule cache_ok_cleared [OF _ f(8)]) (use assms in \<open>simp add: engine_inv_def cache_ok_def\<close>)
  ultimately show "engine_inv hasher ?e" using assms by (simp add: engine_inv_def f)
  have "engine_layers (e\<lparr>e_imm := None\<rparr>) = engine_layers ?e" by (rule engine_layers_cong) (simp_all add: f)
  then show "engine_map ?e = engine_map (e\<lparr>e_imm := None\<rparr>)" by (simp add: engine_map_def engine_view_def fun_eq_iff)
qed

lemma without_imm_compactable:
  assumes "compactable hasher e"
  shows "compactable hasher (without_imm e)"
proof -
  have c: "engine_inv hasher e" "wal_ok e" "settled e" "tables_small e" using assms by (simp_all add: compactable_def)
  have v: "engine_version (without_imm e) = engine_version e" "e_fs (without_imm e) = e_fs e"
    by (simp_all add: engine_version_def without_imm_def)
  have "wal_ok (without_imm e)" by (rule wal_ok_cong [OF c(2)]) (simp_all add: without_imm_def)
  then show ?thesis
    using c(3,4) without_imm_inv(1) [OF c(1)] by (simp add: compactable_def settled_def tables_small_def weight_def v)
qed

lemma installVersion_any: "installVersion v vm = installVersion v vm'"
  by (cases vm; cases vm') (simp add: installVersion_def)

text \<open>Between the two parts of a compaction the flush thread has a turn: what it and the compaction leave.\<close>

lemma flush_then_publish:
  assumes "engine_inv hasher e" "compactL0_prepare hasher e = Inr (Some (ids, v, e1))"
    and "e_imm e = Some t" "mt_snapshot t \<noteq> []" "small_run (mt_snapshot t)" "unat (e_flush_counter e) + 2 < 2 ^ 64"
  obtains e2 where "flush_turn hasher e1 = Inr e2" "engine_map e2 = engine_map e" "e_flush_counter e2 = e_flush_counter e + 2"
    "set ids \<subseteq> tv_ids (engine_version e)"
    "fs_inv (e_fs (compaction_publish ids v e2))"
    "\<And>i. i \<noteq> e_flush_counter e + 2 \<Longrightarrow> fs_read (sst_name (engine_dir e) i) (e_fs (compaction_publish ids v e2))
       = (if i \<in> set ids then None else fs_read (sst_name (engine_dir e) i) (e_fs e1))"
    "e_flush_counter e + 2 \<notin> set ids \<Longrightarrow> fs_read (sst_name (engine_dir e) (e_flush_counter e + 2)) (e_fs (compaction_publish ids v e2)) \<noteq> None"
    "e_mem e2 = e_mem e" "e_imm e2 = None" "e_seq e2 = e_seq e" "e_data_dir e2 = e_data_dir e" "e_cache e2 = map_option lru_clear (e_cache e)"
proof -
  let ?d = "engine_dir e" and ?dir = "e_data_dir e"
  have u: "unat (e_flush_counter e) + 1 < 2 ^ 64" using assms(6) by simp
  obtain bs where e1: "e1 = e\<lparr>e_flush_counter := e_flush_counter e + 1, e_fs := fs_write_file (sst_name ?d (e_flush_counter e + 1)) bs (e_fs e)\<rparr>"
    and ids: "set ids \<subseteq> tv_ids (engine_version e)"
    by (rule compactL0_prepare_result [OF assms(2)])
  note inv1 = engine_inv_new_file(1,2) [OF assms(1) u e1]
  have f1: "e_imm e1 = Some t" "unat (e_flush_counter e1) + 1 < 2 ^ 64" "e_flush_counter e1 + 1 = e_flush_counter e + 2"
    "engine_dir e1 = ?d" "e_data_dir e1 = ?dir"
    using assms(3,6) unat_seq_Suc [OF u] by (simp_all add: e1)
  obtain v2 fs2 bs2 where turn: "flush_turn hasher e1 = Inr ((clear_cache e1)\<lparr>e_flush_pending := False,
       e_flush_counter := e_flush_counter e + 2, e_vm := installVersion v2 (e_vm e1),
       e_fs := saveMetadata ?dir (e_flush_counter e + 2) (e_seq e1) v2 fs2, e_compaction_needed := True, e_imm := None\<rparr>)"
    and fs2: "fs2 = fs_write_file (sst_name ?d (e_flush_counter e + 2)) bs2 (e_fs e1)"
    and layers2: "table_layers fs2 v2 = (case table_layers (e_fs e1) (engine_version e1) of
        [] \<Rightarrow> [[mt_snapshot t]] | A # R \<Rightarrow> (A @ [mt_snapshot t]) # R)"
    and ok2: "version_ok hasher fs2 ?d v2"
    using flush_turn_result [OF inv1(1) f1(1) assms(5,4) f1(2)] unfolding f1(3-5) by metis
  define e2 where "e2 = (clear_cache e1)\<lparr>e_flush_pending := False,
       e_flush_counter := e_flush_counter e + 2, e_vm := installVersion v2 (e_vm e1),
       e_fs := saveMetadata ?dir (e_flush_counter e + 2) (e_seq e1) v2 fs2, e_compaction_needed := True, e_imm := None\<rparr>"
  have f2: "e_flush_counter e2 = e_flush_counter e + 2" "e_mem e2 = e_mem e" "e_imm e2 = None" "e_seq e2 = e_seq e"
    "e_data_dir e2 = ?dir" "e_cache e2 = map_option lru_clear (e_cache e)"
    "e_fs e2 = saveMetadata ?dir (e_flush_counter e + 2) (e_seq e1) v2 fs2" "current_version (e_vm e2) = Some v2"
    by (simp_all add: e2_def e1 clear_cache_def installVersion_def)
  have fsi: "fs_inv (e_fs e1)" "fs_inv fs2" using inv1(1) by (simp_all add: engine_inv_def fs2)
  note saved = published_files [OF fsi(2), where dir = ?dir and ids = "[]" and a = "e_flush_counter e + 2" and b = "e_seq e1" and v = v2,
      simplified, folded f2(7)]
  have "table_layers (e_fs e2) v2 = table_layers fs2 v2"
    using version_ok_files(2) [OF ok2] saved(2) by blast
  then have l2: "engine_layers e2 = [mt_snapshot (e_mem e)] # [[]] # (case table_layers (e_fs e1) (engine_version e1) of
        [] \<Rightarrow> [[mt_snapshot t]] | A # R \<Rightarrow> (A @ [mt_snapshot t]) # R)"
    by (simp add: engine_layers_def f2 mem_run_def layers2)
  have l1: "engine_layers e1 = [mt_snapshot (e_mem e)] # [mt_snapshot t] # table_layers (e_fs e1) (engine_version e1)"
    unfolding engine_inv_version(4) [OF inv1(1)] using f1(1) by (simp add: mem_run_def e1)
  have "layers_ok (engine_layers e1)" using inv1(1) by (simp add: engine_inv_def)
  from layers_flush(2) [OF this [unfolded l1]] have "engine_view e2 = engine_view e1"
    by (simp add: engine_view_def l1 l2 fun_eq_iff)
  then have map: "engine_map e2 = engine_map e" using inv1(2) by (simp add: engine_map_def engine_view_def fun_eq_iff)
  note pub = published_files [OF saved(1), where dir = ?dir and ids = ids and a = "e_flush_counter e + 2" and b = "e_seq e" and v = v]
  have fs3: "e_fs (compaction_publish ids v e2) = remove_tables ?dir ids (saveMetadata ?dir (e_flush_counter e + 2) (e_seq e) v (e_fs e2))"
    by (simp add: compaction_publish_def Let_def clear_cache_def f2)
  note turn = turn [folded e2_def]
  have read: "fs_read (sst_name ?d i) (e_fs (compaction_publish ids v e2)) = (if i \<in> set ids then None else
      if i = e_flush_counter e + 2 then Some bs2 else fs_read (sst_name ?d i) (e_fs e1))" for i
    using fsi(1) by (simp add: fs3 pub(2) saved(2) fs2 sst_name_eq)
  show ?thesis
    by (rule that [OF turn map f2(1) ids _ _ _ f2(2-6)]) (simp_all add: read, simp add: fs3 pub(1))
qed


text \<open>The same compaction had no memtable been waiting.\<close>

lemma publish_without_imm:
  assumes "compactable hasher e" "compactL0_prepare hasher e = Inr (Some (ids, v, e1))" "unat (e_flush_counter e) + 1 < 2 ^ 64"
  obtains e' where "engine_inv hasher e'" "engine_map e' = engine_map (e\<lparr>e_imm := None\<rparr>)" "e_vm e' = installVersion v (e_vm e)"
    "e_mem e' = e_mem e" "e_imm e' = None" "e_seq e' = e_seq e" "e_data_dir e' = e_data_dir e"
    "e_cache e' = map_option lru_clear (map_option lru_clear (e_cache e))" "e_flush_counter e' = e_flush_counter e + 1"
    "\<forall>i. fs_read (sst_name (engine_dir e) i) (e_fs e') = (if i \<in> set ids then None else fs_read (sst_name (engine_dir e) i) (e_fs e1))"
proof -
  let ?e0 = "without_imm e"
  have inv: "engine_inv hasher e" using assms(1) by (simp add: compactable_def)
  obtain bs where e1: "e1 = e\<lparr>e_flush_counter := e_flush_counter e + 1,
      e_fs := fs_write_file (sst_name (engine_dir e) (e_flush_counter e + 1)) bs (e_fs e)\<rparr>"
    and again: "\<And>e'. e_vm e' = e_vm e \<Longrightarrow> e_fs e' = e_fs e \<Longrightarrow> e_data_dir e' = e_data_dir e \<Longrightarrow> e_flush_counter e' = e_flush_counter e \<Longrightarrow>
       e_seq e' = e_seq e \<Longrightarrow> compactL0_prepare hasher e' = Inr (Some (ids, v, e'\<lparr>e_flush_counter := e_flush_counter e1, e_fs := e_fs e1\<rparr>))"
    by (rule compactL0_prepare_result [OF assms(2)]) blast
  have same: "compactL0_prepare hasher ?e0 = Inr (Some (ids, v, ?e0\<lparr>e_flush_counter := e_flush_counter e1, e_fs := e_fs e1\<rparr>))"
    by (rule again) (simp_all add: without_imm_def)
  define e' where "e' = compaction_publish ids v (?e0\<lparr>e_flush_counter := e_flush_counter e1, e_fs := e_fs e1\<rparr>)"
  have "compactL0toL1 hasher ?e0 = Inr e'" by (simp add: compactL0toL1_parts same e'_def)
  moreover have "compacts_to hasher ?e0 (compactL0toL1 hasher ?e0)"
    by (rule compactL0toL1_step [OF without_imm_compactable [OF assms(1)]]) (use assms(3) in \<open>simp add: without_imm_def\<close>)
  ultimately have inv': "engine_inv hasher e'" and map: "engine_map e' = engine_map ?e0"
    by (auto simp: compacts_to_def compactable_def)
  have "fs_inv (e_fs e1)" using engine_inv_new_file(1) [OF inv assms(3) e1] by (simp add: engine_inv_def)
  note pub = published_files [OF this, where dir = "e_data_dir e" and ids = ids and v = v]
  have fs': "fs_read (sst_name (engine_dir e) i) (e_fs e') = (if i \<in> set ids then None else fs_read (sst_name (engine_dir e) i) (e_fs e1))" for i
    by (simp add: e'_def compaction_publish_def Let_def clear_cache_def without_imm_def pub)
  show ?thesis
    by (rule that [OF inv' map [unfolded without_imm_inv(2) [OF inv]]])
      (simp_all add: fs', simp_all add: e'_def compaction_publish_def Let_def clear_cache_def without_imm_def e1)
qed

text \<open>
  C19: a flush is lost when a compaction installs its version after it.  A compaction of level 0
  holds its changed copy of the version when the flush thread writes the waiting memtable to a
  table and installs a version with it, and everything is still there; then the compaction
  installs its own copy.  The engine goes on in good order but without the memtable: it holds what
  it would hold had there been no memtable waiting.  The file of the lost table stays, but no
  version and no metadata names it.
\<close>

theorem flush_lost_in_compaction:
  assumes "compactable hasher e" "compactL0_prepare hasher e = Inr (Some (ids, v, e1))"
    and "e_imm e = Some t" "mt_snapshot t \<noteq> []" "small_run (mt_snapshot t)" "unat (e_flush_counter e) + 2 < 2 ^ 64"
  shows "\<exists>e2. flush_turn hasher e1 = Inr e2 \<and> engine_map e2 = engine_map e
     \<and> (let e3 = compaction_publish ids v e2 in
          engine_inv hasher e3 \<and> e_imm e3 = None \<and> engine_map e3 = engine_map (e\<lparr>e_imm := None\<rparr>)
          \<and> fs_read (sst_name (sst_dir (e_data_dir e3)) (e_flush_counter e3)) (e_fs e3) \<noteq> None
          \<and> e_flush_counter e3 \<notin> tv_ids (engine_version e3))"
proof -
  let ?d = "engine_dir e"
  have inv: "engine_inv hasher e" using assms(1) by (simp add: compactable_def)
  have u: "unat (e_flush_counter e) + 1 < 2 ^ 64" "unat (e_flush_counter e + 1) + 1 < 2 ^ 64"
    using assms(6) unat_seq_Suc [of "e_flush_counter e"] by simp_all
  obtain e2 where e2: "flush_turn hasher e1 = Inr e2" "engine_map e2 = engine_map e" "e_flush_counter e2 = e_flush_counter e + 2"
    and ids: "set ids \<subseteq> tv_ids (engine_version e)"
    and files: "fs_inv (e_fs (compaction_publish ids v e2))"
      "\<And>i. i \<noteq> e_flush_counter e + 2 \<Longrightarrow> fs_read (sst_name ?d i) (e_fs (compaction_publish ids v e2))
         = (if i \<in> set ids then None else fs_read (sst_name ?d i) (e_fs e1))"
      "e_flush_counter e + 2 \<notin> set ids \<Longrightarrow> fs_read (sst_name ?d (e_flush_counter e + 2)) (e_fs (compaction_publish ids v e2)) \<noteq> None"
    and f2: "e_mem e2 = e_mem e" "e_imm e2 = None" "e_seq e2 = e_seq e" "e_data_dir e2 = e_data_dir e" "e_cache e2 = map_option lru_clear (e_cache e)"
    by (rule flush_then_publish [OF inv assms(2-6)]) blast
  obtain e' where inv': "engine_inv hasher e'" and map: "engine_map e' = engine_map (e\<lparr>e_imm := None\<rparr>)"
    and f': "e_vm e' = installVersion v (e_vm e)" "e_mem e' = e_mem e" "e_imm e' = None" "e_seq e' = e_seq e" "e_data_dir e' = e_data_dir e"
      "e_cache e' = map_option lru_clear (map_option lru_clear (e_cache e))" "e_flush_counter e' = e_flush_counter e + 1"
    and fs': "\<forall>i. fs_read (sst_name ?d i) (e_fs e') = (if i \<in> set ids then None else fs_read (sst_name ?d i) (e_fs e1))"
    by (rule publish_without_imm [OF assms(1,2) u(1)]) blast
  define e3 where "e3 = compaction_publish ids v e2"
  have f3: "e_vm e3 = installVersion v (e_vm e2)" "e_mem e3 = e_mem e" "e_imm e3 = None" "e_seq e3 = e_seq e" "e_data_dir e3 = e_data_dir e"
    "e_cache e3 = map_option lru_clear (map_option lru_clear (e_cache e))" "e_flush_counter e3 = e_flush_counter e + 2"
    using f2 e2(3) by (simp_all add: e3_def compaction_publish_def Let_def clear_cache_def)
  have two: "e_flush_counter e' + 1 = e_flush_counter e + 2" "e_flush_counter e + 1 < e_flush_counter e + 2"
    using counter_fresh(2) [OF u(2)] by (simp_all add: f' add.assoc)
  have vmod: "e_vm e3 = e_vm e'" unfolding f3(1) f'(1) by (rule installVersion_any)
  have other: "fs_read (sst_name (engine_dir e') i) (e_fs e3) = fs_read (sst_name (engine_dir e') i) (e_fs e')"
    if "i \<noteq> e_flush_counter e' + 1" for i
    using files(2) [OF that [unfolded two(1)]] fs' by (simp add: f' e3_def)
  have "unat (e_flush_counter e') + 1 < 2 ^ 64" "fs_inv (e_fs e3)" using u(2) files(1) by (simp_all add: f' e3_def)
  moreover have "e_flush_counter e3 = e_flush_counter e' + 1" unfolding f3(7) two(1) ..
  ultimately have ok: "engine_inv hasher e3" "engine_layers e3 = engine_layers e'" "e_flush_counter e3 \<notin> tv_ids (engine_version e3)"
    using engine_inv_next_file [OF inv' vmod _ _ _ _ _ _ _ _ other] unfolding f3(2-6) f'(2-6) by blast+
  then have "engine_map e3 = engine_map (e\<lparr>e_imm := None\<rparr>)"
    using map by (simp add: engine_map_def engine_view_def fun_eq_iff)
  moreover have "i < e_flush_counter e + 2" if "i \<in> set ids" for i
  proof -
    have "i \<le> e_flush_counter e" using ids engine_inv_version(3) [OF inv] that by blast
    from counter_fresh(2) [OF u(1) this] show ?thesis using two(2) by (rule less_trans)
  qed
  then have "e_flush_counter e + 2 \<notin> set ids" by blast
  ultimately show ?thesis using e2(1,2) ok(1,3) f3 files(3) by (intro exI [of _ e2]) (simp add: e3_def Let_def)
qed


section \<open>The flush installs last\<close>

text \<open>What the flush thread holds before it installs its version.\<close>

lemma flush_prepare_result:
  assumes "engine_inv hasher e" "e_imm e = Some t" "small_run (mt_snapshot t)" "mt_snapshot t \<noteq> []"
    and "unat (e_flush_counter e) + 1 < 2 ^ 64" "flush_prepare hasher t e = Inr (v, e1)"
  obtains bs tab where "e1 = e\<lparr>e_flush_pending := False, e_flush_counter := e_flush_counter e + 1,
      e_fs := fs_write_file (sst_name (engine_dir e) (e_flush_counter e + 1)) bs (e_fs e)\<rparr>"
    "version_ok hasher (e_fs e1) (engine_dir e) v" "tv_ids v = insert (e_flush_counter e + 1) (tv_ids (engine_version e))"
    "findSSTableById v = (findSSTableById (engine_version e))(e_flush_counter e + 1 \<mapsto> tab)"
    "set (concat (tv_levels (engine_version e))) \<subseteq> set (concat (tv_levels v))"
proof -
  let ?fc = "e_flush_counter e + 1" and ?es = "mt_snapshot t"
  note ver = engine_inv_version [OF assms(1)]
  obtain tab bs fs1 where fl: "sst_flush hasher ?es (engine_dir e) ?fc (e_fs e) = Inr (tab, fs1)"
    "sst_path tab = sst_name (engine_dir e) ?fc" "sst_holds hasher fs1 tab ?es"
    "\<forall>p. p \<noteq> sst_name (engine_dir e) ?fc \<longrightarrow> fs_read p fs1 = fs_read p (e_fs e)"
    and bs: "fs1 = fs_write_file (sst_name (engine_dir e) ?fc) bs (e_fs e)"
    by (rule flush_writes_table [OF assms(1-5)])
  define w where "w = getVersionForModification (e_vm e)"
  have w: "version_ok hasher (e_fs e) (engine_dir e) w" "tv_ids w = tv_ids (engine_version e)"
    "findSSTableById w = findSSTableById (engine_version e)" "tv_levels w = tv_levels (engine_version e)"
    using ver(1,2) version_cong [of w "engine_version e"] by (simp_all add: w_def getVersionForModification_def)
  have new: "?fc \<notin> tv_ids w" using ver(3) counter_fresh [OF assms(5)] w(2) by blast
  obtain v1 where v1: "addSSTable tab (new_meta ?fc 0 ?es (e_seq e) (word_of_nat (length bs))) w = Inr v1" "version_ok hasher fs1 (engine_dir e) v1"
    "tv_ids v1 = insert ?fc (tv_ids w)" "findSSTableById v1 = (findSSTableById w)(?fc \<mapsto> tab)"
    "set (concat (tv_levels v1)) = insert (new_meta ?fc 0 ?es (e_seq e) (word_of_nat (length bs))) (set (concat (tv_levels w)))"
    using flush_version [OF w(1) fl(3,2) fl(4) [rule_format] new] by metis
  have "file_size (sst_name (engine_dir e) ?fc) fs1 = Inr (word_of_nat (length bs))" by (simp add: file_size_def bs)
  then have "flush_prepare hasher t e = Inr (v1\<lparr>tv_flush_counter := ?fc\<rparr>, e\<lparr>e_flush_pending := False, e_flush_counter := ?fc, e_fs := fs1\<rparr>)"
    by (simp add: flush_prepare_def Let_def fl(1) v1(1) [unfolded w_def])
  then have v: "v = v1\<lparr>tv_flush_counter := ?fc\<rparr>" and e1: "e1 = e\<lparr>e_flush_pending := False, e_flush_counter := ?fc, e_fs := fs1\<rparr>"
    unfolding assms(6) by blast+
  have v': "version_ok hasher fs1 (engine_dir e) v" "tv_ids v = tv_ids v1" "findSSTableById v = findSSTableById v1" "tv_levels v = tv_levels v1"
    using v1(2) version_cong [of v v1] by (simp_all add: v)
  show ?thesis
    by (rule that [OF e1 [unfolded bs]]) (use v' v1(3-5) w(2-4) in \<open>auto simp: e1\<close>)
qed

lemma level0_kept:
  assumes "levels_tagged ls" "levels_tagged ls'" "set (concat ls) \<subseteq> set (concat ls')"
  shows "set (level_of ls 0) \<subseteq> set (level_of ls' 0)"
proof
  fix m assume m: "m \<in> set (level_of ls 0)"
  then have "unat (meta_level m) = 0" using assms(1) by (auto simp: levels_tagged_def level_of_def split: if_splits)
  moreover have "m \<in> set (concat ls')" using level_in_concat [OF m] assms(3) by (rule set_mp [rotated])
  then obtain j where "m \<in> set (level_of ls' j)" using concat_in_level by fastforce
  ultimately show "m \<in> set (level_of ls' 0)" using assms(2) by (auto simp: levels_tagged_def level_of_def split: if_splits)
qed

text \<open>A merge over files of which one is gone.\<close>

lemma merge_gone:
  assumes "\<forall>t\<in>set ts. fs_read (sst_path t) fs' = None \<or> fs_read (sst_path t) fs' = fs_read (sst_path t) fs \<and> sst_ok hasher fs t"
    and "\<exists>t\<in>set ts. fs_read (sst_path t) fs' = None"
  shows "\<exists>msg. merge_tables fs' ts = Inl (RuntimeError msg)"
proof -
  have "\<exists>msg. open_iters fs' ts = Inl (RuntimeError msg)" using assms
  proof (induction ts)
    case (Cons t ts)
    show ?case
    proof (cases "fs_read (sst_path t) fs' = None")
      case False
      then have "sst_ok hasher fs t" "fs_read (sst_path t) fs' = fs_read (sst_path t) fs" using Cons.prems(1) by auto
      then have "sst_holds hasher fs' t (sst_data fs t)" using sst_holds_cong unfolding sst_ok_def by blast
      then obtain it where "iter_new fs' t = Inr it" using iter_new_holds by metis
      moreover have "\<exists>msg. open_iters fs' ts = Inl (RuntimeError msg)" using Cons False by auto
      ultimately show ?thesis by auto
    qed (simp add: iter_new_def)
  qed simp
  then show ?thesis by (auto simp: merge_tables_def)
qed

lemma select_tables_found: "t \<in> snd ` set (select_tables v P ms) \<longleftrightarrow> (\<exists>m\<in>set ms. P m \<and> findSSTableById v (meta_id m) = Some t)"
  by (induction ms) (auto split: option.split)

text \<open>A version that names files which are gone.\<close>

lemma version_gone:
  assumes "version_ok hasher fs dir v" "current_version (e_vm e) = Some v"
    and same: "\<And>i t. findSSTableById v i = Some t \<Longrightarrow>
       fs_read (sst_path t) (e_fs e) = None \<or> fs_read (sst_path t) (e_fs e) = fs_read (sst_path t) fs"
    and gone: "m \<in> set (level_of (tv_levels v) 0)" "\<And>t. findSSTableById v (meta_id m) = Some t \<Longrightarrow> fs_read (sst_path t) (e_fs e) = None"
  shows "map_of (run_of fs v m) key \<noteq> None \<Longrightarrow> \<exists>msg. get_uncached hasher key e = Inl (RuntimeError msg)"
    "\<exists>msg. compactL0toL1 hasher e = Inl (RuntimeError msg)"
proof -
  obtain A Ls where lv: "tv_levels v = A # Ls" "level_of (tv_levels v) 0 = A" "A \<noteq> []"
    using gone(1) by (cases "tv_levels v"; cases "level_of (tv_levels v) 0") (auto simp: level_of_def)
  have ok: "meta_ok hasher fs v a" if "a \<in> set (concat (tv_levels v))" for a
    using assms(1) that unfolding version_ok_def by blast
  show "\<exists>msg. get_uncached hasher key e = Inl (RuntimeError msg)" if "map_of (run_of fs v m) key \<noteq> None"
  proof -
    have "\<exists>msg. get_l0 hasher (e_fs e) v key A cand = Inl (RuntimeError msg)" for cand
      by (rule get_l0_gone [of A hasher fs v "e_fs e" key]) (use ok same gone that lv in auto)
    then obtain msg where "get_l0 hasher (e_fs e) v key A (newer (mt_get (e_mem e) key) (case e_imm e of None \<Rightarrow> None | Some t \<Rightarrow> mt_get t key))
        = Inl (RuntimeError msg)" by blast
    then show ?thesis
      using assms(2) lv(1,3) by (simp add: read_parts read_memory_def with_version_def getCurrentVersion_def read_files_def)
  qed
  obtain t where t: "findSSTableById v (meta_id m) = Some t" "fs_read (sst_path t) (e_fs e) = None"
    using ok [OF level_in_concat [OF gone(1)]] gone(2) unfolding meta_ok_def by blast
  obtain mn mx where kr: "key_range A = (mn, mx)" by fastforce
  define l0 where "l0 = select_tables v (\<lambda>_. True) A"
  define l1 where "l1 = (if length (tv_levels v) > 1 then select_tables v (overlaps mn mx) (tv_levels v ! 1) else [])"
  have "x \<in> set (concat (tv_levels v))" if "x \<in> set A \<or> length (tv_levels v) > 1 \<and> x \<in> set (tv_levels v ! 1)" for x
    using that nth_mem [of 1 "tv_levels v"] lv(1) by (auto simp del: nth_mem)
  note listed = this
  have "sst_ok hasher fs x \<and> (fs_read (sst_path x) (e_fs e) = None \<or> fs_read (sst_path x) (e_fs e) = fs_read (sst_path x) fs)"
    if "x \<in> set (map snd l0 @ map snd l1)" for x
  proof -
    have "x \<in> snd ` set l0 \<or> x \<in> snd ` set l1" using that by simp
    then have "\<exists>a. findSSTableById v (meta_id a) = Some x \<and> (a \<in> set A \<or> length (tv_levels v) > 1 \<and> a \<in> set (tv_levels v ! 1))"
      unfolding l0_def l1_def by (simp only: select_tables_found split: if_splits) (auto simp: select_tables_found)
    then obtain a where a: "findSSTableById v (meta_id a) = Some x" "meta_ok hasher fs v a" using ok listed by blast
    then show ?thesis using same [OF a(1)] by (simp add: meta_ok_def)
  qed
  moreover have "t \<in> snd ` set l0" unfolding l0_def select_tables_found using t(1) gone(1) lv(2) by blast
  ultimately have "\<exists>msg. merge_tables (e_fs e) (map snd l0 @ map snd l1) = Inl (RuntimeError msg)"
    using t(2) by (intro merge_gone [of _ "e_fs e" fs hasher]) auto
  then show "\<exists>msg. compactL0toL1 hasher e = Inl (RuntimeError msg)"
    using assms(2) lv kr by (auto simp: compactL0toL1_def with_version_def getCurrentVersion_def Let_def l0_def l1_def)
qed


text \<open>The files that the tables of the flush thread's version find after both have finished.\<close>

lemma flush_after_compaction:
  assumes "engine_inv hasher e" "e_imm e = Some t" "mt_snapshot t \<noteq> []" "small_run (mt_snapshot t)" "unat (e_flush_counter e) + 2 < 2 ^ 64"
    and "flush_prepare hasher t e = Inr (v, e1)" "compactL0_prepare hasher e1 = Inr (Some (ids, w, e2))"
  shows "\<And>i x. findSSTableById v i = Some x \<Longrightarrow>
       fs_read (sst_path x) (e_fs (flush_publish v (compaction_publish ids w e2))) = (if i \<in> set ids then None else fs_read (sst_path x) (e_fs e1))"
    "meta_id ` set (elev e 0) \<subseteq> set ids"
proof -
  let ?d = "engine_dir e" and ?fc = "e_flush_counter e + 1"
  define e3 where "e3 = flush_publish v (compaction_publish ids w e2)"
  have u: "unat (e_flush_counter e) + 1 < 2 ^ 64" using assms(5) by simp
  note ver = engine_inv_version [OF assms(1)]
  obtain bs tab where e1: "e1 = e\<lparr>e_flush_pending := False, e_flush_counter := ?fc, e_fs := fs_write_file (sst_name ?d ?fc) bs (e_fs e)\<rparr>"
    and v: "version_ok hasher (e_fs e1) ?d v" "tv_ids v = insert ?fc (tv_ids (engine_version e))"
      "findSSTableById v = (findSSTableById (engine_version e))(?fc \<mapsto> tab)"
      "set (concat (tv_levels (engine_version e))) \<subseteq> set (concat (tv_levels v))"
    by (rule flush_prepare_result [OF assms(1,2,4,3) u assms(6)])
  have e1v: "engine_version e1 = engine_version e" "engine_dir e1 = ?d" "e_flush_counter e1 + 1 = e_flush_counter e + 2" "e_data_dir e1 = e_data_dir e"
    by (simp_all add: engine_version_def e1)
  obtain bs2 where e2: "e2 = e1\<lparr>e_flush_counter := e_flush_counter e + 2, e_fs := fs_write_file (sst_name ?d (e_flush_counter e + 2)) bs2 (e_fs e1)\<rparr>"
    and taken: "\<forall>m\<in>set (elev e 0). findSSTableById (engine_version e) (meta_id m) \<noteq> None \<Longrightarrow> meta_id ` set (elev e 0) \<subseteq> set ids"
    by (rule compactL0_prepare_result [OF assms(7)]) (simp only: e1v)
  have fsi: "fs_inv (e_fs e)" "fs_inv (e_fs e1)" "fs_inv (e_fs e2)" using assms(1) by (simp_all add: engine_inv_def e1 e2)
  note pub = published_files [OF fsi(3), where dir = "e_data_dir e" and ids = ids and a = "e_flush_counter e2" and b = "e_seq e2" and v = w]
  note saved = published_files [OF pub(1), where dir = "e_data_dir e" and ids = "[]" and a = "e_flush_counter e2" and b = "e_seq e2" and v = v, simplified]
  have read3: "fs_read (sst_name ?d i) (e_fs e3) = (if i \<in> set ids then None else fs_read (sst_name ?d i) (e_fs e1))" if "i \<in> tv_ids v" for i
  proof -
    have "i \<le> ?fc" using that v(2) ver(3) counter_fresh(2) [OF u] by (auto intro: less_imp_le)
    moreover have "unat ?fc + 1 < 2 ^ 64" using assms(5) unat_seq_Suc [OF u] by simp
    ultimately have "i \<noteq> e_flush_counter e + 2" using counter_fresh(1) [of ?fc i] by (simp add: add.assoc)
    then have "fs_read (sst_name ?d i) (e_fs e2) = fs_read (sst_name ?d i) (e_fs e1)" using fsi(2) by (simp add: e2 sst_name_eq)
    moreover have "e_fs e3 = saveMetadata (e_data_dir e) (e_flush_counter e2) (e_seq e2) v
        (remove_tables (e_data_dir e) ids (saveMetadata (e_data_dir e) (e_flush_counter e2) (e_seq e2) w (e_fs e2)))"
      by (simp add: e3_def flush_publish_def compaction_publish_def Let_def clear_cache_def scheduleCompaction_def e2 e1)
    ultimately show ?thesis by (simp add: saved(2) pub(2))
  qed
  have wf: "tv_wf ?d v" using v(1) by (simp add: version_ok_def)
  show "fs_read (sst_path x) (e_fs (flush_publish v (compaction_publish ids w e2))) = (if i \<in> set ids then None else fs_read (sst_path x) (e_fs e1))"
    if "findSSTableById v i = Some x" for i x
    unfolding e3_def [symmetric] using read3 [of i] find_path [OF wf that] tv_lookup_dom [OF wf, of i] that by auto
  show "meta_id ` set (elev e 0) \<subseteq> set ids" using taken elev_found [OF assms(1)] by blast
qed



section \<open>An engine in which both threads have work\<close>

lemma compactL0_prepare_some:
  assumes "engine_inv hasher e" "wal_ok e" "tables_small e" "unat (e_flush_counter e) + 1 < 2 ^ 64"
    and "elev e 0 \<noteq> []" "live (newest (map (erun e) (l0_inputs e)) j) \<noteq> None"
  obtains ids v e1 where "compactL0_prepare hasher e = Inr (Some (ids, v, e1))"
proof -
  have pre: "keeps_tables id" by (simp add: keeps_tables_def)
  have eq: "compactL0toL1 hasher e = sum_bind (merge_tables (e_fs e)
      (map (\<lambda>m. the (findSSTableById (engine_version e) (meta_id m))) (l0_inputs e)))
      (\<lambda>merged_data. finish_compaction hasher id 1 (map meta_id (l0_inputs e)) merged_data e)"
    using assms(5) by (simp add: compactL0toL1_eq [OF assms(1)])
  obtain e' where e': "compactL0toL1 hasher e = Inr e'" "e_flush_counter e' = e_flush_counter e + 1"
    by (rule finish_cases [OF assms(1-3) l0_taken [OF assms(1,5)] assms(4) _ _ pre eq]) (use assms(6) in auto)
  then have "e' \<noteq> e" by auto
  then show ?thesis
    using e'(1) that unfolding compactL0toL1_parts by (cases "compactL0_prepare hasher e") (auto split: option.splits)
qed

text \<open>What the flush thread writes before it installs its version does not keep a compaction from its work.\<close>

lemma prepared_flush:
  assumes "engine_inv hasher e" "wal_ok e" "tables_small e" "unat (e_flush_counter e) + 1 < 2 ^ 64"
    and "e1 = e\<lparr>e_flush_pending := b, e_flush_counter := e_flush_counter e + 1,
        e_fs := fs_write_file (sst_name (engine_dir e) (e_flush_counter e + 1)) bs (e_fs e)\<rparr>"
  shows "engine_inv hasher e1" "wal_ok e1" "tables_small e1" "engine_version e1 = engine_version e"
    "a \<in> all_metas e \<Longrightarrow> erun e1 a = erun e a"
proof -
  note new = engine_inv_new_file [OF assms(1,4) refl, of bs]
  have fsi: "fs_inv (e_fs e)" using assms(1) by (simp add: engine_inv_def)
  show v: "engine_version e1 = engine_version e" by (simp add: assms(5) engine_version_def)
  show "engine_inv hasher e1"
    by (rule engine_inv_files(1) [OF new(1)]) (use new(1) fsi in \<open>simp_all add: assms(5) engine_inv_def\<close>)
  have "wal_ok (e\<lparr>e_fs := e_fs e1\<rparr>)" using wal_ok_write [OF assms(2) fsi sst_name_not_log] by (simp add: assms(5))
  then show "wal_ok e1" by (rule wal_ok_cong) (simp_all add: assms(5))
  show run: "erun e1 a = erun e a" if "a \<in> all_metas e" for a
    using version_ok_files(3) [OF engine_inv_version(2) [OF assms(1)] _ that, of "e_fs e1"] new(3) unfolding v by (simp add: assms(5))
  then have "weight g e1 = weight g e" for g unfolding weight_def v by (intro sum.cong refl) simp
  then show "tables_small e1" using assms(3) by (simp add: tables_small_def)
qed

lemma waiting_sample:
  obtains e m1 m2 where "compactable (\<lambda>s. 0) e" "e_imm e = Some \<lparr>mt_map = run_z\<rparr>" "e_flush_counter e = 2"
    "engine_map e ''z'' = Some ''u''" "engine_map e ''j'' = Some ''w''" "engine_map (e\<lparr>e_imm := None\<rparr>) ''z'' = None"
    "tv_levels (engine_version e) = [[m2], [], [m1]]" "erun e m2 = run_j"
proof -
  obtain e m1 m2 where e: "compactable (\<lambda>s. 0) e" "e_mem e = \<lparr>mt_map = []\<rparr>" "e_imm e = Some \<lparr>mt_map = run_z\<rparr>" "e_flush_counter e = 2"
    "tv_levels (engine_version e) = [[m2], [], [m1]]" "erun e m2 = run_j"
    "table_layers (e_fs e) (engine_version e) = [[run_j], [], [run_k]]"
    using two_level_memory [of "[]" "Some \<lparr>mt_map = run_z\<rparr>"] by blast
  have inv: "engine_inv (\<lambda>s. 0) e" using e(1) by (simp add: compactable_def)
  have layers: "engine_layers e = [[[]], [run_z], [run_j], [], [run_k]]" "engine_layers (e\<lparr>e_imm := None\<rparr>) = [[[]], [[]], [run_j], [], [run_k]]"
    using engine_inv_version(1,4) [OF inv] by (simp_all add: engine_layers_def e(2,3,7) mem_run_def mt_snapshot_def)
  have "engine_map e ''z'' = Some ''u''" "engine_map e ''j'' = Some ''w''" "engine_map (e\<lparr>e_imm := None\<rparr>) ''z'' = None"
    by (simp_all add: engine_map_def engine_view_def layers sample_runs run_z_def)
  then show ?thesis using that e(1,3-6) by blast
qed

theorem flush_lost_in_compaction_witness:
  "\<exists>e ids v e1 e2. engine_map e ''z'' = Some ''u'' \<and> compactL0_prepare (\<lambda>s. 0) e = Inr (Some (ids, v, e1))
     \<and> flush_turn (\<lambda>s. 0) e1 = Inr e2 \<and> engine_map e2 ''z'' = Some ''u'' \<and> engine_map (compaction_publish ids v e2) ''z'' = None"
proof -
  obtain e m1 m2 where e: "compactable (\<lambda>s. 0) e" "e_imm e = Some \<lparr>mt_map = run_z\<rparr>" "e_flush_counter e = 2"
    "engine_map e ''z'' = Some ''u''" "engine_map (e\<lparr>e_imm := None\<rparr>) ''z'' = None"
    "tv_levels (engine_version e) = [[m2], [], [m1]]" "erun e m2 = run_j"
    by (rule waiting_sample)
  have c: "engine_inv (\<lambda>s. 0) e" "wal_ok e" "tables_small e" using e(1) by (simp_all add: compactable_def)
  have l0: "elev e 0 = [m2]" "l0_inputs e = [m2]" by (simp_all add: l0_inputs_def level_of_def e(6))
  obtain ids v e1 where p: "compactL0_prepare (\<lambda>s. 0) e = Inr (Some (ids, v, e1))"
    by (rule compactL0_prepare_some [OF c, of "''j''"]) (simp_all add: e(3,7) l0 run_j_def)
  have z: "mt_snapshot \<lparr>mt_map = run_z\<rparr> \<noteq> []" "small_run (mt_snapshot \<lparr>mt_map = run_z\<rparr>)" "unat (e_flush_counter e) + 2 < 2 ^ 64"
    by (simp_all add: mt_snapshot_def run_z_def small_run_def sst_record_def e(3))
  show ?thesis using flush_lost_in_compaction [OF e(1) p e(2) z] p e(4,5) by (auto simp: Let_def)
qed


end
