(* ===== verification/Engine_Runs.thy ===== *)
theory Engine_Runs
  imports Engine_Calls
begin

text \<open>
  The engine as a transition system: clients push requests, read and ask for a flush while the
  writer thread, the flush thread and the compaction thread take their turns, in any order.  A
  turn of the writer is two steps here, as \<open>checkFlush\<close> may have to wait for the flush thread
  between applying a batch and answering it.  Every run keeps the invariant of the engine, and
  its reads and answers are those of one map from keys to values to which the accepted requests
  are applied in the order of acceptance.
\<close>

section \<open>Steps and runs\<close>

datatype engine_act =
    Pushed write_request bool
  | Got string "entry option"
  | Wrote "write_request list" "write_request list"
  | Answered "(nat \<times> bool) list"
  | Flush_called
  | Flushed
  | Compacted

text \<open>The engine, and the answers that the writer still has to give.\<close>

type_synonym run_state = "engine \<times> (nat \<times> bool) list option"

text \<open>
  \<open>Wrote batch extra\<close>: the writer took \<open>batch\<close>; \<open>extra\<close> are the requests that clients got
  accepted while \<open>popBatch\<close> had released the lock.
\<close>

inductive engine_step :: "(string \<Rightarrow> uint64) \<Rightarrow> crc \<Rightarrow> run_state \<Rightarrow> engine_act \<Rightarrow> run_state \<Rightarrow> bool"
  for hasher :: "string \<Rightarrow> uint64" and zcrc :: crc where
  step_push: "engine_push (wr_op r) (wr_key r) (wr_value r) (wr_completion r) e = (res, e') \<Longrightarrow> res \<noteq> Push_blocked \<Longrightarrow>
     engine_step hasher zcrc (e, p) (Pushed r (res \<noteq> Push_rejected)) (e', p)"
| step_get: "engine_get hasher key e = Inr (x, e') \<Longrightarrow> engine_step hasher zcrc (e, p) (Got key x) (e', p)"
| step_write: "wq_popBatch MAX_BATCH_SIZE gap (e_queue e) = Some (batch, q) \<Longrightarrow>
     writer_apply zcrc gap e = Some (results, e') \<Longrightarrow>
     engine_step hasher zcrc (e, None)
       (Wrote batch (accepted_all (wq_gap MAX_BATCH_SIZE gap (e_queue e)) (e_queue e))) (e', Some results)"
| step_answer: "checkFlush False e = Some e' \<Longrightarrow>
     engine_step hasher zcrc (e, Some results) (Answered results) (e', None)"
| step_flush_call: "engine_flush e = Some e' \<Longrightarrow> engine_step hasher zcrc (e, p) Flush_called (e', p)"
| step_flush: "flush_ready e \<Longrightarrow> flush_turn hasher e = Inr e' \<Longrightarrow> engine_step hasher zcrc (e, p) Flushed (e', p)"
| step_compact: "compaction_ready e \<Longrightarrow> compaction_turn hasher e = Inr e' \<Longrightarrow>
     engine_step hasher zcrc (e, p) Compacted (e', p)"

inductive_cases step_cases: "engine_step hasher zcrc s act s'"

inductive engine_run :: "(string \<Rightarrow> uint64) \<Rightarrow> crc \<Rightarrow> run_state \<Rightarrow> engine_act list \<Rightarrow> run_state \<Rightarrow> bool"
  for hasher :: "string \<Rightarrow> uint64" and zcrc :: crc where
  run_nil: "engine_run hasher zcrc s [] s"
| run_step: "engine_run hasher zcrc s acts s' \<Longrightarrow> engine_step hasher zcrc s' act s'' \<Longrightarrow>
     engine_run hasher zcrc s (acts @ [act]) s''"

section \<open>What a run says it did\<close>

fun accepted_act :: "engine_act \<Rightarrow> write_request list" where
  "accepted_act (Pushed r ok) = (if ok then [r] else [])"
| "accepted_act (Wrote batch extra) = extra"
| "accepted_act _ = []"

fun written_act :: "engine_act \<Rightarrow> write_request list" where
  "written_act (Wrote batch extra) = batch"
| "written_act _ = []"

fun answered_act :: "engine_act \<Rightarrow> (nat \<times> bool) list" where
  "answered_act (Answered results) = results"
| "answered_act _ = []"

abbreviation accepted_in :: "engine_act list \<Rightarrow> write_request list" where
  "accepted_in acts \<equiv> concat (map accepted_act acts)"

abbreviation written_in :: "engine_act list \<Rightarrow> write_request list" where
  "written_in acts \<equiv> concat (map written_act acts)"

abbreviation answered_in :: "engine_act list \<Rightarrow> (nat \<times> bool) list" where
  "answered_in acts \<equiv> concat (map answered_act acts)"

text \<open>Every read returns the value that the writes before it left.\<close>

fun reads_of_map :: "(string \<Rightarrow> string option) \<Rightarrow> engine_act list \<Rightarrow> bool" where
  "reads_of_map m [] \<longleftrightarrow> True"
| "reads_of_map m (Got key x # acts) \<longleftrightarrow> map_option ent_value x = m key \<and> reads_of_map m acts"
| "reads_of_map m (act # acts) \<longleftrightarrow> reads_of_map (fold apply_request (written_act act) m) acts"

lemma reads_of_map_snoc:
  "reads_of_map m (acts @ [act]) \<longleftrightarrow> reads_of_map m acts \<and> reads_of_map (fold apply_request (written_in acts) m) [act]"
  by (induction m acts rule: reads_of_map.induct) auto

section \<open>Frames\<close>

lemma smap_put_length: "length (smap_put k x m) \<le> Suc (length m)"
  by (induction k x m rule: smap_put.induct) auto

lemma data_bytes_put: "length (data_bytes (smap_put k x m)) \<le> length (data_bytes m) + length (sst_record k x)"
  by (induction k x m rule: smap_put.induct) auto

text \<open>What a request adds to a table.\<close>

definition request_cost :: "write_request \<Rightarrow> nat" where
  "request_cost r = length (sst_record (wr_key r) (request_entry r 0))"

lemma sst_record_cost: "length (sst_record (wr_key r) (request_entry r n)) = request_cost r"
  by (simp add: request_cost_def request_entry_def sst_record_def)

definition affordable :: "write_request list \<Rightarrow> bool" where
  "affordable rs \<longleftrightarrow> 14 * length rs < 2 ^ 32 \<and> sum_list (map request_cost rs) < 2 ^ 64"

definition built_by :: "write_request list \<Rightarrow> memtable \<Rightarrow> bool" where
  "built_by rs t \<longleftrightarrow> length (mt_snapshot t) \<le> length rs
     \<and> length (data_bytes (mt_snapshot t)) \<le> sum_list (map request_cost rs)"

lemma built_small: "built_by rs t \<Longrightarrow> affordable rs \<Longrightarrow> small_run (mt_snapshot t)"
  by (simp add: built_by_def affordable_def small_run_def)

lemma built_more: "built_by rs t \<Longrightarrow> built_by (rs @ rs') t"
  by (simp add: built_by_def)

lemma built_clear: "built_by rs (mt_clear t)"
  by (simp add: built_by_def mt_snapshot_def mt_clear_def)

lemma built_batch:
  assumes "built_by rs (e_mem e)" "\<forall>r\<in>set batch. request_ok r"
  shows "built_by (rs @ batch) (e_mem (snd (write_batch zcrc batch e)))"
  using assms
proof (induction batch arbitrary: rs e)
  case (Cons r batch)
  obtain e1 where e1: "write_one zcrc r e = (True, e1)"
    "e_mem e1 = \<lparr>mt_map = smap_put (wr_key r) (request_entry r (e_seq e)) (mt_map (e_mem e))\<rparr>"
    using write_one_eq [of r zcrc e] Cons.prems(2) by (simp add: invalidate_cache_def)
  have "built_by (rs @ [r]) (e_mem e1)"
    using Cons.prems(1) smap_put_length [of "wr_key r" "request_entry r (e_seq e)" "mt_map (e_mem e)"]
      data_bytes_put [of "wr_key r" "request_entry r (e_seq e)" "mt_map (e_mem e)"]
    by (simp add: built_by_def e1(2) mt_snapshot_def sst_record_cost)
  from Cons.IH [OF this] Cons.prems(2) e1(1) show ?case by (auto split: prod.splits)
qed simp

text \<open>Which parts of the engine a step leaves alone.\<close>

abbreviation same_modes :: "engine \<Rightarrow> engine \<Rightarrow> bool" where
  "same_modes e e' \<equiv> e_compaction_paused e' = e_compaction_paused e \<and> e_shutdown e' = e_shutdown e"

lemma write_batch_modes:
  "same_modes e (snd (write_batch zcrc rs e)) \<and> e_flush_counter (snd (write_batch zcrc rs e)) = e_flush_counter e
   \<and> e_imm (snd (write_batch zcrc rs e)) = e_imm e \<and> e_flush_pending (snd (write_batch zcrc rs e)) = e_flush_pending e"
proof (induction rs arbitrary: e)
  case (Cons r rs)
  have one: "same_modes e (snd (write_one zcrc r e)) \<and> e_flush_counter (snd (write_one zcrc r e)) = e_flush_counter e
     \<and> e_imm (snd (write_one zcrc r e)) = e_imm e \<and> e_flush_pending (snd (write_one zcrc r e)) = e_flush_pending e"
    by (cases "wr_op r") (simp_all add: write_one_def invalidate_cache_def Let_def split: prod.splits)
  obtain ok e1 where "write_one zcrc r e = (ok, e1)" by fastforce
  moreover obtain results e2 where "write_batch zcrc rs e1 = (results, e2)" by fastforce
  ultimately show ?case using Cons [of e1] one by simp
qed simp

lemma wal_flush_modes [simp]:
  "e_compaction_paused (engine_wal_flush e) = e_compaction_paused e" "e_flush_pending (engine_wal_flush e) = e_flush_pending e"
  by (simp_all add: engine_wal_flush_def split: prod.split)

lemma checkFlush_frame:
  assumes "checkFlush debug e = Some e'" "engine_inv hasher e" "\<not> e_shutdown e"
  shows "same_modes e e' \<and> e_flush_counter e' = e_flush_counter e
     \<and> (e_mem e' = e_mem e \<and> e_imm e' = e_imm e \<and> e_flush_pending e' = e_flush_pending e
        \<or> e_mem e' = mt_clear (e_mem e) \<and> e_imm e' = Some (e_mem e) \<and> e_flush_pending e')"
  using assms mt_copy_snapshot [of "e_mem e"]
  by (auto simp: checkFlush_def Let_def engine_inv_def split: if_splits)

lemma flush_turn_frame:
  assumes "flush_turn hasher e = Inr e'"
  shows "same_modes e e' \<and> e_queue e' = e_queue e \<and> (e_flush_counter e' = e_flush_counter e \<or> e_flush_counter e' = e_flush_counter e + 1)"
  using assms
  by (auto simp: flush_turn_def Let_def sum_bind_Inr_conv clear_cache_def scheduleCompaction_def split: option.splits if_splits prod.splits)

section \<open>The invariant of a run\<close>

text \<open>
  The state of the engine after the writes \<open>ws\<close> and at most \<open>n\<close> turns of the flush thread;
  \<open>base\<close> accounts for what the memtable held at the start.
\<close>

definition after_writes :: "(string \<Rightarrow> uint64) \<Rightarrow> write_request list \<Rightarrow> engine \<Rightarrow> write_request list \<Rightarrow> nat \<Rightarrow> engine \<Rightarrow> bool" where
  "after_writes hasher base e0 ws n e \<longleftrightarrow>
     engine_inv hasher e \<and> wal_ok e \<and> e_compaction_paused e = e_compaction_paused e0 \<and> \<not> e_shutdown e
     \<and> engine_map e = fold apply_request ws (engine_map e0)
     \<and> unat (e_seq e) = unat (e_seq e0) + length ws
     \<and> built_by (base @ ws) (e_mem e)
     \<and> (\<forall>t. e_imm e = Some t \<longrightarrow> built_by (base @ ws) t \<and> e_flush_pending e)
     \<and> unat (e_flush_counter e) \<le> unat (e_flush_counter e0) + n"

lemma after_writes_more: "after_writes hasher base e0 ws n e \<Longrightarrow> n \<le> n' \<Longrightarrow> after_writes hasher base e0 ws n' e"
  by (simp add: after_writes_def)

lemma engine_map_layers: "engine_layers e' = engine_layers e \<Longrightarrow> engine_map e' = engine_map e"
  by (simp add: engine_map_def engine_view_def fun_eq_iff)

lemma engine_queue_frame:
  "engine_inv hasher (e\<lparr>e_queue := q\<rparr>) = engine_inv hasher e" "wal_ok (e\<lparr>e_queue := q\<rparr>) = wal_ok e"
  "engine_map (e\<lparr>e_queue := q\<rparr>) = engine_map e"
proof -
  have l: "engine_layers (e\<lparr>e_queue := q\<rparr>) = engine_layers e" by (rule engine_layers_cong) simp_all
  show "engine_inv hasher (e\<lparr>e_queue := q\<rparr>) = engine_inv hasher e" "wal_ok (e\<lparr>e_queue := q\<rparr>) = wal_ok e"
    using l by (simp_all add: engine_inv_def versions_ok_def all_runs_def cache_ok_def engine_view_def wal_ok_def)
  show "engine_map (e\<lparr>e_queue := q\<rparr>) = engine_map e" by (rule engine_map_layers [OF l])
qed

lemma after_writes_queue [simp]: "after_writes hasher base e0 ws n (e\<lparr>e_queue := q\<rparr>) = after_writes hasher base e0 ws n e"
  by (simp add: after_writes_def engine_queue_frame)

lemma after_writes_push:
  "after_writes hasher base e0 ws n e \<Longrightarrow> engine_push op key val c e = (res, e') \<Longrightarrow> after_writes hasher base e0 ws n e'"
  by (auto simp: engine_push_def Let_def split: push_result.splits)

lemma after_writesI:
  assumes "after_writes hasher base e0 ws n e" "engine_inv hasher e'" "wal_ok e'" "same_modes e e'"
    and "engine_map e' = fold apply_request ws' (engine_map e)" "unat (e_seq e') = unat (e_seq e) + length ws'"
    and "built_by (base @ ws @ ws') (e_mem e')"
    and "\<And>t. e_imm e' = Some t \<Longrightarrow> built_by (base @ ws @ ws') t \<and> e_flush_pending e'"
    and "unat (e_flush_counter e') \<le> unat (e_flush_counter e) + k" "n + k = n'"
  shows "after_writes hasher base e0 (ws @ ws') n' e'"
proof -
  have "engine_map e = fold apply_request ws (engine_map e0)" using assms(1) by (simp add: after_writes_def)
  then have "engine_map e' = fold apply_request (ws @ ws') (engine_map e0)" unfolding assms(5) by simp
  then show ?thesis using assms(1-4,6-10) by (simp add: after_writes_def)
qed

lemma after_writes_mem:
  assumes "after_writes hasher base e0 ws n e"
  shows "built_by (base @ ws @ ws') (e_mem e)" "e_imm e = Some t \<Longrightarrow> built_by (base @ ws @ ws') t \<and> e_flush_pending e"
  using assms built_more [of "base @ ws" _ ws'] by (auto simp: after_writes_def)

lemma after_writes_get:
  assumes "after_writes hasher base e0 ws n e" "engine_get hasher key e = Inr (x, e')"
  shows "after_writes hasher base e0 ws n e' \<and> map_option ent_value x = engine_map e key \<and> e_queue e' = e_queue e"
proof -
  have inv: "engine_inv hasher e" using assms(1) by (simp add: after_writes_def)
  obtain e2 where e2: "engine_get hasher key e = Inr (live (engine_view e key), e2)" "engine_inv hasher e2"
    "\<exists>c. e2 = e\<lparr>e_cache := c\<rparr>"
    using engine_get_correct [OF inv] by metis
  then obtain c where c: "e' = e\<lparr>e_cache := c\<rparr>" "x = live (engine_view e key)" "engine_inv hasher e'"
    using assms(2) by auto
  have "engine_map e' = engine_map e" by (rule engine_map_layers) (simp add: c(1))
  moreover have "wal_ok e'" using assms(1) c(1) by (simp add: after_writes_def wal_ok_def)
  ultimately have "after_writes hasher base e0 (ws @ []) n e'"
    using after_writes_mem [OF assms(1), where ws' = "[]"]
    by (intro after_writesI [OF assms(1) c(3), of "[]" 0]) (simp_all add: c(1))
  then show ?thesis by (simp add: c(1,2) engine_map_def)
qed

lemma writes_loose:
  assumes "after_writes hasher base e0 ws n e"
  shows "engine_inv hasher e" "wal_ok e" "\<not> e_shutdown e" "unat (e_seq e) = unat (e_seq e0) + length ws"
  using assms by (simp_all add: after_writes_def)

lemma after_writes_write:
  assumes "after_writes hasher base e0 ws n e" "\<forall>r\<in>set batch. request_ok r" "unat (e_seq e0) + length (ws @ batch) < 2 ^ 64"
    and "write_batch zcrc batch e = (results, e1)"
  shows "after_writes hasher base e0 (ws @ batch) n (engine_wal_flush e1)
     \<and> results = map (\<lambda>r. (wr_completion r, True)) batch"
proof -
  note aw = writes_loose [OF assms(1)]
  have "unat (e_seq e) + length batch < 2 ^ 64" using assms(3) aw(4) by simp
  note b = write_batch_correct [OF aw(1,2) assms(2) this assms(4)]
  have e1: "e1 = snd (write_batch zcrc batch e)" using assms(4) by simp
  have mem: "built_by ((base @ ws) @ batch) (e_mem e1)"
    unfolding e1 by (rule built_batch [OF _ assms(2)]) (use assms(1) in \<open>simp add: after_writes_def\<close>)
  note fl = engine_wal_flush_inv [of hasher e1]
  have map: "engine_map (engine_wal_flush e1) = fold apply_request batch (engine_map e)"
    using engine_map_layers [of "engine_wal_flush e1" e1] fl b by simp
  have imm: "built_by (base @ ws @ batch) t \<and> e_flush_pending (engine_wal_flush e1)" if "e_imm (engine_wal_flush e1) = Some t" for t
    using that after_writes_mem(2) [OF assms(1), of t batch] write_batch_modes [of zcrc batch e, folded e1] by simp
  have "after_writes hasher base e0 (ws @ batch) n (engine_wal_flush e1)"
    by (rule after_writesI [OF assms(1), of _ batch 0, OF _ _ _ map])
      (use mem imm b fl write_batch_modes [of zcrc batch e, folded e1] in simp_all)
  then show ?thesis using b by simp
qed

lemma after_writes_batch:
  assumes "after_writes hasher base e0 ws n e" "wq_popBatch MAX_BATCH_SIZE gap (e_queue e) = Some (batch, q)"
    and "writer_apply zcrc gap e = Some (results, e')" "\<forall>r\<in>set batch. request_ok r"
    and "unat (e_seq e0) + length (ws @ batch) < 2 ^ 64"
  shows "after_writes hasher base e0 (ws @ batch) n e' \<and> e_queue e' = q
     \<and> results = map (\<lambda>r. (wr_completion r, True)) batch"
proof -
  let ?e = "e\<lparr>e_queue := q\<rparr>"
  obtain e1 where wb: "write_batch zcrc batch ?e = (results, e1)" "e' = engine_wal_flush e1"
    using assms(2,3) by (auto simp: writer_apply_def split: if_splits prod.splits)
  have "after_writes hasher base e0 ws n ?e" using assms(1) by simp
  from after_writes_write [OF this assms(4,5) wb(1)] show ?thesis
    using write_batch_queue [of zcrc batch ?e] wb by simp
qed

lemma after_writes_checkFlush:
  assumes "after_writes hasher base e0 ws n e" "checkFlush debug e = Some e'"
  shows "after_writes hasher base e0 ws n e' \<and> e_queue e' = e_queue e"
proof -
  have inv: "engine_inv hasher e" "wal_ok e" "\<not> e_shutdown e" using assms(1) by (simp_all add: after_writes_def)
  note c = checkFlush_correct [OF inv(1,2) assms(2)] checkFlush_frame [OF assms(2) inv(1,3)]
  have "engine_map e' = engine_map e" using c(1) by (simp add: engine_map_def fun_eq_iff)
  then show ?thesis
    using assms(1) c built_clear checkFlush_queue [OF assms(2)] by (auto simp: after_writes_def)
qed

lemma unat_Suc_le: "unat ((x :: uint64) + 1) \<le> unat x + 1"
  by (simp add: unat_word_ariths)

lemma after_writes_flush:
  assumes "after_writes hasher base e0 ws n e" "affordable (base @ ws)" "unat (e_flush_counter e0) + Suc n < 2 ^ 64"
  shows "\<exists>e'. flush_turn hasher e = Inr e' \<and> after_writes hasher base e0 ws (Suc n) e' \<and> e_queue e' = e_queue e \<and> e_imm e' = None"
proof (cases "e_imm e")
  case None
  then have "flush_turn hasher e = Inr e" by (simp add: flush_turn_def)
  then show ?thesis using assms(1) None after_writes_more [of hasher base e0 ws n e "Suc n"] by auto
next
  case (Some t)
  have pre: "engine_inv hasher e" "wal_ok e" "small_run (mt_snapshot t)" "unat (e_flush_counter e) + 1 < 2 ^ 64"
    using assms Some built_small [of "base @ ws" t] by (auto simp: after_writes_def)
  obtain e' where e': "flush_turn hasher e = Inr e'" "engine_inv hasher e'" "wal_ok e'" "engine_view e' = engine_view e"
    "e_imm e' = None" "e_mem e' = e_mem e" "e_seq e' = e_seq e"
    using flush_turn_correct [OF pre(1,2) Some pre(3,4)] by metis
  have "engine_map e' = engine_map e" using e'(4) by (simp add: engine_map_def fun_eq_iff)
  then have "after_writes hasher base e0 ws (Suc n) e'"
    using assms(1) e' flush_turn_frame [OF e'(1)] unat_Suc_le [of "e_flush_counter e"] by (auto simp: after_writes_def)
  then show ?thesis using e'(1,5) flush_turn_frame [OF e'(1)] by auto
qed

section \<open>Runs keep the invariant\<close>

definition run_start :: "(string \<Rightarrow> uint64) \<Rightarrow> write_request list \<Rightarrow> engine \<Rightarrow> bool" where
  "run_start hasher base e \<longleftrightarrow> engine_inv hasher e \<and> wal_ok e \<and> e_compaction_paused e \<and> \<not> e_shutdown e
     \<and> e_imm e = None \<and> built_by base (e_mem e)"

text \<open>All requests of the run, the ones already queued at its start included, and their bounds.\<close>

definition requests_in :: "engine \<Rightarrow> engine_act list \<Rightarrow> write_request list" where
  "requests_in e acts = wq_queue (e_queue e) @ accepted_in acts"

definition run_fits :: "write_request list \<Rightarrow> engine \<Rightarrow> engine_act list \<Rightarrow> bool" where
  "run_fits base e acts \<longleftrightarrow> list_all request_ok (requests_in e acts) \<and> affordable (base @ requests_in e acts)
     \<and> unat (e_seq e) + length (requests_in e acts) < 2 ^ 64 \<and> unat (e_flush_counter e) + length acts < 2 ^ 64"

definition to_answer :: "(nat \<times> bool) list option \<Rightarrow> (nat \<times> bool) list" where
  "to_answer p = (case p of None \<Rightarrow> [] | Some results \<Rightarrow> results)"

lemma to_answer_simps [simp]: "to_answer None = []" "to_answer (Some results) = results"
  by (simp_all add: to_answer_def)

text \<open>The invariant of a run, with at most \<open>n\<close> tables written since its start.\<close>

definition run_inv :: "(string \<Rightarrow> uint64) \<Rightarrow> write_request list \<Rightarrow> engine \<Rightarrow> nat \<Rightarrow> engine_act list \<Rightarrow> run_state \<Rightarrow> bool" where
  "run_inv hasher base e0 n acts s \<longleftrightarrow>
     after_writes hasher base e0 (written_in acts) n (fst s)
     \<and> written_in acts @ wq_queue (e_queue (fst s)) = requests_in e0 acts
     \<and> answered_in acts @ to_answer (snd s) = map (\<lambda>r. (wr_completion r, True)) (written_in acts)
     \<and> reads_of_map (engine_map e0) acts"

lemma run_inv_start: "run_start hasher base e \<Longrightarrow> run_inv hasher base e 0 [] (e, None)"
  by (simp add: run_start_def run_inv_def after_writes_def requests_in_def)

lemma run_fits_prefix: "run_fits base e (acts @ [act]) \<Longrightarrow> run_fits base e acts"
  by (auto simp: run_fits_def requests_in_def affordable_def)

lemma requests_in_snoc [simp]: "requests_in e (acts @ [act]) = requests_in e acts @ accepted_act act"
  by (simp add: requests_in_def)

text \<open>The part of the requests that was written.\<close>

lemma run_fits_written:
  assumes "run_fits base e acts" "ws @ rest = requests_in e acts"
  shows "affordable (base @ ws)" "list_all request_ok ws" "unat (e_seq e) + length ws < 2 ^ 64"
  using assms(1) unfolding run_fits_def assms(2) [symmetric] by (simp_all add: affordable_def)

lemma engine_push_queue:
  assumes "engine_push (wr_op r) (wr_key r) (wr_value r) (wr_completion r) e = (res, e')" "res \<noteq> Push_blocked"
  shows "wq_queue (e_queue e') = wq_queue (e_queue e) @ (if res \<noteq> Push_rejected then [r] else [])"
  using assms by (cases r) (auto simp: engine_push_def wq_push_def split: if_splits)

lemma popBatch_requests:
  assumes "wq_popBatch n gap q = Some (batch, q')"
  shows "batch @ wq_queue q' = wq_queue q @ accepted_all (wq_gap n gap q) q"
  using wq_popBatch_eq [OF assms] wq_events_queue [of q "wq_gap n gap q"] by (metis append_take_drop_id)

lemma run_inv_step:
  assumes "run_inv hasher base e0 n acts s" "engine_step hasher zcrc s act s'" "run_fits base e0 (acts @ [act])"
    and "unat (e_flush_counter e0) + Suc n < 2 ^ 64" "act = Compacted \<Longrightarrow> e_compaction_paused e0"
  shows "run_inv hasher base e0 (Suc n) (acts @ [act]) s'"
proof -
  let ?ws = "written_in acts" and ?n = n
  have aw: "after_writes hasher base e0 ?ws ?n (fst s)" and q: "?ws @ wq_queue (e_queue (fst s)) = requests_in e0 acts"
    and ans: "answered_in acts @ to_answer (snd s) = map (\<lambda>r. (wr_completion r, True)) ?ws"
    and rd: "reads_of_map (engine_map e0) acts"
    using assms(1) by (simp_all add: run_inv_def)
  note more = after_writes_more [of hasher base e0 _ ?n _ "Suc ?n"]
  note w = run_fits_written [OF run_fits_prefix [OF assms(3)] q]
  from assms(2) show ?thesis
  proof cases
    case (step_push r e res e' p)
    then show ?thesis
      using more [OF after_writes_push [of hasher base e0 ?ws ?n e]] engine_push_queue [of r e res e'] aw q ans rd
      by (simp add: run_inv_def reads_of_map_snoc)
  next
    case (step_get key e x e' p)
    have "engine_map e = fold apply_request ?ws (engine_map e0)" using aw step_get by (simp add: after_writes_def)
    then show ?thesis
      using step_get after_writes_get [of hasher base e0 ?ws ?n e key x e'] more aw q ans rd
      by (simp add: run_inv_def reads_of_map_snoc)
  next
    case (step_write gap e batch qu results e')
    have split: "batch @ wq_queue qu = wq_queue (e_queue e) @ accepted_all (wq_gap MAX_BATCH_SIZE gap (e_queue e)) (e_queue e)"
      by (rule popBatch_requests [OF step_write(4)])
    then have all: "(?ws @ batch) @ wq_queue qu = requests_in e0 (acts @ [act])" using q step_write by simp
    note f = run_fits_written [OF assms(3) all]
    have "after_writes hasher base e0 (?ws @ batch) ?n e' \<and> e_queue e' = qu
        \<and> results = map (\<lambda>r. (wr_completion r, True)) batch"
      by (rule after_writes_batch [OF _ step_write(4,5) _ f(3)]) (use aw f(2) step_write in \<open>simp_all add: list_all_iff\<close>)
    then show ?thesis using step_write more all ans rd by (simp add: run_inv_def reads_of_map_snoc)
  next
    case (step_answer e e' results)
    then show ?thesis using after_writes_checkFlush [of hasher base e0 ?ws ?n e False e'] more aw q ans rd
      by (simp add: run_inv_def reads_of_map_snoc)
  next
    case (step_flush_call e e' p)
    then show ?thesis using after_writes_checkFlush [of hasher base e0 ?ws ?n e True e'] more aw q ans rd
      by (simp add: run_inv_def reads_of_map_snoc engine_flush_def)
  next
    case (step_flush e e' p)
    then show ?thesis using after_writes_flush [of hasher base e0 ?ws ?n e] w(1) assms(4) aw q ans rd
      by (auto simp: run_inv_def reads_of_map_snoc)
  next
    case (step_compact e e' p)
    then show ?thesis using aw assms(5) by (simp add: compaction_ready_def after_writes_def)
  qed
qed

lemma run_inv_run:
  assumes "engine_run hasher zcrc s acts s'" "run_start hasher base e" "s = (e, None)" "run_fits base e acts"
  shows "run_inv hasher base e (length acts) acts s'"
  using assms
proof (induction rule: engine_run.induct)
  case (run_step s acts s' act s'')
  have "run_inv hasher base e (length acts) acts s'" using run_step run_fits_prefix by blast
  moreover have "e_compaction_paused e" using run_step.prems(1) by (simp add: run_start_def)
  moreover have "unat (e_flush_counter e) + Suc (length acts) < 2 ^ 64" using run_step.prems(3) by (simp add: run_fits_def)
  ultimately show ?case using run_inv_step [OF _ run_step.hyps(2) run_step.prems(3)] by simp
qed (simp add: run_inv_start)

section \<open>Properties\<close>

text \<open>
  C1: every run of the engine is one of a map.  Start with compaction paused and no memtable
  waiting, and let clients push, read and ask for flushes and the threads take their turns in any
  order.  Then the invariant holds, the requests written are the accepted ones in the order of
  acceptance as far as the writer has come, the keys and values a reader can see are these
  requests applied one by one, every read along the way returned the value that the writes before
  it had left, and the answers given so far say success for the written requests in order, but
  for the batch that the writer is about to answer.
\<close>

theorem engine_run_refines_map:
  assumes "run_start hasher base e0" "engine_run hasher zcrc (e0, None) acts (e, p)" "run_fits base e0 acts"
  shows "engine_inv hasher e
     \<and> written_in acts @ wq_queue (e_queue e) = requests_in e0 acts
     \<and> engine_map e = fold apply_request (written_in acts) (engine_map e0)
     \<and> reads_of_map (engine_map e0) acts
     \<and> answered_in acts @ to_answer p = map (\<lambda>r. (wr_completion r, True)) (written_in acts)"
  using run_inv_run [OF assms(2,1) refl assms(3)] by (simp add: run_inv_def after_writes_def)

lemma run_two: "engine_step hasher zcrc s a s1 \<Longrightarrow> engine_step hasher zcrc s1 b s2 \<Longrightarrow> engine_run hasher zcrc s [a, b] s2"
  using run_step [OF run_step [OF run_nil, of hasher zcrc s a s1], of b s2] by simp

lemma writer_enabled:
  assumes "wq_queue (e_queue e) \<noteq> []"
  obtains results e' where "engine_step hasher zcrc (e, None) (Wrote (take MAX_BATCH_SIZE (wq_queue (e_queue e))) []) (e', Some results)"
    "take MAX_BATCH_SIZE (wq_queue (e_queue e)) \<noteq> []"
proof -
  let ?b = "take MAX_BATCH_SIZE (wq_queue (e_queue e))"
  have b: "wq_popBatch MAX_BATCH_SIZE [] (e_queue e) = Some (?b, (e_queue e)\<lparr>wq_queue := drop MAX_BATCH_SIZE (wq_queue (e_queue e))\<rparr>)"
    using assms by (simp add: wq_popBatch_def wq_take_eq)
  moreover have "?b \<noteq> []" using assms by (simp add: MAX_BATCH_SIZE_def)
  ultimately obtain results e' where "writer_apply zcrc [] e = Some (results, e')"
    by (cases "write_batch zcrc ?b (e\<lparr>e_queue := (e_queue e)\<lparr>wq_queue := drop MAX_BATCH_SIZE (wq_queue (e_queue e))\<rparr>\<rparr>)")
      (auto simp: writer_apply_def)
  from step_write [OF b this, of hasher] \<open>?b \<noteq> []\<close> show ?thesis by (intro that) (simp_all add: wq_gap_def)
qed


text \<open>A run of the engine on an empty directory: a put, its batch, a read.\<close>

lemma fresh_start:
  obtains e where "engine_open (\<lambda>c b. c) ''d'' 2 fs_empty = Inr e" "run_start (\<lambda>s. 0) [] (pauseCompaction e)"
    "engine_map (pauseCompaction e) = Map.empty" "unat (e_seq e) = 1" "unat (e_flush_counter e) = 0"
    "wq_queue (e_queue e) = []" "\<not> wq_shutdown (e_queue e)" "0 < wq_max_size (e_queue e)"
proof -
  have d: "dir_ok (sst_dir ''d'')" by (rule dir_ok_no_dot) (simp add: sst_dir_def)
  obtain e where e: "engine_open (\<lambda>c b. c) ''d'' 2 fs_empty = Inr e" "engine_inv (\<lambda>s. 0) e" "\<And>k. engine_view e k = None"
    "e_data_dir e = ''d''" "e_mem e = mt_new" "e_imm e = None" "e_seq e = 1" "e_queue e = wq_new 10000" "\<not> e_shutdown e"
    "e_fs e = snd (wal_open (log_path ''d'') fs_empty)" "e_wal e = fst (wal_open (log_path ''d'') fs_empty)"
    "e_flush_counter e = 0"
    using engine_fresh [OF d, of "\<lambda>c b. c" 2 "\<lambda>s. 0"] by metis
  have w: "wal_ok e" using e(4,10,11) by (intro wal_ok_open [of fs_empty _ "''d''"]) simp_all
  have l: "engine_layers (pauseCompaction e) = engine_layers e" by (rule engine_layers_cong) (simp_all add: pauseCompaction_def)
  have "engine_inv (\<lambda>s. 0) (pauseCompaction e)" "wal_ok (pauseCompaction e)"
    using e(2) w l by (simp_all add: engine_inv_def versions_ok_def all_runs_def cache_ok_def engine_view_def
        wal_ok_def pauseCompaction_def)
  then have "run_start (\<lambda>s. 0) [] (pauseCompaction e)"
    using e(5,6,9) by (simp add: run_start_def pauseCompaction_def built_by_def mt_snapshot_def mt_new_def)
  moreover have "engine_map (pauseCompaction e) = Map.empty"
    using engine_map_layers [OF l] e(3) by (simp add: engine_map_def fun_eq_iff)
  ultimately show ?thesis using that e(1,7,8,12) by (simp add: wq_new_def)
qed

text \<open>The run that puts a key on the empty engine, up to where the batch is applied.\<close>

definition put_acts :: "engine_act list" where
  "put_acts = [Pushed sample_request True, Wrote [sample_request] []]"

lemma put_run:
  obtains e e1 results where "engine_open (\<lambda>c b. c) ''d'' 2 fs_empty = Inr e" "run_start (\<lambda>s. 0) [] (pauseCompaction e)"
    "engine_map (pauseCompaction e) = Map.empty"
    "engine_run (\<lambda>s. 0) (\<lambda>c b. c) (pauseCompaction e, None) put_acts (e1, Some results)"
    "\<And>acts. accepted_in acts = [] \<Longrightarrow> length acts < 9 \<Longrightarrow> run_fits [] (pauseCompaction e) (put_acts @ acts)"
    "unat (e_flush_counter (pauseCompaction e)) = 0"
proof -
  obtain e where e: "engine_open (\<lambda>c b. c) ''d'' 2 fs_empty = Inr e" "run_start (\<lambda>s. 0) [] (pauseCompaction e)"
    "engine_map (pauseCompaction e) = Map.empty" "unat (e_seq e) = 1" "unat (e_flush_counter e) = 0"
    "wq_queue (e_queue e) = []" "\<not> wq_shutdown (e_queue e)" "0 < wq_max_size (e_queue e)"
    by (rule fresh_start)
  let ?e = "pauseCompaction e" and ?r = sample_request
  have q: "e_queue ?e = e_queue e" by (simp add: pauseCompaction_def)
  define e0 where "e0 = ?e\<lparr>e_queue := (e_queue e)\<lparr>wq_queue := [?r]\<rparr>\<rparr>"
  have "engine_push (wr_op ?r) (wr_key ?r) (wr_value ?r) (wr_completion ?r) ?e = (Push_queued (e_queue e0), e0)"
    using e(6-8) by (simp add: engine_push_def wq_push_def q e0_def sample_request_def)
  from step_push [OF this, of "\<lambda>s. 0" "\<lambda>c b. c" None]
  have p: "engine_step (\<lambda>s. 0) (\<lambda>c b. c) (?e, None) (Pushed ?r True) (e0, None)" by simp
  have ne: "wq_queue (e_queue e0) \<noteq> []" "take MAX_BATCH_SIZE (wq_queue (e_queue e0)) = [?r]"
    by (simp_all add: e0_def MAX_BATCH_SIZE_def)
  obtain results e1 where w: "engine_step (\<lambda>s. 0) (\<lambda>c b. c) (e0, None) (Wrote [?r] []) (e1, Some results)"
    using writer_enabled [OF ne(1), of "\<lambda>s. 0" "\<lambda>c b. c"] unfolding ne(2) by metis
  have "run_fits [] ?e (put_acts @ acts)" if "accepted_in acts = []" "length acts < 9" for acts
  proof -
    have "requests_in ?e (put_acts @ acts) = [?r]"
      using that(1) e(6) by (simp add: requests_in_def put_acts_def pauseCompaction_def)
    then show ?thesis
      using that(2) e(4,5) by (simp add: run_fits_def put_acts_def request_ok_def affordable_def request_cost_def
          sample_request_def request_entry_def sst_record_def pauseCompaction_def)
  qed
  then show ?thesis using that [OF e(1-3) run_two [OF p w, folded put_acts_def]] e(5) by (simp add: pauseCompaction_def)
qed

theorem engine_run_refines_map_witness:
  "\<exists>e e2 x p. engine_open (\<lambda>c b. c) ''d'' 2 fs_empty = Inr e
     \<and> engine_run (\<lambda>s. 0) (\<lambda>c b. c) (pauseCompaction e, None) (put_acts @ [Got ''k'' (Some x)]) (e2, p)
     \<and> ent_value x = ''v'' \<and> engine_map e2 = [''k'' \<mapsto> ''v'']"
proof -
  obtain e e1 results where e: "engine_open (\<lambda>c b. c) ''d'' 2 fs_empty = Inr e" "run_start (\<lambda>s. 0) [] (pauseCompaction e)"
    "engine_map (pauseCompaction e) = Map.empty"
    "engine_run (\<lambda>s. 0) (\<lambda>c b. c) (pauseCompaction e, None) put_acts (e1, Some results)"
    "\<And>acts. accepted_in acts = [] \<Longrightarrow> length acts < 9 \<Longrightarrow> run_fits [] (pauseCompaction e) (put_acts @ acts)"
    "unat (e_flush_counter (pauseCompaction e)) = 0"
    by (rule put_run) blast
  have "run_fits [] (pauseCompaction e) put_acts" using e(5) [of "[]"] by simp
  from run_inv_run [OF e(4,2) refl this] have "engine_inv (\<lambda>s. 0) e1" by (simp add: run_inv_def after_writes_def)
  then obtain e2 y where g: "engine_get (\<lambda>s. 0) ''k'' e1 = Inr (y, e2)" using engine_get_correct by metis
  have run: "engine_run (\<lambda>s. 0) (\<lambda>c b. c) (pauseCompaction e, None) (put_acts @ [Got ''k'' y]) (e2, Some results)"
    by (rule run_step [OF e(4) step_get [OF g]])
  have "run_fits [] (pauseCompaction e) (put_acts @ [Got ''k'' y])" by (rule e(5)) simp_all
  from engine_run_refines_map [OF e(2) run this]
  have "map_option ent_value y = Some ''v''" "engine_map e2 = [''k'' \<mapsto> ''v'']"
    by (simp_all add: e(3) put_acts_def apply_request_def sample_request_def)
  then show ?thesis using e(1) run by auto
qed


end
