(* ===== verification/Compacting_Runs.thy ===== *)
theory Compacting_Runs
  imports Engine_Runs Compaction_Turns
begin

text \<open>
  Runs of the engine while the compaction thread is at work.  A compaction may bring back what was
  deleted, so these are runs whose requests are puts.  What the threads keep is stated with the
  multiset of all versions in memory and in tables: a write adds its version, a hand-over and a
  flush leave the multiset as it is, and a compaction only loses versions.
\<close>

section \<open>Versions in memory and in tables\<close>

lemma sum_mset_map: "(\<Sum>x\<in>#mset xs. g x) = sum_list (map g xs)" for g :: "'a \<Rightarrow> nat"
  by (induction xs) simp_all

lemma stored_parts:
  fixes g :: "string \<times> entry \<Rightarrow> nat"
  assumes "engine_inv hasher e"
  shows "(\<Sum>x\<in>#stored e. g x) =
      sum_list (map g (mt_snapshot (e_mem e))) + sum_list (map g (mem_run (e_imm e))) + weight g e"
    "x \<in># stored e \<longleftrightarrow> x \<in> set (mt_snapshot (e_mem e)) \<or> x \<in> set (mem_run (e_imm e))
       \<or> (\<exists>a\<in>all_metas e. x \<in> set (erun e a))"
proof -
  let ?ms = "concat (tv_levels (engine_version e))"
  have runs: "all_runs e = mt_snapshot (e_mem e) # mem_run (e_imm e) # map (erun e) ?ms"
    by (simp add: all_runs_def engine_inv_version(4) [OF assms] table_layers_def map_concat comp_def)
  have "distinct ?ms" using engine_inv_version(5) [OF assms] by (auto simp: tv_wf_def distinct_map)
  then have "weight g e = sum_list (map (\<lambda>a. sum_list (map g (erun e a))) ?ms)"
    unfolding weight_def by (simp add: sum_list_distinct_conv_sum_set del: set_concat)
  moreover have "sum_list (map g (concat (map (erun e) ms))) = sum_list (map (\<lambda>a. sum_list (map g (erun e a))) ms)" for ms
    by (induction ms) simp_all
  ultimately show "(\<Sum>x\<in>#stored e. g x) =
      sum_list (map g (mt_snapshot (e_mem e))) + sum_list (map g (mem_run (e_imm e))) + weight g e"
    unfolding stored_def sum_mset_map runs by simp
  show "x \<in># stored e \<longleftrightarrow> x \<in> set (mt_snapshot (e_mem e)) \<or> x \<in> set (mem_run (e_imm e))
       \<or> (\<exists>a\<in>all_metas e. x \<in> set (erun e a))"
    unfolding stored_def runs by auto
qed

text \<open>\<open>S'\<close> holds at most what \<open>S\<close> held and one version for each request of \<open>rs\<close>.\<close>

definition grows_by :: "write_request list \<Rightarrow> (string \<times> entry) multiset \<Rightarrow> (string \<times> entry) multiset \<Rightarrow> bool" where
  "grows_by rs S S' \<longleftrightarrow> (\<exists>ns. length ns = length rs
     \<and> S' \<subseteq># S + mset (map (\<lambda>(r, n). (wr_key r, request_entry r n)) (zip rs ns)))"

lemma grows_by_refl: "grows_by [] S S"
  by (simp add: grows_by_def)

lemma grows_by_trans:
  assumes "grows_by rs S S1" "grows_by rs' S1 S2"
  shows "grows_by (rs @ rs') S S2"
proof -
  let ?new = "\<lambda>rs ns. mset (map (\<lambda>(r, n). (wr_key r, request_entry r n)) (zip rs ns))"
  obtain ns where ns: "length ns = length rs" "S1 \<subseteq># S + ?new rs ns" using assms(1) unfolding grows_by_def by blast
  obtain ns' where ns': "length ns' = length rs'" "S2 \<subseteq># S1 + ?new rs' ns'" using assms(2) unfolding grows_by_def by blast
  have "S2 \<subseteq># (S + ?new rs ns) + ?new rs' ns'"
    by (rule subset_mset.order_trans [OF ns'(2) subset_mset.add_right_mono [OF ns(2)]])
  then have "S2 \<subseteq># S + ?new (rs @ rs') (ns @ ns')" using ns(1) by (simp add: add.assoc)
  then show ?thesis unfolding grows_by_def using ns(1) ns'(1) by (intro exI [of _ "ns @ ns'"]) simp
qed

lemma smap_put_mset: "mset (smap_put k x m) \<subseteq># add_mset (k, x) (mset m)"
proof (induction k x m rule: smap_put.induct)
  case (2 k v k' v' m)
  then show ?case by (auto simp: add_mset_commute [of "(k, v)"])
qed simp

lemma write_one_stored:
  assumes "request_ok r"
  shows "grows_by [r] (stored e) (stored (snd (write_one zcrc r e)))"
proof -
  let ?e1 = "snd (write_one zcrc r e)" and ?put = "smap_put (wr_key r) (request_entry r (e_seq e)) (mt_map (e_mem e))"
  have "e_mem ?e1 = \<lparr>mt_map = ?put\<rparr>" using write_one_eq [OF assms] by (simp add: invalidate_cache_def)
  then have "engine_layers ?e1 = [?put] # tl (engine_layers e)"
    by (simp add: engine_layers_def write_one_frame [OF assms] mt_snapshot_def split: option.split)
  moreover have "engine_layers e = [mt_map (e_mem e)] # tl (engine_layers e)"
    by (simp add: engine_layers_def mt_snapshot_def)
  then obtain L where "engine_layers e = [mt_map (e_mem e)] # L" by blast
  ultimately have "stored ?e1 = mset ?put + mset (concat (concat L))"
    "stored e = mset (mt_map (e_mem e)) + mset (concat (concat L))"
    by (simp_all add: stored_def all_runs_def)
  then have "stored ?e1 \<subseteq># add_mset (wr_key r, request_entry r (e_seq e)) (stored e)"
    using smap_put_mset [of "wr_key r" "request_entry r (e_seq e)" "mt_map (e_mem e)"] by simp
  then show ?thesis unfolding grows_by_def by (intro exI [of _ "[e_seq e]"]) simp
qed

lemma write_batch_stored:
  assumes "\<forall>r\<in>set rs. request_ok r"
  shows "grows_by rs (stored e) (stored (snd (write_batch zcrc rs e)))"
  using assms
proof (induction rs arbitrary: e)
  case (Cons r rs)
  have "grows_by ([r] @ rs) (stored e) (stored (snd (write_batch zcrc rs (snd (write_one zcrc r e)))))"
    by (rule grows_by_trans [OF write_one_stored Cons.IH]) (use Cons.prems in simp_all)
  then show ?case by (simp split: prod.splits) (metis snd_conv)
qed (simp add: grows_by_refl)

section \<open>What a step does to the versions\<close>

lemma step_stored:
  assumes "engine_step hasher zcrc s act s'" "engine_inv hasher (fst s)" "wal_ok (fst s)" "\<not> e_shutdown (fst s)"
    and "act \<noteq> Compacted" "\<forall>r\<in>set (written_act act). request_ok r" "unat (e_seq (fst s)) + length (written_act act) < 2 ^ 64"
    and "\<And>t. e_imm (fst s) = Some t \<Longrightarrow> small_run (mt_snapshot t)" "unat (e_flush_counter (fst s)) + 1 < 2 ^ 64"
  shows "grows_by (written_act act) (stored (fst s)) (stored (fst s'))"
  using assms(1)
proof cases
  case (step_push r e res e' p)
  then have "engine_layers e' = engine_layers e"
    by (intro engine_layers_cong) (auto simp: engine_push_def Let_def split: push_result.splits)
  then show ?thesis using stored_layers [of e' e] grows_by_refl step_push by simp
next
  case (step_get key e x e' p)
  obtain e2 where "engine_get hasher key e = Inr (live (engine_view e key), e2)" "\<exists>c. e2 = e\<lparr>e_cache := c\<rparr>"
    using engine_get_correct [of hasher e key] assms(2) step_get(1) by auto
  then have "engine_layers e' = engine_layers e" using step_get by auto
  then show ?thesis using stored_layers [of e' e] grows_by_refl step_get by simp
next
  case (step_write gap e batch q results e')
  let ?e = "e\<lparr>e_queue := q\<rparr>"
  obtain e1 where wb: "write_batch zcrc batch ?e = (results, e1)" "e' = engine_wal_flush e1"
    using step_write(4,5) by (auto simp: writer_apply_def split: if_splits prod.splits)
  have pre: "engine_inv hasher ?e" "wal_ok ?e" using assms(2,3) step_write(1) by (simp_all add: engine_queue_frame)
  have "engine_inv hasher e1 \<and> wal_ok e1"
    using write_batch_correct [OF pre _ _ wb(1)] assms(6,7) step_write(1,2) by simp
  then have "engine_layers e' = engine_layers e1" using engine_wal_flush_inv [of hasher e1] wb(2) by simp
  moreover have "engine_layers ?e = engine_layers e" by (rule engine_layers_cong) simp_all
  moreover have "grows_by batch (stored ?e) (stored e1)" using write_batch_stored [of batch ?e zcrc] assms(6) step_write(2) wb(1) by simp
  ultimately show ?thesis using stored_layers [of e' e1] stored_layers [of ?e e] step_write(1-3) by simp
next
  case (step_answer e e' results)
  then show ?thesis using checkFlush_correct [OF assms(2,3), of False e'] grows_by_refl by simp
next
  case (step_flush_call e e' p)
  then show ?thesis using checkFlush_correct [OF assms(2,3), of True e'] grows_by_refl by (simp add: engine_flush_def)
next
  case (step_flush e e' p)
  show ?thesis
  proof (cases "e_imm e")
    case None
    then show ?thesis using step_flush grows_by_refl by (simp add: flush_turn_def)
  next
    case (Some t)
    then have "small_run (mt_snapshot t)" using assms(8) step_flush(1) by simp
    then obtain e2 where "flush_turn hasher e = Inr e2" "stored e2 = stored e"
      using flush_turn_correct [of hasher e t] Some assms(2,3,9) step_flush(1) by (metis fst_conv)
    then show ?thesis using step_flush grows_by_refl by simp
  qed
qed (use assms(5) in simp)

section \<open>A turn of the compaction thread\<close>

abbreviation same_memory :: "engine \<Rightarrow> engine \<Rightarrow> bool" where
  "same_memory e e' \<equiv> e_mem e' = e_mem e \<and> e_imm e' = e_imm e \<and> e_seq e' = e_seq e \<and> e_queue e' = e_queue e
     \<and> e_flush_pending e' = e_flush_pending e \<and> same_modes e e'"

lemma finish_compaction_memory: "finish_compaction hasher pre l ids es e = Inr e' \<Longrightarrow> same_memory e e'"
  by (auto simp: finish_compaction_def Let_def sum_bind_Inr_conv clear_cache_def split: if_splits prod.splits)

lemma compactL0_memory: "compactL0toL1 hasher e = Inr e' \<Longrightarrow> same_memory e e'"
  by (auto simp: compactL0toL1_def with_version_def Let_def sum_bind_Inr_conv split: option.splits if_splits prod.splits
      dest: finish_compaction_memory)

lemma compactlevelN_memory: "compactlevelN hasher l e = Inr e' \<Longrightarrow> same_memory e e'"
  by (auto simp: compactlevelN_def with_version_def Let_def sum_bind_Inr_conv split: option.splits if_splits prod.splits
      dest: finish_compaction_memory)

lemma maybeCompact_memory: "maybeCompact_from hasher ls e = Inr e' \<Longrightarrow> same_memory e e'"
proof (induction ls arbitrary: e)
  case (Cons l ls)
  then obtain e1 where e1: "(if shouldCompact l (getCurrentVersion (e_vm e))
       then (if l = 0 then compactL0toL1 hasher e else compactlevelN hasher l e) else Inr e) = Inr e1"
    "maybeCompact_from hasher ls e1 = Inr e'"
    by (auto simp: sum_bind_Inr_conv)
  then have "same_memory e e1" using compactL0_memory [of hasher e e1] compactlevelN_memory [of hasher l e e1] by (auto split: if_splits)
  with Cons.IH [OF e1(2)] show ?case by simp
qed simp

definition only_puts :: "engine \<Rightarrow> bool" where
  "only_puts e \<longleftrightarrow> (\<forall>x\<in>#stored e. ent_type (snd x) = Et_PUT)"

text \<open>Without tombstones no compaction can bring anything back.\<close>

lemma only_puts_settled:
  assumes "engine_inv hasher e" "only_puts e"
  shows "settled e"
  unfolding settled_def
proof (intro allI impI)
  fix i j a b k x
  assume a: "a \<in> set (elev e i)" "map_of (erun e a) k = Some x" and x: "ent_type x \<noteq> Et_PUT"
  have "a \<in> all_metas e" by (rule level_in_concat [OF a(1)])
  then have "(k, x) \<in># stored e" using stored_parts(2) [OF assms(1)] map_of_SomeD [OF a(2)] by blast
  then show "k \<notin> fst ` set (erun e b)" using assms(2) x by (auto simp: only_puts_def)
qed

definition bytes_of :: "string \<times> entry \<Rightarrow> nat" where
  "bytes_of = (\<lambda>(k, x). length (sst_record k x))"

text \<open>The versions fit into one table.\<close>

definition versions_fit :: "(string \<times> entry) multiset \<Rightarrow> bool" where
  "versions_fit S \<longleftrightarrow> (\<Sum>x\<in>#S. bytes_of x) < 2 ^ 64 \<and> 14 * size S < 2 ^ 32"

lemma size_sum: "size S = (\<Sum>x\<in>#S. 1 :: nat)"
  by simp

lemma fit_tables_small:
  assumes "engine_inv hasher e" "versions_fit (stored e)"
  shows "tables_small e"
  using assms(2) stored_parts(1) [OF assms(1), of bytes_of] stored_parts(1) [OF assms(1), of "\<lambda>_. 1"]
  unfolding versions_fit_def tables_small_def size_sum bytes_of_def by linarith

lemma compaction_turn_stored:
  assumes "engine_inv hasher e" "wal_ok e" "only_puts e" "versions_fit (stored e)" "unat (e_flush_counter e) + 3 < 2 ^ 64"
  obtains e' where "compaction_turn hasher e = Inr e'" "engine_inv hasher e'" "wal_ok e'" "engine_map e' = engine_map e"
    "same_memory e e'" "unat (e_flush_counter e') \<le> unat (e_flush_counter e) + 3" "only_puts e'"
    "(\<Sum>x\<in>#stored e'. bytes_of x) \<le> (\<Sum>x\<in>#stored e. bytes_of x)" "size (stored e') \<le> size (stored e)"
proof (cases "\<not> e_shutdown e \<and> e_compaction_needed e \<and> \<not> e_compaction_paused e")
  case False
  then have "compaction_turn hasher e = Inr e" by (auto simp: compaction_turn_def)
  then show ?thesis using that assms(1-3) by simp
next
  case True
  let ?e = "e\<lparr>e_compaction_needed := False, e_compaction_in_progress := True\<rparr>"
  have "compactable hasher e"
    using assms(1,2) only_puts_settled [OF assms(1,3)] fit_tables_small [OF assms(1,4)] by (simp add: compactable_def)
  then have c: "compactable hasher ?e" "engine_map ?e = engine_map e" by (rule compactable_cong; simp)+
  obtain e1 where e1: "maybeCompact_from hasher [0, 1, 2] ?e = Inr e1" "compactable hasher e1" "engine_map e1 = engine_map ?e"
    "unat (e_flush_counter e1) \<le> unat (e_flush_counter e) + 3" "shrinks ?e e1"
    using maybeCompact_from_step [OF c(1), of "[0, 1, 2]"] assms(5) by auto
  define e' where "e' = e1\<lparr>e_compaction_in_progress := False\<rparr>"
  have e': "compactable hasher e'" "engine_map e' = engine_map e1" unfolding e'_def by (rule compactable_cong [OF e1(2)]; simp)+
  have inv: "engine_inv hasher e'" using e'(1) by (simp add: compactable_def)
  have mem: "same_memory e e'" using maybeCompact_memory [OF e1(1)] by (simp add: e'_def)
  have v: "engine_version e' = engine_version e1" "e_fs e' = e_fs e1" by (simp_all add: e'_def engine_version_def)
  have v0: "engine_version ?e = engine_version e" by (simp add: engine_version_def)
  have shr: "shrinks e e'" using e1(5) unfolding shrinks_def weight_def v v0 by simp
  have le: "(\<Sum>x\<in>#stored e'. g x) \<le> (\<Sum>x\<in>#stored e. g x)" for g :: "string \<times> entry \<Rightarrow> nat"
    unfolding stored_parts(1) [OF assms(1)] stored_parts(1) [OF inv] using mem shr by (simp add: shrinks_def)
  have "x \<in># stored e" if "x \<in># stored e'" for x
    using that mem shr unfolding stored_parts(2) [OF assms(1)] stored_parts(2) [OF inv] shrinks_def by metis
  then have "only_puts e'" using assms(3) unfolding only_puts_def by blast
  moreover have "compaction_turn hasher e = Inr e'"
    using True e1(1) by (simp add: compaction_turn_def maybeCompactBackground_def e'_def)
  moreover have "wal_ok e'" using e'(1) by (simp add: compactable_def)
  moreover have "unat (e_flush_counter e') \<le> unat (e_flush_counter e) + 3" using e1(4) by (simp add: e'_def)
  ultimately show ?thesis using that inv mem e'(2) e1(3) c(2) le [of bytes_of] le [of "\<lambda>_. 1"] by simp
qed

section \<open>Runs\<close>

definition compacting_start :: "(string \<Rightarrow> uint64) \<Rightarrow> write_request list \<Rightarrow> engine \<Rightarrow> bool" where
  "compacting_start hasher base e \<longleftrightarrow> engine_inv hasher e \<and> wal_ok e \<and> \<not> e_shutdown e
     \<and> e_imm e = None \<and> built_by base (e_mem e) \<and> only_puts e"

definition compacting_fits :: "write_request list \<Rightarrow> engine \<Rightarrow> engine_act list \<Rightarrow> bool" where
  "compacting_fits base e acts \<longleftrightarrow> run_fits base e acts \<and> unat (e_flush_counter e) + 3 * length acts < 2 ^ 64
     \<and> (\<forall>r\<in>set (requests_in e acts). wr_op r = Op_PUT)
     \<and> (\<Sum>x\<in>#stored e. bytes_of x) + sum_list (map request_cost (requests_in e acts)) < 2 ^ 64
     \<and> 14 * (size (stored e) + length (requests_in e acts)) < 2 ^ 32"

definition compacting_inv :: "(string \<Rightarrow> uint64) \<Rightarrow> write_request list \<Rightarrow> engine \<Rightarrow> engine_act list \<Rightarrow> run_state \<Rightarrow> bool" where
  "compacting_inv hasher base e0 acts s \<longleftrightarrow> run_inv hasher base e0 (3 * length acts) acts s \<and> only_puts (fst s)
     \<and> (\<Sum>x\<in>#stored (fst s). bytes_of x) \<le> (\<Sum>x\<in>#stored e0. bytes_of x) + sum_list (map request_cost (written_in acts))
     \<and> size (stored (fst s)) \<le> size (stored e0) + length (written_in acts)"

lemma grows_by_puts:
  assumes "grows_by rs S S'" "\<forall>r\<in>set rs. wr_op r = Op_PUT"
  shows "\<forall>x\<in>#S. ent_type (snd x) = Et_PUT \<Longrightarrow> \<forall>x\<in>#S'. ent_type (snd x) = Et_PUT"
    "(\<Sum>x\<in>#S'. bytes_of x) \<le> (\<Sum>x\<in>#S. bytes_of x) + sum_list (map request_cost rs)"
    "size S' \<le> size S + length rs"
proof -
  let ?f = "\<lambda>(r, n). (wr_key r, request_entry r n)"
  obtain ns where ns: "length ns = length rs" "S' \<subseteq># S + mset (map ?f (zip rs ns))"
    using assms(1) unfolding grows_by_def by blast
  have "ent_type (snd (?f p)) = Et_PUT" if "p \<in> set (zip rs ns)" for p
    using that assms(2) set_zip_leftD [of "fst p" "snd p" rs ns] by (simp add: split_def request_entry_def)
  then show "\<forall>x\<in>#S'. ent_type (snd x) = Et_PUT" if "\<forall>x\<in>#S. ent_type (snd x) = Et_PUT"
    using that mset_subset_eqD [OF ns(2)] by fastforce
  have new: "sum_list (map bytes_of (map ?f (zip rs ns))) = sum_list (map request_cost rs)"
    using ns(1) by (induction rs ns rule: list_induct2') (simp_all add: bytes_of_def sst_record_cost)
  obtain R where "S + mset (map ?f (zip rs ns)) = S' + R" using ns(2) by (auto simp: mset_subset_eq_exists_conv)
  then have "(\<Sum>x\<in>#S'. bytes_of x) \<le> (\<Sum>x\<in>#S + mset (map ?f (zip rs ns)). bytes_of x)" by simp
  then show "(\<Sum>x\<in>#S'. bytes_of x) \<le> (\<Sum>x\<in>#S. bytes_of x) + sum_list (map request_cost rs)"
    unfolding image_mset_union sum_mset.union sum_mset_map new by simp
  show "size S' \<le> size S + length rs" using size_mset_mono [OF ns(2)] ns(1) by simp
qed

lemma step_ends: "engine_step hasher zcrc s Compacted s' \<Longrightarrow>
    \<exists>e'. compaction_turn hasher (fst s) = Inr e' \<and> s' = (e', snd s)"
  by (cases rule: engine_step.cases) auto

lemma compacting_inv_step:
  assumes "compacting_inv hasher base e0 acts s" "engine_step hasher zcrc s act s'" "compacting_fits base e0 (acts @ [act])"
  shows "compacting_inv hasher base e0 (acts @ [act]) s'"
proof -
  let ?ws = "written_in acts" and ?n = "3 * length acts"
  have ri: "run_inv hasher base e0 ?n acts s" and puts: "only_puts (fst s)"
    and S: "(\<Sum>x\<in>#stored (fst s). bytes_of x) \<le> (\<Sum>x\<in>#stored e0. bytes_of x) + sum_list (map request_cost ?ws)"
      "size (stored (fst s)) \<le> size (stored e0) + length ?ws"
    using assms(1) by (simp_all add: compacting_inv_def)
  have fits: "run_fits base e0 (acts @ [act])" "unat (e_flush_counter e0) + ?n + 3 < 2 ^ 64"
    using assms(3) by (simp_all add: compacting_fits_def)
  have aw: "after_writes hasher base e0 ?ws ?n (fst s)" and q: "?ws @ wq_queue (e_queue (fst s)) = requests_in e0 acts"
    using ri by (simp_all add: run_inv_def)
  note loose = writes_loose [OF aw] and w = run_fits_written [OF run_fits_prefix [OF fits(1)] q]
  have fc: "unat (e_flush_counter (fst s)) + 3 < 2 ^ 64" using aw fits(2) by (simp add: after_writes_def)
  show ?thesis
  proof (cases "act = Compacted")
    case True
    have "requests_in e0 (acts @ [act]) = ?ws @ wq_queue (e_queue (fst s))" using q True by simp
    then have "versions_fit (stored (fst s))" using S assms(3) by (simp add: compacting_fits_def versions_fit_def)
    then obtain e' where e': "compaction_turn hasher (fst s) = Inr e'" "engine_inv hasher e'" "wal_ok e'" "engine_map e' = engine_map (fst s)"
      "same_memory (fst s) e'" "unat (e_flush_counter e') \<le> unat (e_flush_counter (fst s)) + 3" "only_puts e'"
      "(\<Sum>x\<in>#stored e'. bytes_of x) \<le> (\<Sum>x\<in>#stored (fst s). bytes_of x)" "size (stored e') \<le> size (stored (fst s))"
      using compaction_turn_stored [OF loose(1,2) puts _ fc] by blast
    have s': "s' = (e', snd s)" using step_ends assms(2) e'(1) True by fastforce
    have "after_writes hasher base e0 ?ws (?n + 3) e'"
      using aw e'(2-6) by (simp add: after_writes_def)
    then have "run_inv hasher base e0 (?n + 3) (acts @ [act]) s'"
      using ri e'(5) True by (simp add: run_inv_def s' reads_of_map_snoc)
    then show ?thesis using e'(7-9) S True by (simp add: compacting_inv_def s' add.commute)
  next
    case False
    have "run_inv hasher base e0 (Suc ?n) (acts @ [act]) s'"
      by (rule run_inv_step [OF ri assms(2) fits(1)]) (use fits(2) False in simp_all)
    then have ri': "run_inv hasher base e0 (3 * length (acts @ [act])) (acts @ [act]) s'"
      using after_writes_more [of hasher base e0 _ "Suc ?n"] by (simp add: run_inv_def)
    then have all: "(?ws @ written_act act) @ wq_queue (e_queue (fst s')) = requests_in e0 (acts @ [act])"
      by (simp add: run_inv_def)
    note w' = run_fits_written [OF fits(1) all]
    have "\<forall>r\<in>set (requests_in e0 (acts @ [act])). wr_op r = Op_PUT"
      using assms(3) unfolding compacting_fits_def by blast
    then have put: "\<forall>r\<in>set (written_act act). wr_op r = Op_PUT" unfolding all [symmetric] by simp
    have "grows_by (written_act act) (stored (fst s)) (stored (fst s'))"
    proof (rule step_stored [OF assms(2) loose(1-3) False])
      show "\<forall>r\<in>set (written_act act). request_ok r" using w'(2) by (simp add: list_all_iff)
      show "unat (e_seq (fst s)) + length (written_act act) < 2 ^ 64" using w'(3) loose(4) by simp
      show "small_run (mt_snapshot t)" if "e_imm (fst s) = Some t" for t
        using built_small [OF _ w(1)] after_writes_mem(2) [OF aw that, of "[]"] by simp
    qed (use fc in simp)
    note g = grows_by_puts [OF this put]
    show ?thesis using ri' g puts S by (simp add: compacting_inv_def only_puts_def)
  qed
qed

lemma compacting_fits_prefix: "compacting_fits base e (acts @ [act]) \<Longrightarrow> compacting_fits base e acts"
  using run_fits_prefix by (auto simp: compacting_fits_def)

lemma compacting_inv_run:
  assumes "engine_run hasher zcrc s acts s'" "compacting_start hasher base e" "s = (e, None)" "compacting_fits base e acts"
  shows "compacting_inv hasher base e acts s'"
  using assms
proof (induction rule: engine_run.induct)
  case (run_step s acts s' act s'')
  then show ?case using compacting_inv_step compacting_fits_prefix by blast
qed (simp add: compacting_inv_def run_inv_def after_writes_def compacting_start_def requests_in_def)

text \<open>Where a run has come to, the next turn of the compaction thread returns.\<close>

lemma compacting_run_goes_on:
  assumes "compacting_start hasher base e0" "engine_run hasher zcrc (e0, None) acts (e, p)" "compacting_fits base e0 acts"
    and "unat (e_flush_counter e0) + 3 * length acts + 3 < 2 ^ 64"
  shows "\<exists>e'. compaction_turn hasher e = Inr e' \<and> engine_map e' = engine_map e"
proof -
  have ci: "compacting_inv hasher base e0 acts (e, p)" by (rule compacting_inv_run [OF assms(2,1) refl assms(3)])
  then have e: "engine_inv hasher e" "wal_ok e" "unat (e_flush_counter e) + 3 < 2 ^ 64"
    and all: "written_in acts @ wq_queue (e_queue e) = requests_in e0 acts"
    using assms(4) by (simp_all add: compacting_inv_def run_inv_def after_writes_def)
  have "versions_fit (stored e)"
    using ci assms(3) all [symmetric] by (simp add: compacting_inv_def compacting_fits_def versions_fit_def)
  then show ?thesis
    using compaction_turn_stored [OF e(1,2) _ _ e(3)] ci by (metis compacting_inv_def fst_conv)
qed

section \<open>Properties\<close>

text \<open>
  C3: compaction does not show.  Start with an engine that holds puts only, let clients push puts,
  read and ask for flushes, and let the writer, the flush thread and the compaction thread take
  their turns in any order.  Then the run is one of a map as it is without compaction: the
  invariant holds, the keys and values are the written requests applied one by one, every read
  returned what the writes before it had left, the answers say success in order, and no turn
  of the compaction thread can fail.
\<close>

theorem compacting_run_refines_map:
  assumes "compacting_start hasher base e0" "engine_run hasher zcrc (e0, None) acts (e, p)" "compacting_fits base e0 acts"
    and "unat (e_flush_counter e0) + 3 * length acts + 3 < 2 ^ 64"
  shows "engine_inv hasher e
     \<and> written_in acts @ wq_queue (e_queue e) = requests_in e0 acts
     \<and> engine_map e = fold apply_request (written_in acts) (engine_map e0)
     \<and> reads_of_map (engine_map e0) acts
     \<and> answered_in acts @ to_answer p = map (\<lambda>r. (wr_completion r, True)) (written_in acts)
     \<and> (\<exists>e'. compaction_turn hasher e = Inr e' \<and> engine_map e' = engine_map e)"
proof -
  have "run_inv hasher base e0 (3 * length acts) acts (e, p)"
    using compacting_inv_run [OF assms(2,1) refl assms(3)] by (simp add: compacting_inv_def)
  then show ?thesis using compacting_run_goes_on [OF assms] by (simp add: run_inv_def after_writes_def)
qed

text \<open>A put on level 0, an older one on level 2, and a compaction due.\<close>

lemma compacting_sample:
  obtains e where "compacting_start (\<lambda>s. 0) [] e" "engine_map e = [''k'' \<mapsto> ''v'', ''j'' \<mapsto> ''w'']"
    "e_compaction_needed e" "\<not> e_compaction_paused e" "compacting_fits [] e [Compacted]"
    "unat (e_flush_counter e) = 2"
proof -
  have ord: "older_than [run_j] [run_k]" "runs_agree [run_j, run_k]" "\<forall>x\<in>set run_k \<union> set run_j. ent_seq (snd x) < 4"
    by (auto simp: sample_runs older_than_def runs_agree_def)
  obtain e0 m1 m2 where e0: "engine_inv (\<lambda>s. 0) e0" "wal_ok e0" "e_mem e0 = mt_new" "e_imm e0 = None" "e_flush_counter e0 = 2"
    "tv_levels (engine_version e0) = [[m2], [], [m1]]" "erun e0 m1 = run_k" "erun e0 m2 = run_j"
    "\<not> e_shutdown e0" "\<not> e_compaction_paused e0" "wq_queue (e_queue e0) = []" "e_seq e0 = 4"
    using two_level_engine [OF sample_runs_ok(1,2) ord] by metis
  define e where "e = e0\<lparr>e_compaction_needed := True\<rparr>"
  have layers: "engine_layers e0 = [[[]], [[]], [run_j], [], [run_k]]"
    by (simp add: engine_inv_version(4) [OF e0(1)] table_layers_def e0(3,4,6-8) mem_run_def mt_snapshot_def mt_new_def)
  have "engine_layers e = engine_layers e0" unfolding e_def by (rule engine_layers_cong) simp_all
  then have sto: "stored e = mset (run_j @ run_k)" by (simp add: stored_def all_runs_def layers)
  have st: "engine_inv (\<lambda>s. 0) e \<and> engine_layers e = engine_layers e0"
    by (rule engine_inv_frame [OF e0(1)]) (use e0(1) in \<open>simp_all add: e_def same_tables_def engine_inv_def\<close>)
  moreover have "wal_ok e" by (rule wal_ok_cong [OF e0(2)]) (simp_all add: e_def)
  moreover have "only_puts e" by (simp add: only_puts_def sto sample_runs)
  ultimately have "compacting_start (\<lambda>s. 0) [] e"
    using e0(3,4,9) by (simp add: compacting_start_def e_def built_by_def mt_snapshot_def mt_new_def)
  moreover have "engine_map e = [''k'' \<mapsto> ''v'', ''j'' \<mapsto> ''w'']"
    by (auto simp: engine_map_def engine_view_def st layers sample_runs fun_eq_iff)
  moreover have "compacting_fits [] e [Compacted]"
    by (simp add: compacting_fits_def run_fits_def requests_in_def affordable_def sto sample_runs bytes_of_def sst_record_def)
      (simp add: e_def e0(5,11,12))
  ultimately show ?thesis using that [of e] e0(5,10) by (simp add: e_def)
qed

theorem compacting_run_refines_map_witness:
  "\<exists>e0 e. engine_run (\<lambda>s. 0) (\<lambda>c b. c) (e0, None) [Compacted] (e, None)
     \<and> engine_map e = [''k'' \<mapsto> ''v'', ''j'' \<mapsto> ''w'']"
proof -
  obtain e0 where e0: "compacting_start (\<lambda>s. 0) [] e0" "engine_map e0 = [''k'' \<mapsto> ''v'', ''j'' \<mapsto> ''w'']"
    "e_compaction_needed e0" "\<not> e_compaction_paused e0" "compacting_fits [] e0 [Compacted]" "unat (e_flush_counter e0) = 2"
    by (rule compacting_sample)
  have "compacting_fits [] e0 []" using compacting_fits_prefix [of "[]" e0 "[]"] e0(5) by simp
  from compacting_run_refines_map [OF e0(1) run_nil this] obtain e where e: "compaction_turn (\<lambda>s. 0) e0 = Inr e"
    using e0(6) by auto
  have "compaction_ready e0" using e0(3,4) by (simp add: compaction_ready_def)
  from run_step [OF run_nil step_compact [OF this e]]
  have run: "engine_run (\<lambda>s. 0) (\<lambda>c b. c) (e0, None) [Compacted] (e, None)" by simp
  have "engine_map e = engine_map e0" using compacting_run_refines_map [OF e0(1) run e0(5)] e0(6) by simp
  with run e0(2) show ?thesis by auto
qed


text \<open>
  C4: no step goes wrong.  With \<open>engine_inv\<close> as the type of the states, progress and preservation hold
  along every run with puts: whatever step comes next, its result has the type again; a read of
  any key returns; the flush thread and the compaction thread never throw when they are woken up;
  the writer can take what is queued, and can answer a batch once no memtable is waiting.
\<close>

theorem engine_steps_never_fail:
  assumes "compacting_start hasher base e0" "engine_run hasher zcrc (e0, None) acts (e, p)" "compacting_fits base e0 acts"
    and "unat (e_flush_counter e0) + 3 * length acts + 3 < 2 ^ 64"
  shows "(\<forall>act s'. engine_step hasher zcrc (e, p) act s' \<and> compacting_fits base e0 (acts @ [act]) \<longrightarrow>
       engine_inv hasher (fst s') \<and> wal_ok (fst s'))
     \<and> (\<forall>key. \<exists>x e'. engine_step hasher zcrc (e, p) (Got key x) (e', p))
     \<and> (flush_ready e \<longrightarrow> (\<exists>e'. engine_step hasher zcrc (e, p) Flushed (e', p)))
     \<and> (compaction_ready e \<longrightarrow> (\<exists>e'. engine_step hasher zcrc (e, p) Compacted (e', p)))
     \<and> (case p of
          None \<Rightarrow> wq_queue (e_queue e) \<noteq> [] \<longrightarrow> (\<exists>batch results e'. engine_step hasher zcrc (e, p) (Wrote batch []) (e', Some results))
        | Some results \<Rightarrow> e_imm e = None \<longrightarrow> (\<exists>e'. engine_step hasher zcrc (e, p) (Answered results) (e', None)))"
    (is "?preserved \<and> ?read \<and> ?flush \<and> ?compact \<and> ?writer")
proof -
  have ci: "compacting_inv hasher base e0 acts (e, p)" by (rule compacting_inv_run [OF assms(2,1) refl assms(3)])
  then have aw: "after_writes hasher base e0 (written_in acts) (3 * length acts) e"
    and q: "written_in acts @ wq_queue (e_queue e) = requests_in e0 acts"
    by (simp_all add: compacting_inv_def run_inv_def)
  note loose = writes_loose [OF aw]
  have fits: "run_fits base e0 acts" using assms(3) by (simp add: compacting_fits_def)
  have ?preserved
    using compacting_inv_step [OF ci] by (auto simp: compacting_inv_def run_inv_def after_writes_def)
  moreover have ?read
    using engine_get_correct [OF loose(1)] step_get by metis
  moreover have ?flush
    using after_writes_flush [OF aw run_fits_written(1) [OF fits q]] assms(4) step_flush by fastforce
  moreover have ?compact
    using compacting_run_goes_on [OF assms] step_compact by blast
  moreover have ?writer
  proof (cases p)
    case None
    then show ?thesis using writer_enabled [of e hasher zcrc] by (simp only: option.case) blast
  next
    case (Some results)
    then show ?thesis using checkFlush_total [of e] step_answer by (simp only: option.case) blast
  qed
  ultimately show ?thesis by blast
qed

theorem engine_steps_never_fail_witness:
  "\<exists>e0 e e1 x. engine_run (\<lambda>s. 0) (\<lambda>c b. c) (e0, None) [] (e0, None)
     \<and> engine_step (\<lambda>s. 0) (\<lambda>c b. c) (e0, None) Compacted (e, None) \<and> engine_inv (\<lambda>s. 0) e
     \<and> engine_step (\<lambda>s. 0) (\<lambda>c b. c) (e0, None) (Got ''k'' x) (e1, None)"
proof -
  obtain e0 where e0: "compacting_start (\<lambda>s. 0) [] e0" "engine_map e0 = [''k'' \<mapsto> ''v'', ''j'' \<mapsto> ''w'']"
    "e_compaction_needed e0" "\<not> e_compaction_paused e0" "compacting_fits [] e0 [Compacted]" "unat (e_flush_counter e0) = 2"
    by (rule compacting_sample)
  have fits: "compacting_fits [] e0 []" using compacting_fits_prefix [of "[]" e0 "[]"] e0(5) by simp
  have "compaction_ready e0" using e0(3,4) by (simp add: compaction_ready_def)
  with engine_steps_never_fail [OF e0(1) run_nil fits, of "\<lambda>c b. c"] e0(5,6) obtain e e1 x where
    s: "engine_step (\<lambda>s. 0) (\<lambda>c b. c) (e0, None) Compacted (e, None)" "engine_step (\<lambda>s. 0) (\<lambda>c b. c) (e0, None) (Got ''k'' x) (e1, None)"
    and "engine_inv (\<lambda>s. 0) e"
    by fastforce
  with run_nil [of "\<lambda>s. 0" "\<lambda>c b. c" "(e0, None)"] show ?thesis by blast
qed

end
