(* ===== verification/Engine_Close.thy ===== *)
theory Engine_Close
  imports Engine_Runs
begin

text \<open>
  The destructor of the engine: the queue is closed, the writer works it off batch by batch, the
  flush thread writes what was handed to it, and the log is synchronised and closed.
\<close>

section \<open>Working off the queue\<close>

lemma drain_correct:
  assumes "after_writes hasher base e0 ws n e" "\<forall>r\<in>set (concat batches). request_ok r"
    and "unat (e_seq e0) + length (ws @ concat batches) < 2 ^ 64" "affordable (base @ ws @ concat batches)"
    and "unat (e_flush_counter e0) + n + length batches < 2 ^ 64"
  shows "\<exists>e'. drain_batches hasher zcrc batches e = Inr (map (\<lambda>r. (wr_completion r, True)) (concat batches), e')
     \<and> after_writes hasher base e0 (ws @ concat batches) (n + length batches) e'"
  using assms
proof (induction batches arbitrary: ws n e)
  case (Cons batch batches)
  obtain results e1 where wb: "write_batch zcrc batch e = (results, e1)" by fastforce
  define e2 where "e2 = engine_wal_flush e1"
  have ok: "\<forall>r\<in>set batch. request_ok r" "unat (e_seq e0) + length (ws @ batch) < 2 ^ 64" "affordable (base @ (ws @ batch))"
    "unat (e_flush_counter e0) + Suc n < 2 ^ 64"
    using Cons.prems(2-5) by (simp_all add: affordable_def)
  note w = after_writes_write [OF Cons.prems(1) ok(1,2) wb, folded e2_def]
  have "\<exists>e5. (case checkFlush False e2 of Some e3 \<Rightarrow> Inr e3
      | None \<Rightarrow> sum_bind (flush_turn hasher e2) (\<lambda>e3. case checkFlush False e3 of Some e4 \<Rightarrow> Inr e4 | None \<Rightarrow> Inl UndefinedBehaviour))
        = Inr e5 \<and> after_writes hasher base e0 (ws @ batch) (Suc n) e5"
  proof (cases "checkFlush False e2")
    case (Some e3)
    then show ?thesis using after_writes_checkFlush [of hasher base e0 "ws @ batch" n e2 False e3] w
        after_writes_more [of hasher base e0 "ws @ batch" n e3 "Suc n"] by simp
  next
    case None
    obtain e3 where e3: "flush_turn hasher e2 = Inr e3" "after_writes hasher base e0 (ws @ batch) (Suc n) e3" "e_imm e3 = None"
      using after_writes_flush [of hasher base e0 "ws @ batch" n e2] w ok(3,4) by auto
    obtain e4 where e4: "checkFlush False e3 = Some e4" using checkFlush_total [of e3] e3(3) by blast
    with None e3 show ?thesis using after_writes_checkFlush [OF e3(2) e4] by simp
  qed
  then obtain e5 where e5: "(case checkFlush False e2 of Some e3 \<Rightarrow> Inr e3
      | None \<Rightarrow> sum_bind (flush_turn hasher e2) (\<lambda>e3. case checkFlush False e3 of Some e4 \<Rightarrow> Inr e4 | None \<Rightarrow> Inl UndefinedBehaviour))
        = Inr e5" "after_writes hasher base e0 (ws @ batch) (Suc n) e5" by blast
  obtain e' where e': "drain_batches hasher zcrc batches e5 = Inr (map (\<lambda>r. (wr_completion r, True)) (concat batches), e')"
    "after_writes hasher base e0 ((ws @ batch) @ concat batches) (Suc n + length batches) e'"
    using Cons.IH [OF e5(2)] Cons.prems(2-5) by auto
  have "drain_batches hasher zcrc (batch # batches) e = Inr (results @ map (\<lambda>r. (wr_completion r, True)) (concat batches), e')"
    using e5(1) e'(1) unfolding e2_def by (simp add: wb Let_def)
  then show ?case using w e'(2) by simp
qed simp

section \<open>Closing the log\<close>

text \<open>Closing writes at most the buffer of the log, so a reader sees the same tables.\<close>

lemma wal_close_layers:
  assumes "engine_inv hasher e" "wal_ok e" "wal_close full_write (e_wal e, e_fs e) = (w, fs)"
  shows "engine_layers (e\<lparr>e_wal := w, e_fs := fs\<rparr>) = engine_layers e" "engine_inv hasher (e\<lparr>e_wal := w, e_fs := fs\<rparr>)"
    "wal_fd w = None" "write_buffer w = []"
proof -
  obtain fd where fd: "wal_fd (e_wal e) = Some fd" using assms(2) by (auto simp: wal_ok_def)
  let ?w = "(e_wal e)\<lparr>wal_shutdown := True, sync_requested := True\<rparr>"
  have i: "wal_inv ?w" "wal_fd ?w = Some fd" "write_buffer ?w = write_buffer (e_wal e)"
    using assms(2) fd by (simp_all add: wal_ok_def wal_inv_def)
  have fs: "fs = (if write_buffer (e_wal e) = [] then e_fs e else fs_append_fd fd (write_buffer (e_wal e)) (e_fs e))"
    and w: "wal_fd w = None" "write_buffer w = []"
    using assms(3) by (auto simp: wal_close_def doSync_full [OF i(1,2)])
  show "wal_fd w = None" "write_buffer w = []" by (fact w)+
  have "fs_names (e_fs e) (sst_name (engine_dir e) j) \<noteq> Some fd" for j
    using assms(2) fd sst_name_not_log by (auto simp: wal_ok_def)
  then have same: "same_tables (engine_dir e) (e_fs e) fs" by (simp add: same_tables_def fs fs_append_other)
  have "fs_inv fs" using assms(1) by (simp add: fs engine_inv_def)
  from engine_inv_frame [OF assms(1), of "e\<lparr>e_wal := w, e_fs := fs\<rparr>"] same this
  show "engine_layers (e\<lparr>e_wal := w, e_fs := fs\<rparr>) = engine_layers e" "engine_inv hasher (e\<lparr>e_wal := w, e_fs := fs\<rparr>)"
    by simp_all
qed

section \<open>Property\<close>

text \<open>A memtable accounted for by \<open>base\<close> and nothing waiting that the flush thread does not know of.\<close>

definition close_start :: "(string \<Rightarrow> uint64) \<Rightarrow> write_request list \<Rightarrow> engine \<Rightarrow> bool" where
  "close_start hasher base e \<longleftrightarrow> engine_inv hasher e \<and> wal_ok e \<and> \<not> e_shutdown e \<and> built_by base (e_mem e)
     \<and> (\<forall>t. e_imm e = Some t \<longrightarrow> built_by base t \<and> e_flush_pending e)"

lemma run_start_close: "run_start hasher base e \<Longrightarrow> close_start hasher base e"
  by (simp add: run_start_def close_start_def)

text \<open>Flags of the threads do not matter for what the engine holds.\<close>

lemma engine_flags_frame:
  assumes "engine_inv hasher e" "wal_ok e"
    and "e_mem e' = e_mem e" "e_imm e' = e_imm e" "e_vm e' = e_vm e" "e_data_dir e' = e_data_dir e" "e_wal e' = e_wal e"
    and "e_flush_counter e' = e_flush_counter e" "e_seq e' = e_seq e" "e_cache e' = e_cache e" "e_fs e' = e_fs e"
  shows "engine_inv hasher e' \<and> wal_ok e' \<and> engine_map e' = engine_map e"
proof -
  have "engine_inv hasher e' \<and> engine_layers e' = engine_layers e"
    by (rule engine_inv_frame [OF assms(1)]) (use assms in \<open>simp_all add: same_tables_def engine_inv_def\<close>)
  moreover have "wal_ok e'" by (rule wal_ok_cong [OF assms(2,7,6,11)])
  ultimately show ?thesis using engine_map_layers by blast
qed

lemma batches_le: "\<forall>b\<in>set bs. b \<noteq> [] \<Longrightarrow> length bs \<le> length (concat bs)"
  by (induction bs) (auto simp: Suc_le_eq add_strict_increasing neq_Nil_conv)



end
