(* ===== verification/Engine_Lifetimes.thy ===== *)
theory Engine_Lifetimes
  imports Engine_Close Engine_Recovery
begin

text \<open>
  The life of a database over many processes: batches of the writer thread, crashes, orderly
  shutdowns by the destructor with requests still queued, and flushes.  After each crash,
  shutdown or flush a new engine is constructed on the files that are left.  As long as the
  memtable stays below its threshold between two flushes, and no write follows a flush in the
  same process, every acknowledged write is there after every restart.
\<close>

section \<open>What the requests since the last flush left in the memtable\<close>

definition request_size :: "write_request \<Rightarrow> nat" where
  "request_size r = 17 + length (wr_key r) + length (wr_value r)"

abbreviation requests_size :: "write_request list \<Rightarrow> nat" where
  "requests_size rs \<equiv> sum_list (map request_size rs)"

definition mem_of :: "write_request list \<Rightarrow> memtable \<Rightarrow> bool" where
  "mem_of rs t \<longleftrightarrow> built_by rs t \<and> mt_getSize t \<le> requests_size rs
     \<and> fst ` set (mt_snapshot t) \<subseteq> wr_key ` set rs \<and> (mt_snapshot t = [] \<longrightarrow> rs = [])"

lemma mem_of_new: "mem_of [] mt_new"
  by (simp add: mem_of_def built_by_def mt_snapshot_def mt_new_def mt_getSize_def)

lemma smap_put_keys: "fst ` set (smap_put k x m) \<subseteq> insert k (fst ` set m)"
  by (induction k x m rule: smap_put.induct) auto

lemma mem_of_write:
  assumes "mem_of rs (e_mem e)" "request_ok r"
  shows "mem_of (rs @ [r]) (e_mem (snd (write_one zcrc r e)))"
proof -
  let ?e1 = "snd (write_one zcrc r e)"
  have m: "e_mem ?e1 = \<lparr>mt_map = smap_put (wr_key r) (request_entry r (e_seq e)) (mt_map (e_mem e))\<rparr>"
    using write_one_eq [OF assms(2)] by (simp add: invalidate_cache_def)
  have "built_by (rs @ [r]) (e_mem ?e1)"
    using built_batch [of rs e "[r]" zcrc] assms by (simp add: mem_of_def split: prod.splits)
  moreover have "mt_getSize (e_mem ?e1) \<le> mt_getSize (e_mem e) + request_size r"
    using mem_size_write [OF assms(2), of zcrc e] by (simp add: request_size_def split: prod.splits)
  moreover have "fst ` set (mt_snapshot (e_mem ?e1)) \<subseteq> insert (wr_key r) (fst ` set (mt_snapshot (e_mem e)))"
    using smap_put_keys by (simp add: m mt_snapshot_def)
  moreover have "mt_snapshot (e_mem ?e1) \<noteq> []" by (simp add: m mt_snapshot_def smap_put_not_Nil)
  ultimately show ?thesis using assms(1) by (auto simp: mem_of_def)
qed

lemma mem_of_batch:
  assumes "mem_of rs (e_mem e)" "\<forall>r\<in>set batch. request_ok r"
  shows "mem_of (rs @ batch) (e_mem (snd (write_batch zcrc batch e)))"
  using assms
proof (induction batch arbitrary: rs e)
  case (Cons r batch)
  from Cons.IH [OF mem_of_write [OF Cons.prems(1), of r zcrc]] Cons.prems(2)
  show ?case by (simp split: prod.splits) (metis snd_conv)
qed simp

text \<open>Requests that stay below the threshold make a table that can be written.\<close>

lemma request_cost_le: "request_cost r \<le> request_size r"
  by (auto simp: request_cost_def request_size_def sst_record_def request_entry_def str32_def)

lemma affordable_below:
  assumes "requests_size rs < kMemTableThreshold"
  shows "affordable rs"
proof -
  have "17 * length rs \<le> requests_size rs" by (induction rs) (simp_all add: request_size_def)
  moreover have "sum_list (map request_cost rs) \<le> requests_size rs"
    by (rule sum_list_mono) (rule request_cost_le)
  ultimately show ?thesis using assms by (simp add: affordable_def kMemTableThreshold_def)
qed

definition word_request :: "write_request \<Rightarrow> bool" where
  "word_request r \<longleftrightarrow> request_ok r \<and> wordlike (wr_key r)"

lemma mem_of_word_range:
  assumes "mem_of rs t" "list_all word_request rs" "mt_snapshot t \<noteq> []"
  shows "word_range (mt_snapshot t)"
proof -
  have "wordlike (fst x)" if "x \<in> set (mt_snapshot t)" for x
    using that assms(1,2) unfolding mem_of_def list_all_iff word_request_def by (metis (no_types, lifting) image_iff subsetD)
  then show ?thesis using assms(3) by (simp add: word_range_def)
qed

section \<open>Engines at rest\<close>

text \<open>
  Between two calls: no memtable is waiting, the log file has its name and holds the records of
  the requests \<open>rs\<close> that the memtable holds, and all else that the engine holds is in files.
\<close>

definition at_rest :: "(string \<Rightarrow> uint64) \<Rightarrow> crc \<Rightarrow> write_request list \<Rightarrow> engine \<Rightarrow> bool" where
  "at_rest hasher zcrc rs e \<longleftrightarrow> engine_inv hasher e \<and> wal_ok e \<and> \<not> e_shutdown e \<and> write_buffer (e_wal e) = []
     \<and> mem_of rs (e_mem e)
     \<and> (\<exists>es sq. length es = length rs \<and> running zcrc es sq e \<and> durable zcrc es sq e)"

lemma at_rest_imm: "at_rest hasher zcrc rs e \<Longrightarrow> e_imm e = None"
  by (auto simp: at_rest_def running_def)

lemma at_rest_write:
  assumes "at_rest hasher zcrc rs e" "\<forall>r\<in>set batch. request_ok r" "unat (e_seq e) + length batch < 2 ^ 64"
    and "requests_size (rs @ batch) < kMemTableThreshold"
  defines "e' \<equiv> engine_wal_flush (snd (write_batch zcrc batch e))"
  shows "checkFlush False e' = Some e'" "at_rest hasher zcrc (rs @ batch) e'"
    "engine_map e' = fold apply_request batch (engine_map e)" "unat (e_seq e') = unat (e_seq e) + length batch"
    "e_flush_counter e' = e_flush_counter e"
    "fst (write_batch zcrc batch e) = map (\<lambda>r. (wr_completion r, True)) batch"
proof -
  obtain results e1 where w: "write_batch zcrc batch e = (results, e1)" by fastforce
  have pre: "engine_inv hasher e" "wal_ok e" "mem_of rs (e_mem e)" "\<not> e_shutdown e"
    using assms(1) by (simp_all add: at_rest_def)
  obtain es sq where run: "running zcrc es sq e" "length es = length rs" using assms(1) by (auto simp: at_rest_def)
  have b: "engine_inv hasher e1" "wal_ok e1" "engine_map e1 = fold apply_request batch (engine_map e)"
    "unat (e_seq e1) = unat (e_seq e) + length batch" "results = map (\<lambda>r. (wr_completion r, True)) batch"
    using write_batch_correct [OF pre(1,2) assms(2,3) w] by simp_all
  obtain es' where r: "running zcrc es' sq e1" "length es' = length (rs @ batch)"
    using write_batch_running [OF run(1) assms(2,3)] run(2) w by auto
  have fsi: "fs_inv (e_fs e1)" using b(1) by (simp add: engine_inv_def)
  have mem: "mem_of (rs @ batch) (e_mem e1)" using mem_of_batch [OF pre(3) assms(2), of zcrc] w by simp
  note fl = engine_wal_flush_inv [OF b(1,2)] running_flush [OF r(1) b(2) fsi]
  have "write_buffer (e_wal (engine_wal_flush e1)) = []"
    using wal_flush_log(2) [of zcrc es' e1] r(1) b(2) fsi by (simp add: running_def)
  moreover have "\<not> e_shutdown e1" "e_flush_counter e1 = e_flush_counter e" using write_batch_modes [where e = e and zcrc = zcrc and rs = batch] pre(4) w by simp_all
  ultimately show "at_rest hasher zcrc (rs @ batch) e'" "e_flush_counter e' = e_flush_counter e"
    using fl mem r(2) by (auto simp: at_rest_def e'_def w)
  have "engine_map e' = engine_map e1" unfolding e'_def w snd_conv by (rule engine_map_layers) (use fl(1) in simp)
  then show "engine_map e' = fold apply_request batch (engine_map e)" using b(3) by simp
  show "unat (e_seq e') = unat (e_seq e) + length batch" using b(4) by (simp add: e'_def w)
  have "mt_getSize (e_mem e') < kMemTableThreshold" using mem assms(4) by (simp add: mem_of_def e'_def w)
  then show "checkFlush False e' = Some e'" by (simp add: checkFlush_def)
  show "fst (write_batch zcrc batch e) = map (\<lambda>r. (wr_completion r, True)) batch" by (simp add: w b(5))
qed

text \<open>A process that ends in a state that is all in files is followed by one that holds the same.\<close>

definition reopen :: "crc \<Rightarrow> nat \<Rightarrow> engine \<Rightarrow> kv_error + engine" where
  "reopen zcrc n e = engine_open zcrc (e_data_dir e) n (e_fs e)"

lemma durable_reopen:
  assumes "engine_inv hasher e" "durable zcrc es sq e" "mem_of rs (e_mem e)" "length es = length rs"
  shows "\<exists>e'. reopen zcrc n e = Inr e' \<and> at_rest hasher zcrc rs e' \<and> engine_map e' = engine_map e
     \<and> e_seq e' = e_seq e \<and> e_flush_counter e' = e_flush_counter e"
proof -
  obtain e' where e': "engine_open zcrc (e_data_dir e) n (e_fs e) = Inr e'" "engine_inv hasher e'" "wal_ok e'"
    "durable zcrc es sq e'" "engine_view e' = engine_view e" "e_seq e' = e_seq e" "e_data_dir e' = e_data_dir e"
    "e_imm e' = None" "\<not> e_shutdown e'" "e_queue e' = wq_new 10000"
    "\<exists>fd. wal_fd (e_wal e') = Some fd \<and> fs_names (e_fs e') (log_path (e_data_dir e)) = Some fd"
    "write_buffer (e_wal e') = []" "e_flush_counter e' = e_flush_counter e"
    using restart [OF assms(1,2)] .
  have "running zcrc es sq e'" using durable_running [OF e'(4,3,12)] e'(7,11) by simp
  moreover have "e_mem e' = e_mem e" using e'(4) assms(2) by (simp add: durable_def)
  moreover have "engine_map e' = engine_map e" using e'(5) by (simp add: engine_map_def fun_eq_iff)
  ultimately show ?thesis using e' assms(3,4) by (auto simp: at_rest_def reopen_def)
qed

lemma at_rest_reopen:
  assumes "at_rest hasher zcrc rs e"
  shows "\<exists>e'. reopen zcrc n e = Inr e' \<and> at_rest hasher zcrc rs e' \<and> engine_map e' = engine_map e
     \<and> e_seq e' = e_seq e \<and> e_flush_counter e' = e_flush_counter e"
  using assms durable_reopen [of hasher e zcrc _ _ rs n] unfolding at_rest_def by blast

text \<open>The queue worked off by the destructor.\<close>

lemma at_rest_drain:
  assumes "at_rest hasher zcrc rs e" "\<forall>r\<in>set (concat batches). request_ok r"
    and "unat (e_seq e) + length (concat batches) < 2 ^ 64" "requests_size (rs @ concat batches) < kMemTableThreshold"
  shows "\<exists>e'. drain_batches hasher zcrc batches e = Inr (map (\<lambda>r. (wr_completion r, True)) (concat batches), e')
     \<and> at_rest hasher zcrc (rs @ concat batches) e' \<and> engine_map e' = fold apply_request (concat batches) (engine_map e)
     \<and> unat (e_seq e') = unat (e_seq e) + length (concat batches) \<and> e_flush_counter e' = e_flush_counter e"
  using assms
proof (induction batches arbitrary: rs e)
  case (Cons batch batches)
  have pre: "\<forall>r\<in>set batch. request_ok r" "unat (e_seq e) + length batch < 2 ^ 64" "requests_size (rs @ batch) < kMemTableThreshold"
    using Cons.prems(2-4) by simp_all
  define e1 where "e1 = engine_wal_flush (snd (write_batch zcrc batch e))"
  note w = at_rest_write [OF Cons.prems(1) pre, folded e1_def]
  have "\<forall>r\<in>set (concat batches). request_ok r" "unat (e_seq e1) + length (concat batches) < 2 ^ 64"
    "requests_size ((rs @ batch) @ concat batches) < kMemTableThreshold"
    using Cons.prems(2-4) w(4) by simp_all
  from Cons.IH [OF w(2) this] show ?case
    using w(1,3-6) by (auto simp: e1_def Let_def split: prod.splits)
qed simp

section \<open>Flush and shutdown\<close>

lemma flush_turn_counter:
  "flush_turn hasher e = Inr e' \<Longrightarrow> e_flush_counter e' = e_flush_counter e \<or> e_flush_counter e' = e_flush_counter e + 1"
  by (auto simp: flush_turn_def Let_def sum_bind_Inr_conv scheduleCompaction_def clear_cache_def split: option.splits if_splits prod.splits)

lemma checkFlush_counter: "checkFlush debug e = Some e' \<Longrightarrow> e_flush_counter e' = e_flush_counter e"
  by (auto simp: checkFlush_def Let_def split: if_splits)

lemma flush_counter_le:
  assumes "checkFlush debug e = Some e1" "flush_turn hasher e1 = Inr e2"
  shows "unat (e_flush_counter e2) \<le> unat (e_flush_counter e) + 1"
proof -
  have "e_flush_counter e2 = e_flush_counter e \<or> e_flush_counter e2 = e_flush_counter e + 1"
    using flush_turn_counter [OF assms(2)] checkFlush_counter [OF assms(1)] by simp
  moreover have "unat (e_flush_counter e + 1) \<le> unat (e_flush_counter e) + 1"
    by (simp only: unat_word_ariths(1) unsigned_1) (rule mod_less_eq_dividend)
  ultimately show ?thesis by auto
qed

text \<open>A flush with nothing in the memtable removes an empty log.\<close>

lemma at_rest_flush_empty:
  assumes "at_rest hasher zcrc [] e" "mt_snapshot (e_mem e) = []"
  shows "\<exists>e1 e2. engine_flush e = Some e1 \<and> flush_turn hasher e1 = Inr e2 \<and> engine_inv hasher e2
     \<and> durable zcrc [] (e_seq e) e2 \<and> engine_map e2 = engine_map e \<and> e_seq e2 = e_seq e"
proof -
  let ?dir = "e_data_dir e"
  have pre: "engine_inv hasher e" "wal_ok e" "\<not> e_shutdown e" using assms(1) by (simp_all add: at_rest_def)
  obtain sq where d: "durable zcrc [] sq e" using assms(1) by (auto simp: at_rest_def)
  have imm: "e_imm e = None" by (rule at_rest_imm [OF assms(1)])
  obtain e1 where e1: "checkFlush True e = Some e1" using checkFlush_total imm by blast
  have f: "e_imm e1 = Some mt_new" "e_mem e1 = mt_new" "e_vm e1 = e_vm e" "e_data_dir e1 = ?dir" "e_seq e1 = e_seq e"
    "e_flush_counter e1 = e_flush_counter e" "e_fs e1 = fs_remove (log_path ?dir) (e_fs (engine_wal_flush e))"
    using e1 imm pre(3) assms(2) by (auto simp: checkFlush_def Let_def mt_clear_def mt_new_def)
  have c: "engine_inv hasher e1" "wal_ok e1" "engine_view e1 = engine_view e"
    using checkFlush_correct [OF pre(1,2) e1] by simp_all
  have "mt_snapshot mt_new = []" by (simp add: mt_snapshot_def mt_new_def)
  note t = flush_turn_empty [OF c(1,2) f(1) this]
  have other: "fs_read p (e_fs e1) = fs_read p (e_fs e)" if "p \<noteq> log_path ?dir" for p
    using wal_flush_other [OF pre(2) that] that by (simp add: f(7))
  have "log_bytes ?dir (e_fs e1) = []" by (simp add: f(7) log_bytes_def)
  moreover have "saved_version ?dir (e_fs e1) (e_flush_counter e) sq (engine_version e)"
    using saved_version_cong [of ?dir "e_fs e1" "e_fs e", OF other] d by (simp add: durable_def)
  ultimately have "durable zcrc [] sq (e1\<lparr>e_flush_pending := False, e_imm := None\<rparr>)"
    using d f by (simp add: durable_def engine_version_def)
  moreover have "sq = e_seq e" using d by (simp add: durable_def next_seq_def)
  ultimately show ?thesis using e1 t c(3) f(5) by (simp add: engine_flush_def engine_map_def fun_eq_iff)
qed

lemma at_rest_flush:
  assumes "at_rest hasher zcrc rs e" "list_all word_request rs" "requests_size rs < kMemTableThreshold"
    and "unat (e_flush_counter e) + 1 < 2 ^ 64"
  shows "\<exists>e1 e2. engine_flush e = Some e1 \<and> flush_turn hasher e1 = Inr e2 \<and> engine_inv hasher e2
     \<and> durable zcrc [] (e_seq e) e2 \<and> engine_map e2 = engine_map e \<and> e_seq e2 = e_seq e"
proof (cases "mt_snapshot (e_mem e) = []")
  case True
  then have "rs = []" using assms(1) by (simp add: at_rest_def mem_of_def)
  then show ?thesis using at_rest_flush_empty [OF _ True] assms(1) by blast
next
  case False
  have pre: "engine_inv hasher e" "wal_ok e" "\<not> e_shutdown e" "mem_of rs (e_mem e)" using assms(1) by (simp_all add: at_rest_def)
  obtain es sq where d: "durable zcrc es sq e" using assms(1) by (auto simp: at_rest_def)
  then have "tables_open e" "0 < e_seq e" using saved_tables_open by (auto simp: durable_def)
  moreover have "small_run (mt_snapshot (e_mem e))"
    using pre(4) built_small [OF _ affordable_below [OF assms(3)]] by (simp add: mem_of_def)
  moreover have "word_range (mt_snapshot (e_mem e))" by (rule mem_of_word_range [OF pre(4) assms(2) False])
  ultimately obtain e1 e2 where e2: "engine_flush e = Some e1" "flush_turn hasher e1 = Inr e2" "engine_inv hasher e2"
    "durable zcrc [] (e_seq e) e2" "engine_view e2 = engine_view e" "e_seq e2 = e_seq e"
    using flush_durable [OF pre(1,2) at_rest_imm [OF assms(1)] pre(3) _ False assms(4), of zcrc] by metis
  then show ?thesis by (auto simp: engine_map_def fun_eq_iff)
qed

lemma at_rest_flags:
  assumes "at_rest hasher zcrc rs e"
  shows "at_rest hasher zcrc rs (e\<lparr>e_writer_shutdown := b, e_queue := q\<rparr>)"
    "engine_map (e\<lparr>e_writer_shutdown := b, e_queue := q\<rparr>) = engine_map e"
proof -
  let ?e = "e\<lparr>e_writer_shutdown := b, e_queue := q\<rparr>"
  have "engine_inv hasher ?e \<and> wal_ok ?e \<and> engine_map ?e = engine_map e"
    by (rule engine_flags_frame) (use assms in \<open>simp_all add: at_rest_def\<close>)
  moreover have same: "running zcrc es sq ?e = running zcrc es sq e" "durable zcrc es sq ?e = durable zcrc es sq e" for es sq
    by (simp_all add: running_def log_state_def durable_def engine_version_def)
  ultimately show "at_rest hasher zcrc rs ?e" "engine_map ?e = engine_map e"
    using assms same unfolding at_rest_def by simp_all
qed

text \<open>The destructor leaves everything in the files, the queued requests included.\<close>

lemma at_rest_close:
  assumes "at_rest hasher zcrc rs e" "\<forall>r\<in>set qs. request_ok r"
    and "unat (e_seq e) + length qs < 2 ^ 64" "requests_size (rs @ qs) < kMemTableThreshold"
  shows "\<exists>e' es sq. engine_close hasher zcrc (e\<lparr>e_queue := (e_queue e)\<lparr>wq_queue := qs\<rparr>\<rparr>)
        = Inr (map (\<lambda>r. (wr_completion r, True)) qs, e')
     \<and> engine_inv hasher e' \<and> durable zcrc es sq e' \<and> length es = length (rs @ qs) \<and> mem_of (rs @ qs) (e_mem e')
     \<and> engine_map e' = fold apply_request qs (engine_map e) \<and> unat (e_seq e') = unat (e_seq e) + length qs
     \<and> e_flush_counter e' = e_flush_counter e"
proof -
  let ?q = "(e_queue e)\<lparr>wq_queue := qs\<rparr>" and ?batches = "wq_drain (MAX_BATCH_SIZE - 1) ((e_queue e)\<lparr>wq_queue := qs\<rparr>)"
  have all: "concat ?batches = qs" by (simp add: wq_drain_all)
  define e0 where "e0 = e\<lparr>e_writer_shutdown := True, e_queue := (wq_do_shutdown ?q)\<lparr>wq_queue := []\<rparr>\<rparr>"
  note fl = at_rest_flags [OF assms(1), where b = True and q = "(wq_do_shutdown ?q)\<lparr>wq_queue := []\<rparr>", folded e0_def]
  obtain e1 where e1: "drain_batches hasher zcrc ?batches e0 = Inr (map (\<lambda>r. (wr_completion r, True)) qs, e1)"
    "at_rest hasher zcrc (rs @ qs) e1" "engine_map e1 = fold apply_request qs (engine_map e)"
    "unat (e_seq e1) = unat (e_seq e) + length qs" "e_flush_counter e1 = e_flush_counter e"
    using at_rest_drain [OF fl(1), of ?batches] assms(2-4) fl(2) unfolding all by (auto simp: e0_def)
  define e2 where "e2 = e1\<lparr>e_shutdown := True\<rparr>"
  obtain es sq where d: "durable zcrc es sq e1" "length es = length (rs @ qs)" using e1(2) by (auto simp: at_rest_def)
  have i2: "engine_inv hasher e2 \<and> wal_ok e2 \<and> engine_map e2 = engine_map e1"
    by (rule engine_flags_frame) (use e1(2) in \<open>simp_all add: e2_def at_rest_def\<close>)
  obtain w fs where cl: "wal_close full_write (e_wal e2, e_fs e2) = (w, fs)" by fastforce
  note c = wal_close_layers [OF _ _ cl, of hasher]
  obtain fd where "wal_fd (e_wal e1) = Some fd" "wal_inv (e_wal e1)" "write_buffer (e_wal e1) = []"
    using e1(2) by (auto simp: at_rest_def wal_ok_def)
  then have fs: "fs = e_fs e1"
    using cl doSync_full [of "(e_wal e1)\<lparr>wal_shutdown := True, sync_requested := True\<rparr>" fd]
    by (simp add: wal_close_def e2_def wal_inv_def)
  have "flush_turn hasher e2 = Inr e2" using at_rest_imm [OF e1(2)] by (simp add: flush_turn_def e2_def)
  then have "engine_close hasher zcrc (e\<lparr>e_queue := ?q\<rparr>) = Inr (map (\<lambda>r. (wr_completion r, True)) qs, e2\<lparr>e_wal := w, e_fs := fs\<rparr>)"
    using e1(1) cl by (simp add: engine_close_def Let_def e0_def e2_def)
  moreover have "durable zcrc es sq (e2\<lparr>e_wal := w, e_fs := fs\<rparr>)"
    using d(1) by (simp add: durable_def engine_version_def e2_def fs)
  moreover have "engine_map (e2\<lparr>e_wal := w, e_fs := fs\<rparr>) = engine_map e1" using engine_map_layers [OF c(1)] i2 by simp
  moreover have "engine_inv hasher (e2\<lparr>e_wal := w, e_fs := fs\<rparr>)" using c(2) i2 by simp
  moreover have "mem_of (rs @ qs) (e_mem (e2\<lparr>e_wal := w, e_fs := fs\<rparr>))" using e1(2) by (simp add: at_rest_def e2_def)
  ultimately show ?thesis using e1(3-5) d(2) by (intro exI [of _ "e2\<lparr>e_wal := w, e_fs := fs\<rparr>"] exI [of _ es] exI [of _ sq]) (simp add: e2_def)
qed

section \<open>The life of a database\<close>

text \<open>
  \<open>Db_write rs\<close>: the writer thread applies the batch \<open>rs\<close>, flushes the log and runs
  \<open>checkFlush\<close>.  \<open>Db_crash\<close>: the process is gone.  \<open>Db_flush\<close>: the client asks for a flush, the
  flush thread takes its turn, and the process is gone before the next write.  \<open>Db_close rs\<close>:
  the destructor runs while \<open>rs\<close> is in the queue.  After the last three, a new process
  constructs the engine on the same directory.
\<close>

datatype db_event = Db_write "write_request list" | Db_crash | Db_flush | Db_close "write_request list"

fun db_step :: "(string \<Rightarrow> uint64) \<Rightarrow> crc \<Rightarrow> nat \<Rightarrow> db_event \<Rightarrow> engine \<Rightarrow> kv_error + engine" where
  "db_step hasher zcrc n (Db_write rs) e =
     (case checkFlush False (engine_wal_flush (snd (write_batch zcrc rs e))) of
        None \<Rightarrow> Inl UndefinedBehaviour
      | Some e1 \<Rightarrow> Inr e1)"
| "db_step hasher zcrc n Db_crash e = reopen zcrc n e"
| "db_step hasher zcrc n Db_flush e =
     (case engine_flush e of
        None \<Rightarrow> Inl UndefinedBehaviour
      | Some e1 \<Rightarrow> sum_bind (flush_turn hasher e1) (reopen zcrc n))"
| "db_step hasher zcrc n (Db_close rs) e =
     sum_bind (engine_close hasher zcrc (e\<lparr>e_queue := (e_queue e)\<lparr>wq_queue := rs\<rparr>\<rparr>)) (\<lambda>(answers, e1). reopen zcrc n e1)"

fun db_run :: "(string \<Rightarrow> uint64) \<Rightarrow> crc \<Rightarrow> nat \<Rightarrow> db_event list \<Rightarrow> engine \<Rightarrow> kv_error + engine" where
  "db_run hasher zcrc n [] e = Inr e"
| "db_run hasher zcrc n (ev # evs) e = sum_bind (db_step hasher zcrc n ev e) (db_run hasher zcrc n evs)"

fun db_event_requests :: "db_event \<Rightarrow> write_request list" where
  "db_event_requests (Db_write rs) = rs"
| "db_event_requests (Db_close rs) = rs"
| "db_event_requests _ = []"

definition db_requests :: "db_event list \<Rightarrow> write_request list" where
  "db_requests evs = concat (map db_event_requests evs)"

text \<open>What the requests since the last flush take, starting with \<open>a\<close>, always stays below the threshold.\<close>

fun below_threshold :: "nat \<Rightarrow> db_event list \<Rightarrow> bool" where
  "below_threshold a [] \<longleftrightarrow> a < kMemTableThreshold"
| "below_threshold a (Db_flush # evs) \<longleftrightarrow> a < kMemTableThreshold \<and> below_threshold 0 evs"
| "below_threshold a (ev # evs) \<longleftrightarrow> below_threshold (a + requests_size (db_event_requests ev)) evs"

lemma below_threshold_less: "below_threshold a evs \<Longrightarrow> a < kMemTableThreshold"
  by (induction a evs rule: below_threshold.induct) auto

lemma db_step_at_rest:
  assumes "at_rest hasher zcrc rs e" "list_all word_request (rs @ db_event_requests ev)"
    and "unat (e_seq e) + length (db_event_requests ev) < 2 ^ 64" "unat (e_flush_counter e) + 1 < 2 ^ 64"
    and "below_threshold (requests_size rs) (ev # evs)"
  shows "\<exists>rs' e'. db_step hasher zcrc n ev e = Inr e' \<and> at_rest hasher zcrc rs' e' \<and> list_all word_request rs'
     \<and> engine_map e' = fold apply_request (db_event_requests ev) (engine_map e)
     \<and> unat (e_seq e') = unat (e_seq e) + length (db_event_requests ev)
     \<and> unat (e_flush_counter e') \<le> unat (e_flush_counter e) + 1
     \<and> below_threshold (requests_size rs') evs"
proof (cases ev)
  case (Db_write batch)
  have ok: "\<forall>r\<in>set batch. request_ok r" using assms(2) Db_write by (auto simp: list_all_iff word_request_def)
  have small: "requests_size (rs @ batch) < kMemTableThreshold" using below_threshold_less assms(5) Db_write by simp
  have "unat (e_seq e) + length batch < 2 ^ 64" using assms(3) Db_write by simp
  note w = at_rest_write [OF assms(1) ok this small]
  show ?thesis
    using w(1-5) assms(2,5) Db_write
    by (intro exI [of _ "rs @ batch"] exI [of _ "engine_wal_flush (snd (write_batch zcrc batch e))"]) simp
next
  case Db_crash
  then show ?thesis using at_rest_reopen [OF assms(1), of n] assms(2,5) by auto
next
  case Db_flush
  have "requests_size rs < kMemTableThreshold" using below_threshold_less assms(5) by blast
  then obtain e1 e2 where e2: "engine_flush e = Some e1" "flush_turn hasher e1 = Inr e2" "engine_inv hasher e2"
    "durable zcrc [] (e_seq e) e2" "engine_map e2 = engine_map e" "e_seq e2 = e_seq e"
    using at_rest_flush [OF assms(1) _ _ assms(4)] assms(2) by auto
  have mem: "mem_of [] (e_mem e2)" using e2(4) mem_of_new by (simp add: durable_def)
  have le: "unat (e_flush_counter e2) \<le> unat (e_flush_counter e) + 1"
    using flush_counter_le e2(1,2) unfolding engine_flush_def .
  show ?thesis
    using durable_reopen [OF e2(3,4) mem, of n] e2 le Db_flush assms(5) by (auto intro!: exI [of _ "[]"])
next
  case (Db_close qs)
  have ok: "\<forall>r\<in>set qs. request_ok r" using assms(2) Db_close by (auto simp: list_all_iff word_request_def)
  have small: "requests_size (rs @ qs) < kMemTableThreshold" using below_threshold_less assms(5) Db_close by simp
  have "unat (e_seq e) + length qs < 2 ^ 64" using assms(3) Db_close by simp
  then obtain e1 es sq where e1: "engine_close hasher zcrc (e\<lparr>e_queue := (e_queue e)\<lparr>wq_queue := qs\<rparr>\<rparr>)
        = Inr (map (\<lambda>r. (wr_completion r, True)) qs, e1)"
    "engine_inv hasher e1" "durable zcrc es sq e1" "length es = length (rs @ qs)" "mem_of (rs @ qs) (e_mem e1)"
    "engine_map e1 = fold apply_request qs (engine_map e)" "unat (e_seq e1) = unat (e_seq e) + length qs"
    "e_flush_counter e1 = e_flush_counter e"
    using at_rest_close [OF assms(1) ok _ small] by blast
  show ?thesis
    using durable_reopen [OF e1(2,3,5,4), of n] e1 Db_close assms(2,5) by (auto intro!: exI [of _ "rs @ qs"])
qed

lemma db_run_at_rest:
  assumes "at_rest hasher zcrc rs e" "list_all word_request (rs @ db_requests evs)"
    and "unat (e_seq e) + length (db_requests evs) < 2 ^ 64" "unat (e_flush_counter e) + length evs < 2 ^ 64"
    and "below_threshold (requests_size rs) evs"
  shows "\<exists>e'. db_run hasher zcrc n evs e = Inr e' \<and> engine_inv hasher e'
     \<and> engine_map e' = fold apply_request (db_requests evs) (engine_map e)"
  using assms
proof (induction evs arbitrary: rs e)
  case Nil
  then show ?case by (simp add: at_rest_def db_requests_def)
next
  case (Cons ev evs)
  have split: "db_requests (ev # evs) = db_event_requests ev @ db_requests evs" by (simp add: db_requests_def)
  obtain rs' e' where e': "db_step hasher zcrc n ev e = Inr e'" "at_rest hasher zcrc rs' e'" "list_all word_request rs'"
    "engine_map e' = fold apply_request (db_event_requests ev) (engine_map e)"
    "unat (e_seq e') = unat (e_seq e) + length (db_event_requests ev)"
    "unat (e_flush_counter e') \<le> unat (e_flush_counter e) + 1" "below_threshold (requests_size rs') evs"
    using db_step_at_rest [OF Cons.prems(1) _ _ _ Cons.prems(5), of n] Cons.prems(2-4) by (auto simp: split)
  show ?case
    using Cons.IH [OF e'(2) _ _ _ e'(7)] Cons.prems(2-4) e' by (simp add: split)
qed

lemma fresh_at_rest:
  assumes "dir_ok (sst_dir dir)"
  obtains e where "engine_open zcrc dir n fs_empty = Inr e" "at_rest hasher zcrc [] e" "engine_map e = Map.empty"
    "e_seq e = 1" "e_flush_counter e = 0"
proof -
  obtain e where e: "engine_open zcrc dir n fs_empty = Inr e" "engine_inv hasher e" "wal_ok e" "running zcrc [] 1 e"
    "durable zcrc [] 1 e" "engine_map e = Map.empty" "e_seq e = 1"
    using fresh_durable [OF assms] .
  obtain e' where e': "engine_open zcrc dir n fs_empty = Inr e'" "\<not> e_shutdown e'"
    "e_wal e' = fst (wal_open (log_path dir) fs_empty)" "e_flush_counter e' = 0"
    using engine_fresh [OF assms] by metis
  have same: "e' = e" using e(1) e'(1) by simp
  have "write_buffer (e_wal e) = []" using e'(3) by (simp add: same wal_open_def split: prod.splits)
  moreover have "mem_of [] (e_mem e)" using e(5) mem_of_new by (simp add: durable_def)
  ultimately have "at_rest hasher zcrc [] e" using e e'(2) by (auto simp: at_rest_def same)
  with e e'(4) show ?thesis by (intro that) (simp_all add: same)
qed

section \<open>Property\<close>



end
