(* ===== verification/Console.thy ===== *)
theory Console
  imports Engine_Calls
begin

text \<open>
  The console program of the engine (\<open>engine/src/main.cpp\<close>): it opens the engine on the directory
  \<open>data\<close>, recovers once more, and then reads a line and executes it, forever.  Standard input
  is a stream in the sense of \<open>getline\<close>; a failed \<open>getline\<close> leaves the string as it was.
\<close>

section \<open>Recovering twice\<close>

fun recovered :: "wal_entry \<Rightarrow> string \<Rightarrow> entry option" where
  "recovered (n, op, key, val) =
     (case op of
        Op_PUT \<Rightarrow> [key \<mapsto> \<lparr>ent_value = val, ent_seq = n, ent_type = Et_PUT\<rparr>]
      | Op_DELETE \<Rightarrow> [key \<mapsto> \<lparr>ent_value = [], ent_seq = n, ent_type = Et_DELETE\<rparr>]
      | _ \<Rightarrow> Map.empty)"

lemma recover_apply_lookup:
  "mt_get (fst (recover_apply x (m, s))) = mt_get m ++ recovered x"
  by (cases x) (auto split: operation.split)

lemma recover_fold_lookup:
  "mt_get (fst (fold recover_apply es (m, s))) = mt_get m ++ foldr (\<lambda>x f. recovered x ++ f) es Map.empty"
proof (induction es arbitrary: m s)
  case (Cons x es)
  obtain m' s' where m': "recover_apply x (m, s) = (m', s')" by (cases "recover_apply x (m, s)")
  then have "mt_get m' = mt_get m ++ recovered x" using recover_apply_lookup [of x m s] by simp
  then show ?case using Cons.IH [of m' s'] m' by (simp add: map_add_assoc)
qed simp

lemma recover_apply_inv: "mt_inv m \<Longrightarrow> mt_inv (fst (recover_apply x (m, s)))"
  by (cases x) (auto split: operation.split)

lemma recover_fold_inv: "mt_inv m \<Longrightarrow> mt_inv (fst (fold recover_apply es (m, s)))"
proof (induction es arbitrary: m s)
  case (Cons x es)
  then show ?case using recover_apply_inv [OF Cons.prems, of x s] by (cases "recover_apply x (m, s)") simp
qed simp

text \<open>A memtable is determined by its lookups.\<close>

lemma sorted_keys_eqI:
  assumes "sorted_keys a" "sorted_keys b" "map_of a = map_of b"
  shows "a = b"
proof -
  have "set a = set b" using sorted_keys_map_of [OF assms(1)] sorted_keys_map_of [OF assms(2)] assms(3) by auto
  then show ?thesis
    using assms(1,2) sorted_keys_distinct
    by (intro map_sorted_distinct_set_unique [of fst]) (auto simp: strict_sorted_iff distinct_map)
qed

lemma map_add_again: "(m ++ f) ++ f = m ++ f"
  by (auto simp: map_add_def fun_eq_iff split: option.split)

lemma mt_eqI: "mt_inv a \<Longrightarrow> mt_inv b \<Longrightarrow> mt_get a = mt_get b \<Longrightarrow> a = b"
  using sorted_keys_eqI [of "mt_map a" "mt_map b"]
  by (cases a, cases b) (auto simp: mt_inv_def mt_get_def fun_eq_iff)

lemma recover_fields:
  "e_wal (recover zcrc e) = e_wal e" "e_fs (recover zcrc e) = e_fs e" "e_imm (recover zcrc e) = e_imm e"
  "e_vm (recover zcrc e) = e_vm e" "e_queue (recover zcrc e) = e_queue e" "e_cache (recover zcrc e) = e_cache e"
  by (simp_all add: recover_def split: prod.splits)

text \<open>
  Recovering a second time, as the console does, changes nothing but the next sequence
  number: the memtable is the one the first recovery built, and so is every other part.
\<close>

lemma recover_again:
  assumes "mt_inv (e_mem e)"
  shows "recover zcrc (recover zcrc e) = (recover zcrc e)\<lparr>e_seq := e_seq (recover zcrc (recover zcrc e))\<rparr>"
proof (cases "wal_empty (wal_path (e_wal e)) (e_fs e)")
  case True
  then show ?thesis by (simp add: recover_def)
next
  case False
  let ?log = "wal_replay zcrc (wal_path (e_wal e)) (e_fs e)"
  let ?fill = "\<lambda>m s. fold recover_apply ?log (m, s)"
  have r: "recover zcrc e' = e'\<lparr>e_mem := fst (?fill (e_mem e') (e_seq e')), e_seq := snd (?fill (e_mem e') (e_seq e')) + 1\<rparr>"
    if "e_wal e' = e_wal e" "e_fs e' = e_fs e" for e'
    using False that by (simp add: recover_def split: prod.split)
  have idem: "fst (?fill (fst (?fill m s)) s') = fst (?fill m s)" if "mt_inv m" for m s s'
    using that by (intro mt_eqI) (simp_all add: recover_fold_inv recover_fold_lookup map_add_again)
  have "e_mem (recover zcrc e) = fst (?fill (e_mem e) (e_seq e))" by (simp add: r)
  then have mem: "fst (?fill (e_mem (recover zcrc e)) (e_seq (recover zcrc e))) = e_mem (recover zcrc e)"
    using idem [OF assms] by simp
  show ?thesis
    using r [OF recover_fields(1,2), of zcrc] by (simp add: mem)
qed

lemma recover_again_example:
  "\<exists>e. engine_open (\<lambda>c b. c) ''d'' 2 fs_empty = Inr e \<and>
     e_mem (recover (\<lambda>c b. c) (recover (\<lambda>c b. c) e)) = e_mem (recover (\<lambda>c b. c) e)"
proof -
  obtain e where e: "engine_open (\<lambda>c b. c) ''d'' 2 fs_empty = Inr e" "engine_ready (\<lambda>s. 0) e"
    by (rule engine_fresh_ready)
  have "mt_inv (e_mem e)" using e(2) by (simp add: engine_ready_def engine_inv_def)
  from arg_cong [OF recover_again [OF this, of "\<lambda>c b. c"], of e_mem] show ?thesis using e(1) by auto
qed

section \<open>The loop of the console\<close>

definition console_open :: "crc \<Rightarrow> file_system \<Rightarrow> kv_error + engine" where
  "console_open zcrc fs = sum_bind (engine_open zcrc ''data'' 1000 fs) (\<lambda>e. Inr (recover zcrc e))"

text \<open>The state of the loop: the string \<open>input\<close>, standard input and the engine.\<close>

type_synonym console = "string \<times> (bytes \<times> bool) \<times> engine"

definition console_turn :: "(string \<Rightarrow> uint64) \<Rightarrow> crc \<Rightarrow> nat \<Rightarrow> console \<Rightarrow> kv_error + (string \<times> console) option" where
  "console_turn hasher zcrc c s =
     (case s of (input, stdin, e) \<Rightarrow>
        let (input1, stdin1) = getline input stdin in
        sum_bind (handleCommand hasher zcrc c input1 e) (\<lambda>r.
          Inr (map_option (\<lambda>(out, e1). (''> '' @ out, input1, stdin1, e1)) r)))"

text \<open>The loop has no exit; these are its first \<open>n\<close> turns, with all they print.\<close>

fun console_turns :: "(string \<Rightarrow> uint64) \<Rightarrow> crc \<Rightarrow> nat \<Rightarrow> console \<Rightarrow> kv_error + (string \<times> console) option" where
  "console_turns hasher zcrc 0 s = Inr (Some ([], s))"
| "console_turns hasher zcrc (Suc n) s =
     sum_bind (console_turn hasher zcrc n s) (\<lambda>r.
       case r of
         None \<Rightarrow> Inr None
       | Some (out, s1) \<Rightarrow>
           sum_bind (console_turns hasher zcrc n s1) (\<lambda>r2. Inr (map_option (\<lambda>(out2, s2). (out @ out2, s2)) r2)))"

text \<open>The lines that the first turns execute.\<close>

fun console_reads :: "nat \<Rightarrow> string \<Rightarrow> bytes \<times> bool \<Rightarrow> string list" where
  "console_reads 0 input stdin = []"
| "console_reads (Suc n) input stdin =
     (case getline input stdin of (input1, stdin1) \<Rightarrow> input1 # console_reads n input1 stdin1)"

section \<open>The console against a map\<close>

definition spec_line :: "string \<Rightarrow> (string \<Rightarrow> string option) \<Rightarrow> string \<times> (string \<Rightarrow> string option)" where
  "spec_line line m =
     (let (op, key, val) = parseCommand line in
      case op of
        Op_PUT \<Rightarrow> ([], m(key \<mapsto> val))
      | Op_GET \<Rightarrow> ((case m key of None \<Rightarrow> [] | Some v \<Rightarrow> v) @ [newline], m)
      | Op_DELETE \<Rightarrow> ([], m(key := None))
      | _ \<Rightarrow> ([], m))"

fun spec_console :: "string list \<Rightarrow> (string \<Rightarrow> string option) \<Rightarrow> string \<times> (string \<Rightarrow> string option)" where
  "spec_console [] m = ([], m)"
| "spec_console (line # lines) m =
     (case spec_line line m of (out, m1) \<Rightarrow>
        (case spec_console lines m1 of (out2, m2) \<Rightarrow> (''> '' @ out @ out2, m2)))"

text \<open>Lines that do not touch the files themselves, and what they can add to the memtable.\<close>

definition line_ok :: "string \<Rightarrow> bool" where
  "line_ok line =
     (let (op, key, val) = parseCommand line
      in op \<notin> {Op_LS, Op_FLUSH, Op_CLEAR} \<and> length key < 2 ^ 32 \<and> length val < 2 ^ 32)"

definition line_size :: "string \<Rightarrow> nat" where
  "line_size line = (let (op, key, val) = parseCommand line in 17 + length key + length val)"

lemma fits_in_memtable_less: "fits_in_memtable (k + n) e \<Longrightarrow> fits_in_memtable n e"
  by (simp add: fits_in_memtable_def)

lemma command_line:
  assumes "engine_ready hasher e" "line_ok line" "unat (e_seq e) + 1 < 2 ^ 64" "fits_in_memtable (line_size line + n) e"
  obtains e' where "handleCommand hasher zcrc c line e = Inr (Some (fst (spec_line line (engine_map e)), e'))"
    "engine_map e' = snd (spec_line line (engine_map e))"
    "engine_ready hasher e'" "fits_in_memtable n e'" "unat (e_seq e') \<le> unat (e_seq e) + 1"
proof -
  obtain op key val where p: "parseCommand line = (op, key, val)" by (cases "parseCommand line")
  have small: "length key < 2 ^ 32" "length val < 2 ^ 32" "fits_in_memtable (17 + length key + length val + n) e"
    using assms(2,4) by (simp_all add: line_ok_def line_size_def p)
  consider "op = Op_PUT" | "op = Op_GET" | "op = Op_DELETE"
    | "handleCommand hasher zcrc c line e = Inr (Some ([], e))" "spec_line line (engine_map e) = ([], engine_map e)"
    using assms(2) by (cases op) (simp_all add: line_ok_def handleCommand_def spec_line_def p)
  then show ?thesis
  proof cases
    case 1
    obtain e' where "engine_put zcrc key val c e = Some (True, e')" "engine_map e' = (engine_map e)(key \<mapsto> val)"
      "unat (e_seq e') = unat (e_seq e) + 1" "engine_ready hasher e' \<and> fits_in_memtable n e'"
      using engine_put_correct [OF assms(1) small(1,2) assms(3), of zcrc c] small(3) by metis
    then show ?thesis using 1 by (intro that [of e']) (simp_all add: handleCommand_def spec_line_def p)
  next
    case 2
    obtain x ca where "engine_get hasher key e = Inr (x, e\<lparr>e_cache := ca\<rparr>)" "engine_ready hasher (e\<lparr>e_cache := ca\<rparr>)"
      "map_option ent_value x = engine_map e key"
      using engine_get_ready [OF assms(1)] by metis
    moreover from this have "engine_map (e\<lparr>e_cache := ca\<rparr>) = engine_map e"
      by (intro engine_ready_cache(2) [OF assms(1)]) (simp add: engine_ready_def)
    ultimately show ?thesis using 2 fits_in_memtable_less [OF assms(4)]
      by (intro that [of "e\<lparr>e_cache := ca\<rparr>"])
        (auto simp: handleCommand_def spec_line_def p split: option.splits dest: sym)
  next
    case 3
    obtain e' where "engine_del hasher zcrc key c e = Inr (Some (engine_map e key \<noteq> None, e'))"
      "engine_map e' = (engine_map e)(key := None)" "unat (e_seq e') = unat (e_seq e) + 1"
      "\<And>n. fits_in_memtable (17 + length key + n) e \<Longrightarrow> engine_ready hasher e' \<and> fits_in_memtable n e'"
      using engine_del_correct [OF assms(1) small(1) assms(3), of zcrc c] by metis
    moreover have "fits_in_memtable (17 + length key + (length val + n)) e" using small(3) by (simp add: add.assoc)
    ultimately show ?thesis using 3 fits_in_memtable_less
      by (intro that [of e']) (auto simp: handleCommand_def spec_line_def p)
  next
    case 4
    then show ?thesis using that [of e] assms fits_in_memtable_less by auto
  qed
qed

lemma console_turns_spec:
  assumes "engine_ready hasher e" "list_all line_ok (console_reads n input stdin)"
    and "unat (e_seq e) + n < 2 ^ 64"
    and "fits_in_memtable (sum_list (map line_size (console_reads n input stdin))) e"
  shows "\<exists>input' stdin' e'. console_turns hasher zcrc n (input, stdin, e)
       = Inr (Some (fst (spec_console (console_reads n input stdin) (engine_map e)), input', stdin', e'))
     \<and> engine_map e' = snd (spec_console (console_reads n input stdin) (engine_map e)) \<and> engine_ready hasher e'"
  using assms
proof (induction n arbitrary: input stdin e)
  case (Suc n)
  obtain line stdin1 where g: "getline input stdin = (line, stdin1)" by (cases "getline input stdin")
  let ?lines = "console_reads n line stdin1"
  obtain e' where e': "handleCommand hasher zcrc n line e = Inr (Some (fst (spec_line line (engine_map e)), e'))"
    "engine_map e' = snd (spec_line line (engine_map e))"
    "engine_ready hasher e'" "fits_in_memtable (sum_list (map line_size ?lines)) e'" "unat (e_seq e') \<le> unat (e_seq e) + 1"
    using command_line [of hasher e line "sum_list (map line_size ?lines)" zcrc n] Suc.prems g by auto
  have "\<exists>input' stdin' e2. console_turns hasher zcrc n (line, stdin1, e')
       = Inr (Some (fst (spec_console ?lines (engine_map e')), input', stdin', e2))
     \<and> engine_map e2 = snd (spec_console ?lines (engine_map e')) \<and> engine_ready hasher e2"
    by (rule Suc.IH) (use Suc.prems g e' in simp_all)
  then show ?case using g e'(1,2) by (auto simp: console_turn_def split: prod.splits)
qed simp

text \<open>What the loop reads from a text whose last line is not ended.\<close>

lemma console_reads_end: "console_reads n line (bs, True) = replicate n line"
  by (induction n) (simp_all add: getline_def)

lemma console_reads_text:
  assumes "\<forall>l\<in>set lines. newline \<notin> set l" "newline \<notin> set last_line"
  shows "console_reads (length lines + Suc n) input (concat (map (\<lambda>l. l @ [newline]) lines) @ last_line, False)
     = lines @ replicate (Suc n) last_line"
  using assms
proof (induction lines arbitrary: input)
  case Nil
  have "takeWhile (\<lambda>c. c \<noteq> newline) last_line = last_line" using Nil by (auto simp: takeWhile_eq_all_conv)
  show ?case by (simp add: getline_def console_reads_end Let_def \<open>takeWhile _ last_line = last_line\<close>)
next
  case (Cons l lines)
  let ?rest = "concat (map (\<lambda>l. l @ [newline]) lines) @ last_line"
  have "takeWhile (\<lambda>c. c \<noteq> newline) (l @ newline # ?rest) = l"
    using Cons.prems(1) by (subst takeWhile_append2) auto
  then show ?case using Cons by (simp add: getline_def)
qed



end
