(* ===== verification/Client_Protocol.thy ===== *)
theory Client_Protocol
  imports CPP_Strings
begin

text \<open>
  The text protocol of the server (\<open>server/src/protocol.cpp\<close>,
  \<open>server/src/connection_handler.cpp\<close>): requests and responses, the parser, and the
  loop that serves one connection.

  A socket is the list of what its calls will return.  \<open>recv\<close> delivers some bytes, is
  interrupted or fails; when the list is used up the peer has closed the connection.
  \<open>send\<close> accepts at most so many bytes or fails; when that list is used up every call
  accepts all it is given.  The executor of the commands is a parameter that passes a
  state through.
\<close>

section \<open>Requests and responses\<close>

datatype command_type = CT_PUT | CT_GET | CT_DELETE | CT_PING | CT_QUIT | CT_STATUS | CT_UNKNOWN

record request =
  rq_type :: command_type
  rq_key :: string
  rq_value :: string

record response =
  rs_success :: bool
  rs_message :: string
  rs_value :: "string option"

definition response_ok :: "string \<Rightarrow> response" where
  "response_ok msg = \<lparr>rs_success = True, rs_message = msg, rs_value = None\<rparr>"

definition okWithValue :: "string \<Rightarrow> response" where
  "okWithValue v = \<lparr>rs_success = True, rs_message = ''OK'', rs_value = Some v\<rparr>"

definition notFound :: response where
  "notFound = \<lparr>rs_success = False, rs_message = ''NOT_FOUND'', rs_value = None\<rparr>"

definition response_error :: "string \<Rightarrow> response" where
  "response_error msg = \<lparr>rs_success = False, rs_message = msg, rs_value = None\<rparr>"

definition crlf :: string where
  "crlf = [CHR 0x0D, CHR 0x0A]"

definition response_serialize :: "response \<Rightarrow> string" where
  "response_serialize r =
     (case rs_value r of
        Some v \<Rightarrow> ''+VALUE '' @ v @ crlf
      | None \<Rightarrow> if rs_success r then ''+OK '' @ rs_message r @ crlf
                else ''-ERR '' @ rs_message r @ crlf)"

section \<open>The parser\<close>

definition blanks :: string where
  "blanks = [CHR 0x20, CHR 0x09, CHR 0x0D, CHR 0x0A]"

definition pp_trim :: "string \<Rightarrow> string" where
  "pp_trim s =
     (case find_first_not_of s blanks of
        None \<Rightarrow> []
      | Some start \<Rightarrow> (case find_last_not_of s blanks of
           None \<Rightarrow> [] | Some stop \<Rightarrow> take (stop - start + 1) (drop start s)))"

definition cpp_toupper :: "char \<Rightarrow> char" where
  "cpp_toupper c = (let n = (of_char c :: nat) in if 97 \<le> n \<and> n \<le> 122 then char_of (n - 32) else c)"

definition pp_parseCommand :: "string \<Rightarrow> command_type" where
  "pp_parseCommand cmd =
     (let upper = map cpp_toupper cmd in
      if upper = ''PUT'' \<or> upper = ''SET'' then CT_PUT
      else if upper = ''GET'' then CT_GET
      else if upper = ''DELETE'' \<or> upper = ''DEL'' then CT_DELETE
      else if upper = ''PING'' then CT_PING
      else if upper = ''QUIT'' \<or> upper = ''EXIT'' then CT_QUIT
      else CT_UNKNOWN)"

definition pp_parse :: "string \<Rightarrow> request option" where
  "pp_parse line =
     (let trimmed = pp_trim line in
      if trimmed = [] then None
      else
        let (cmdStr, rest) =
              (case find_char trimmed (CHR 0x20) 0 of
                 None \<Rightarrow> (trimmed, [])
               | Some pos \<Rightarrow> (take pos trimmed, pp_trim (drop (pos + 1) trimmed)));
            type = pp_parseCommand cmdStr
        in case type of
             CT_PUT \<Rightarrow>
               (case find_char rest (CHR 0x20) 0 of
                  None \<Rightarrow> None
                | Some keyEnd \<Rightarrow>
                    let key = take keyEnd rest; val = pp_trim (drop (keyEnd + 1) rest)
                    in if key = [] \<or> val = [] then None
                       else Some \<lparr>rq_type = type, rq_key = key, rq_value = val\<rparr>)
           | CT_GET \<Rightarrow> if rest = [] then None else Some \<lparr>rq_type = type, rq_key = rest, rq_value = []\<rparr>
           | CT_DELETE \<Rightarrow> if rest = [] then None else Some \<lparr>rq_type = type, rq_key = rest, rq_value = []\<rparr>
           | _ \<Rightarrow> Some \<lparr>rq_type = type, rq_key = [], rq_value = []\<rparr>)"

section \<open>The socket\<close>

datatype recv_result = Recv bytes | Recv_eintr | Recv_error

datatype send_result = Send_upto nat | Send_fail

record socket =
  sk_in :: "recv_result list"
  sk_out :: "send_result list"
  sk_sent :: bytes

text \<open>One call of \<open>send\<close>: how many bytes were accepted; \<open>None\<close> is a result that is not positive.\<close>

definition sock_send :: "bytes \<Rightarrow> socket \<Rightarrow> nat option \<times> socket" where
  "sock_send data sk =
     (case sk_out sk of
        [] \<Rightarrow> (Some (length data), sk\<lparr>sk_sent := sk_sent sk @ data\<rparr>)
      | Send_fail # ss \<Rightarrow> (None, sk\<lparr>sk_out := ss\<rparr>)
      | Send_upto n # ss \<Rightarrow>
          (let k = min n (length data)
           in (if k = 0 then None else Some k, sk\<lparr>sk_out := ss, sk_sent := sk_sent sk @ take k data\<rparr>)))"

section \<open>The connection\<close>

definition MAX_LINE_BUFFER :: nat where
  "MAX_LINE_BUFFER = 1024 * 1024"

text \<open>The line at the front of the buffer, without its end, and what stays in the buffer.\<close>

definition take_line :: "nat \<Rightarrow> bytes \<Rightarrow> bytes \<times> bytes" where
  "take_line pos buffer =
     (let line = take pos buffer
      in (if line \<noteq> [] \<and> last line = CHR 0x0D then butlast line else line, drop (pos + 1) buffer))"

text \<open>
  The loop of \<open>readLine\<close>: the line (\<open>None\<close> is the result \<open>false\<close>), the buffer and the
  calls of \<open>recv\<close> that are left.
\<close>

fun readLine_loop :: "recv_result list \<Rightarrow> bytes \<Rightarrow> bytes option \<times> bytes \<times> recv_result list" where
  "readLine_loop rs buffer =
     (case find_char buffer (CHR 0x0A) 0 of
        Some pos \<Rightarrow> (let (line, buffer') = take_line pos buffer in (Some line, buffer', rs))
      | None \<Rightarrow>
          (case rs of
             [] \<Rightarrow> (None, buffer, [])
           | Recv_eintr # rs' \<Rightarrow> readLine_loop rs' buffer
           | Recv_error # rs' \<Rightarrow> (None, buffer, rs')
           | Recv buf # rs' \<Rightarrow>
               if buf = [] then (None, buffer, rs')
               else if length (buffer @ buf) > MAX_LINE_BUFFER then (None, buffer @ buf, rs')
               else readLine_loop rs' (buffer @ buf)))"

definition readLine :: "recv_result list \<Rightarrow> bytes \<Rightarrow> bytes option \<times> bytes \<times> recv_result list" where
  "readLine rs buffer =
     (if length buffer > MAX_LINE_BUFFER then (None, buffer, rs) else readLine_loop rs buffer)"

lemma sock_send_progress: "sock_send data sk = (Some n, sk') \<Longrightarrow> data \<noteq> [] \<Longrightarrow> 0 < n"
  by (auto simp: sock_send_def Let_def split: list.splits send_result.splits if_splits)

text \<open>The loop of \<open>writeResponse\<close> over the bytes that remain.\<close>

function write_loop :: "bytes \<Rightarrow> socket \<Rightarrow> bool \<times> socket" where
  "write_loop data sk =
     (if data = [] then (True, sk)
      else case sock_send data sk of
             (None, sk') \<Rightarrow> (False, sk')
           | (Some n, sk') \<Rightarrow> write_loop (drop n data) sk')"
  by pat_completeness auto

termination
  by (relation "measure (\<lambda>(data, sk). length data)") (auto dest: sock_send_progress [OF sym])

declare write_loop.simps [simp del] readLine_loop.simps [simp del]

definition writeResponse :: "response \<Rightarrow> socket \<Rightarrow> bool \<times> socket" where
  "writeResponse r sk = write_loop (response_serialize r) sk"

text \<open>Bytes and calls that are left to consume; each line that is read consumes some.\<close>

fun recv_weight :: "recv_result list \<Rightarrow> nat" where
  "recv_weight [] = 0"
| "recv_weight (Recv bs # rs) = Suc (length bs + recv_weight rs)"
| "recv_weight (_ # rs) = Suc (recv_weight rs)"

lemma readLine_loop_consumes:
  "readLine_loop rs buffer = (Some line, buffer', rs') \<Longrightarrow>
   recv_weight rs' + length buffer' < recv_weight rs + length buffer"
proof (induction rs buffer rule: readLine_loop.induct)
  case (1 rs buffer)
  show ?case
  proof (cases "find_char buffer (CHR 0x0A) 0")
    case (Some pos)
    with "1.prems" have "rs' = rs" "buffer' = drop (pos + 1) buffer"
      by (auto simp: readLine_loop.simps [of rs buffer] take_line_def Let_def)
    with find_char_SomeD(2) [OF Some] show ?thesis by simp
  next
    case None
    then show ?thesis using "1.prems" "1.IH" [OF None]
      by (auto simp: readLine_loop.simps [of rs buffer] split: list.splits recv_result.splits if_splits)
  qed
qed

lemma readLine_consumes:
  "readLine rs buffer = (Some line, buffer', rs') \<Longrightarrow>
   recv_weight rs' + length buffer' < recv_weight rs + length buffer"
  by (auto simp: readLine_def split: if_splits dest: readLine_loop_consumes)

lemma sock_send_in: "sock_send data sk = (r, sk') \<Longrightarrow> sk_in sk' = sk_in sk"
  by (auto simp: sock_send_def Let_def split: list.splits send_result.splits if_splits)

lemma write_loop_in: "write_loop data sk = (ok, sk') \<Longrightarrow> sk_in sk' = sk_in sk"
proof (induction data sk rule: write_loop.induct)
  case (1 data sk)
  then show ?case
    by (auto simp: write_loop.simps [of data sk] sock_send_in split: if_splits prod.splits option.splits)
qed

text \<open>
  One turn of the loop: the response, whether the client quits, and the executor's state.
  \<open>None\<close> is a command that does not return.
\<close>

type_synonym 's executor = "request \<Rightarrow> 's \<Rightarrow> (response \<times> 's) option"

definition handle_line :: "'s executor \<Rightarrow> bytes \<Rightarrow> 's \<Rightarrow> (response \<times> bool \<times> 's) option" where
  "handle_line exec line st =
     (case pp_parse line of
        None \<Rightarrow> Some (response_error ''INVALID_COMMAND'', False, st)
      | Some req \<Rightarrow> map_option (\<lambda>(r, st'). (r, rq_type req = CT_QUIT, st')) (exec req st))"

function serve :: "'s executor \<Rightarrow> bytes \<Rightarrow> socket \<Rightarrow> 's \<Rightarrow> (socket \<times> 's) option" where
  "serve exec buffer sk st =
     (case readLine (sk_in sk) buffer of
        (None, buffer', rs) \<Rightarrow> Some (sk\<lparr>sk_in := rs\<rparr>, st)
      | (Some line, buffer', rs) \<Rightarrow>
          (case handle_line exec line st of
             None \<Rightarrow> None
           | Some (response, quit, st') \<Rightarrow>
               (case writeResponse response (sk\<lparr>sk_in := rs\<rparr>) of
                  (ok, sk') \<Rightarrow> if quit \<or> \<not> ok then Some (sk', st') else serve exec buffer' sk' st')))"
  by pat_completeness auto
termination
  by (relation "measure (\<lambda>(exec, buffer, sk, st). recv_weight (sk_in sk) + length buffer)")
    (auto simp: writeResponse_def write_loop_in [OF sym] dest: readLine_consumes [OF sym])

declare serve.simps [simp del]

definition welcome_msg :: string where
  "welcome_msg = ''+OK KV-Storage-Engine ready'' @ crlf"

definition handler_run :: "'s executor \<Rightarrow> socket \<Rightarrow> 's \<Rightarrow> (socket \<times> 's) option" where
  "handler_run exec sk st = serve exec [] (snd (sock_send welcome_msg sk)) st"

section \<open>What a session does\<close>

text \<open>
  The specification: the input is one sequence of bytes, cut into lines; each line is
  answered in turn until the client quits.
\<close>

function lines_of :: "bytes \<Rightarrow> bytes list" where
  "lines_of bs =
     (case find_char bs (CHR 0x0A) 0 of
        None \<Rightarrow> []
      | Some pos \<Rightarrow> fst (take_line pos bs) # lines_of (snd (take_line pos bs)))"
  by pat_completeness auto
termination
  by (relation "measure length") (auto simp: take_line_def Let_def dest!: find_char_SomeD(2))

declare lines_of.simps [simp del]

fun answers :: "'s executor \<Rightarrow> bytes list \<Rightarrow> 's \<Rightarrow> (response list \<times> 's) option" where
  "answers exec [] st = Some ([], st)"
| "answers exec (line # lines) st =
     (case handle_line exec line st of
        None \<Rightarrow> None
      | Some (r, quit, st') \<Rightarrow>
          if quit then Some ([r], st')
          else map_option (\<lambda>(rs, st''). (r # rs, st'')) (answers exec lines st'))"

text \<open>What was sent, and the state of the executor.\<close>

definition outcome :: "(socket \<times> 's) option \<Rightarrow> (bytes \<times> 's) option" where
  "outcome r = map_option (\<lambda>(sk, st). (sk_sent sk, st)) r"

definition answer_bytes :: "bytes \<Rightarrow> (response list \<times> 's) option \<Rightarrow> (bytes \<times> 's) option" where
  "answer_bytes before r = map_option (\<lambda>(rs, st). (before @ concat (map response_serialize rs), st)) r"

lemma answer_bytes_Cons:
  "answer_bytes before (map_option (\<lambda>(rs, st). (r # rs, st)) a) = answer_bytes (before @ response_serialize r) a"
  by (cases a) (auto simp: answer_bytes_def)

primrec delivered :: "recv_result \<Rightarrow> bytes" where
  "delivered (Recv bs) = bs"
| "delivered Recv_eintr = []"
| "delivered Recv_error = []"

definition received :: "recv_result list \<Rightarrow> bytes" where
  "received rs = concat (map delivered rs)"

text \<open>The peer sends without a failure, and less than the handler buffers.\<close>

definition recv_fine :: "recv_result \<Rightarrow> bool" where
  "recv_fine r \<longleftrightarrow> r \<noteq> Recv_error \<and> r \<noteq> Recv []"

definition send_fine :: "send_result \<Rightarrow> bool" where
  "send_fine s \<longleftrightarrow> s \<noteq> Send_fail \<and> s \<noteq> Send_upto 0"

lemma received_simps [simp]:
  "received [] = []" "received (r # rs) = delivered r @ received rs"
  by (simp_all add: received_def)

lemma take_line_extend:
  "pos < length bs \<Longrightarrow> take_line pos (bs @ ys) = (fst (take_line pos bs), snd (take_line pos bs) @ ys)"
  by (simp add: take_line_def Let_def)

text \<open>What \<open>readLine\<close> delivers is the first line of the buffer and all that is still to come.\<close>

lemma readLine_loop_line:
  assumes "list_all recv_fine rs" "length buffer + length (received rs) \<le> MAX_LINE_BUFFER"
  shows "case find_char (buffer @ received rs) (CHR 0x0A) 0 of
       None \<Rightarrow> fst (readLine_loop rs buffer) = None
     | Some pos \<Rightarrow> \<exists>buffer' rs'. readLine_loop rs buffer = (Some (fst (take_line pos (buffer @ received rs))), buffer', rs')
         \<and> buffer' @ received rs' = snd (take_line pos (buffer @ received rs)) \<and> list_all recv_fine rs'"
  using assms
proof (induction rs buffer rule: readLine_loop.induct)
  case (1 rs buffer)
  show ?case
  proof (cases "find_char buffer (CHR 0x0A) 0")
    case (Some pos)
    note d = find_char_SomeD(2) [OF Some]
    show ?thesis
      using "1.prems" d
      by (simp add: find_char_extend [OF Some, THEN conjunct1] take_line_extend [OF d] readLine_loop.simps [of rs buffer] Some
          split: prod.splits)
  next
    case None
    show ?thesis
    proof (cases rs)
      case Nil
      with None show ?thesis by (simp add: readLine_loop.simps [of "[]" buffer])
    next
      case (Cons r rs')
      show ?thesis
      proof (cases r)
        case (Recv buf)
        have "\<not> length (buffer @ buf) > MAX_LINE_BUFFER" "buf \<noteq> []"
          using "1.prems" Cons Recv by (auto simp: recv_fine_def)
        then have eq: "readLine_loop rs buffer = readLine_loop rs' (buffer @ buf)"
            "buffer @ received rs = (buffer @ buf) @ received rs'"
          using Cons Recv None by (simp_all add: readLine_loop.simps [of "Recv buf # rs'" buffer] not_less)
        have "list_all recv_fine rs'" "length (buffer @ buf) + length (received rs') \<le> MAX_LINE_BUFFER"
          using "1.prems" Cons Recv by simp_all
        then show ?thesis
          using \<open>\<not> length (buffer @ buf) > MAX_LINE_BUFFER\<close> \<open>buf \<noteq> []\<close>
          unfolding eq by (intro "1.IH"(1) [OF None Cons Recv]) simp_all
      next
        case Recv_eintr
        then have eq: "readLine_loop rs buffer = readLine_loop rs' buffer" "received rs = received rs'"
          using Cons None by (simp_all add: readLine_loop.simps [of "Recv_eintr # rs'" buffer])
        show ?thesis
          using "1.prems" Cons eq(2) unfolding eq by (intro "1.IH"(2) [OF None Cons Recv_eintr]) simp_all
      next
        case Recv_error
        with "1.prems" Cons show ?thesis by (simp add: recv_fine_def)
      qed
    qed
  qed
qed

lemma sock_send_fine:
  assumes "list_all send_fine (sk_out sk)" "data \<noteq> []"
  obtains n sk' where "sock_send data sk = (Some n, sk')" "list_all send_fine (sk_out sk')"
    "sk_sent sk' = sk_sent sk @ take n data"
  using assms
  by (cases "sk_out sk"; cases "hd (sk_out sk)") (auto simp: sock_send_def Let_def send_fine_def)

text \<open>Whatever pieces the socket accepts, a response is sent once and completely.\<close>

lemma write_loop_fine:
  assumes "list_all send_fine (sk_out sk)"
  shows "\<exists>sk'. write_loop data sk = (True, sk') \<and> list_all send_fine (sk_out sk') \<and> sk_sent sk' = sk_sent sk @ data"
  using assms
proof (induction data sk rule: write_loop.induct)
  case (1 data sk)
  show ?case
  proof (cases "data = []")
    case True
    with "1.prems" show ?thesis by (simp add: write_loop.simps [of "[]" sk])
  next
    case False
    obtain n sk' where s: "sock_send data sk = (Some n, sk')" "list_all send_fine (sk_out sk')"
        "sk_sent sk' = sk_sent sk @ take n data"
      using sock_send_fine [OF "1.prems" False] .
    have "write_loop data sk = write_loop (drop n data) sk'"
      using False s(1) by (simp add: write_loop.simps [of data sk])
    moreover have "\<exists>sk''. write_loop (drop n data) sk' = (True, sk'') \<and> list_all send_fine (sk_out sk'')
        \<and> sk_sent sk'' = sk_sent sk' @ drop n data"
      using s by (intro "1.IH" [OF False s(1) [symmetric] refl]) auto
    ultimately show ?thesis using s(3) by auto
  qed
qed

lemma writeResponse_fine:
  assumes "list_all send_fine (sk_out sk)"
  obtains sk' where "writeResponse r sk = (True, sk')" "list_all send_fine (sk_out sk')"
    "sk_sent sk' = sk_sent sk @ response_serialize r" "sk_in sk' = sk_in sk"
  using write_loop_fine [OF assms, of "response_serialize r"] write_loop_in
  unfolding writeResponse_def by blast

lemma serve_session:
  assumes "list_all recv_fine (sk_in sk)" "list_all send_fine (sk_out sk)"
    and "length buffer + length (received (sk_in sk)) \<le> MAX_LINE_BUFFER"
  shows "outcome (serve exec buffer sk st) = answer_bytes (sk_sent sk) (answers exec (lines_of (buffer @ received (sk_in sk))) st)"
  using assms
proof (induction exec buffer sk st rule: serve.induct)
  case (1 exec buffer sk st)
  let ?bs = "buffer @ received (sk_in sk)"
  have rl: "readLine (sk_in sk) buffer = readLine_loop (sk_in sk) buffer"
    using "1.prems" by (simp add: readLine_def)
  note line = readLine_loop_line [OF "1.prems"(1,3)]
  show ?case
  proof (cases "find_char ?bs (CHR 0x0A) 0")
    case None
    with line rl show ?thesis
      by (auto simp: serve.simps [of exec buffer sk st] lines_of.simps [of ?bs] outcome_def answer_bytes_def split: prod.splits)
  next
    case (Some pos)
    with line obtain buffer' rs' where l: "readLine (sk_in sk) buffer = (Some (fst (take_line pos ?bs)), buffer', rs')"
        "buffer' @ received rs' = snd (take_line pos ?bs)" "list_all recv_fine rs'"
      by (auto simp: rl)
    have ls: "lines_of ?bs = fst (take_line pos ?bs) # lines_of (buffer' @ received rs')"
      using Some l(2) by (simp add: lines_of.simps [of ?bs])
    show ?thesis
    proof (cases "handle_line exec (fst (take_line pos ?bs)) st")
      case None
      then show ?thesis by (simp add: serve.simps [of exec buffer sk st] l(1) ls outcome_def answer_bytes_def)
    next
      case h: (Some x)
      obtain r quit st' where x: "x = (r, quit, st')" by (cases x)
      obtain sk' where w: "writeResponse r (sk\<lparr>sk_in := rs'\<rparr>) = (True, sk')" "list_all send_fine (sk_out sk')"
          "sk_sent sk' = sk_sent sk @ response_serialize r" "sk_in sk' = rs'"
        using "1.prems"(2) writeResponse_fine [of "sk\<lparr>sk_in := rs'\<rparr>" r] by auto
      have sv: "serve exec buffer sk st = (if quit then Some (sk', st') else serve exec buffer' sk' st')"
        by (simp add: serve.simps [of exec buffer sk st] l(1) h x w(1))
      have "length (buffer' @ received rs') \<le> length ?bs" unfolding l(2) by (simp add: take_line_def Let_def)
      then have len: "length buffer' + length (received (sk_in sk')) \<le> MAX_LINE_BUFFER"
        using "1.prems"(3) w(4) by simp
      show ?thesis
      proof (cases quit)
        case True
        then show ?thesis by (simp add: sv ls h x w(3) outcome_def answer_bytes_def)
      next
        case False
        have "outcome (serve exec buffer' sk' st') = answer_bytes (sk_sent sk') (answers exec (lines_of (buffer' @ received (sk_in sk'))) st')"
          using False l w len
          by (intro "1.IH" [OF l(1) [symmetric] refl refl _ refl refl w(1) [symmetric]]) (simp_all add: h x)
        then show ?thesis using False w(3,4) by (simp add: sv ls h x answer_bytes_Cons)
      qed
    qed
  qed
qed

lemma handler_run_session:
  assumes "list_all recv_fine (sk_in sk)" "list_all send_fine (sk_out sk)"
    and "case sk_out sk of [] \<Rightarrow> True | s # _ \<Rightarrow> \<exists>n \<ge> length welcome_msg. s = Send_upto n"
    and "length (received (sk_in sk)) \<le> MAX_LINE_BUFFER" "sk_sent sk = []"
  shows "outcome (handler_run exec sk st) = answer_bytes welcome_msg (answers exec (lines_of (received (sk_in sk))) st)"
proof -
  define sk1 where "sk1 = snd (sock_send welcome_msg sk)"
  have "sk_in sk1 = sk_in sk" unfolding sk1_def by (metis sock_send_in surjective_pairing)
  moreover have "sk_sent sk1 = welcome_msg" "list_all send_fine (sk_out sk1)"
    using assms by (auto simp: sk1_def sock_send_def Let_def min_def split: list.splits)
  ultimately show ?thesis
    using serve_session [of sk1 "[]" exec st] assms(1,4) by (simp add: handler_run_def sk1_def [symmetric])
qed


definition echo_executor :: "nat executor" where
  "echo_executor req n = Some (if rq_type req = CT_QUIT then response_ok ''BYE'' else okWithValue (rq_value req), n + 1)"

definition torn_socket :: socket where
  "torn_socket = \<lparr>sk_in = [Recv ''PUT k h'', Recv_eintr, Recv (''i'' @ crlf @ ''QU''), Recv (''IT'' @ crlf @ ''GET'')],
     sk_out = [Send_upto 100, Send_upto 3], sk_sent = []\<rparr>"


text \<open>
  The memory of a connection is bounded.  Whatever the peer sends, in deliveries of at
  most the 4096 bytes of the receive buffer, the line buffer never exceeds the limit by more
  than one delivery, and after a line was returned it is within the limit.
\<close>

lemma readLine_buffer_bounded:
  assumes "\<forall>r \<in> set rs. length (delivered r) \<le> 4096" "length buffer \<le> MAX_LINE_BUFFER"
    and "readLine rs buffer = (result, buffer', rs')"
  shows "length buffer' \<le> MAX_LINE_BUFFER + 4096 \<and> (result \<noteq> None \<longrightarrow> length buffer' \<le> MAX_LINE_BUFFER)"
proof -
  have "readLine_loop rs buffer = (result, buffer', rs')" using assms(2,3) by (simp add: readLine_def)
  with assms(1,2) show ?thesis
  proof (induction rs buffer rule: readLine_loop.induct)
    case (1 rs buffer)
    show ?case
    proof (cases "find_char buffer (CHR 0x0A) 0")
      case (Some pos)
      with 1 show ?thesis by (auto simp: readLine_loop.simps [of rs buffer] take_line_def Let_def)
    next
      case None
      show ?thesis using "1.prems" "1.IH" [OF None]
        by (auto simp: readLine_loop.simps [of rs buffer] None split: list.splits recv_result.splits if_splits)
    qed
  qed
qed

lemma readLine_buffer_bounded_example:
  "readLine [Recv ''a'', Recv (CHR ''b'' # CHR 0x0A # ''cd'')] ''x'' = (Some ''xab'', ''cd'', [])
   \<and> length ''cd'' \<le> MAX_LINE_BUFFER"
proof -
  have "readLine [Recv ''a'', Recv (CHR ''b'' # CHR 0x0A # ''cd'')] ''x'' = (Some ''xab'', ''cd'', [])"
    by (simp add: readLine_def readLine_loop.simps find_char_def take_line_def MAX_LINE_BUFFER_def)
  moreover from readLine_buffer_bounded [OF _ _ this] have "length ''cd'' \<le> MAX_LINE_BUFFER"
    by (simp add: MAX_LINE_BUFFER_def)
  ultimately show ?thesis ..
qed

section \<open>Parsing what a client prints\<close>

text \<open>How a client writes a request, with single spaces between the words.\<close>

fun print_request :: "request \<Rightarrow> string" where
  "print_request r =
     (case rq_type r of
        CT_PUT \<Rightarrow> ''PUT '' @ rq_key r @ '' '' @ rq_value r
      | CT_GET \<Rightarrow> ''GET '' @ rq_key r
      | CT_DELETE \<Rightarrow> ''DELETE '' @ rq_key r
      | CT_PING \<Rightarrow> ''PING''
      | CT_QUIT \<Rightarrow> ''QUIT''
      | _ \<Rightarrow> ''STATUS'')"

definition word_ok :: "string \<Rightarrow> bool" where
  "word_ok s \<longleftrightarrow> s \<noteq> [] \<and> hd s \<notin> set blanks \<and> last s \<notin> set blanks"

text \<open>The requests a client can express: a key of one word for a put, no blanks at the ends.\<close>

definition client_request_ok :: "request \<Rightarrow> bool" where
  "client_request_ok r \<longleftrightarrow>
     (case rq_type r of
        CT_PUT \<Rightarrow> word_ok (rq_key r) \<and> CHR 0x20 \<notin> set (rq_key r) \<and> word_ok (rq_value r)
      | CT_GET \<Rightarrow> word_ok (rq_key r) \<and> rq_value r = []
      | CT_DELETE \<Rightarrow> word_ok (rq_key r) \<and> rq_value r = []
      | CT_STATUS \<Rightarrow> False
      | CT_UNKNOWN \<Rightarrow> False
      | _ \<Rightarrow> rq_key r = [] \<and> rq_value r = [])"

lemma pp_trim_strip: "pp_trim s = strip blanks s"
  unfolding pp_trim_def by (rule find_not_of_strip)

lemma pp_trim_word: "word_ok s \<Longrightarrow> pp_trim s = s"
  by (simp add: pp_trim_strip strip_id word_ok_def)

lemma pp_trim_words:
  "word_ok s \<Longrightarrow> w \<noteq> [] \<Longrightarrow> hd w \<notin> set blanks \<Longrightarrow> pp_trim (w @ s) = w @ s"
  by (intro pp_trim_word) (auto simp: word_ok_def)

lemma find_space: "CHR 0x20 \<notin> set w \<Longrightarrow> find_char (w @ CHR 0x20 # s) (CHR 0x20) 0 = Some (length w)"
  using find_char_append [of "[]" 0 "CHR 0x20" w s] by simp

lemma pp_parse_word:
  assumes "w \<noteq> []" "CHR 0x20 \<notin> set w" "hd w \<notin> set blanks" "word_ok rest"
  shows "find_char (pp_trim (w @ '' '' @ rest)) (CHR 0x20) 0 = Some (length w)"
    and "pp_trim (w @ '' '' @ rest) = w @ '' '' @ rest"
proof -
  show "pp_trim (w @ '' '' @ rest) = w @ '' '' @ rest"
    using assms pp_trim_words [of rest "w @ '' ''"] by simp
  then show "find_char (pp_trim (w @ '' '' @ rest)) (CHR 0x20) 0 = Some (length w)"
    using assms(2) find_space by simp
qed

text \<open>
  Every request a client can express is understood.  Printing a request and parsing
  the line gives the request back; the value of a put may contain spaces.
\<close>

lemma parse_print_request:
  assumes "client_request_ok r"
  shows "pp_parse (print_request r) = Some r"
proof -
  note [simp] = pp_parse_def pp_parseCommand_def client_request_ok_def cpp_toupper_def
  have b: "CHR ''P'' \<notin> set blanks" "CHR ''G'' \<notin> set blanks" "CHR ''D'' \<notin> set blanks" "CHR ''Q'' \<notin> set blanks"
      "CHR ''T'' \<notin> set blanks" "CHR ''G'' \<notin> set blanks"
    by (simp_all add: blanks_def)
  have p: "pp_trim ''PING'' = ''PING''" "pp_trim ''QUIT'' = ''QUIT''"
    using b by (simp_all add: pp_trim_word word_ok_def)
  show ?thesis
  proof (cases "rq_type r")
    case CT_PUT
    with assms have k: "word_ok (rq_key r)" "CHR 0x20 \<notin> set (rq_key r)" "word_ok (rq_value r)" by simp_all
    have w: "word_ok (rq_key r @ '' '' @ rq_value r)" using k by (simp add: word_ok_def)
    note h = pp_parse_word [OF _ _ _ w, of "''PUT''"]
    have "rq_key r \<noteq> []" "rq_value r \<noteq> []" using k by (auto simp: word_ok_def)
    then show ?thesis
      using CT_PUT h b k w pp_trim_word [OF w] pp_trim_word [OF k(3)] find_space [OF k(2)]
      by (cases r) simp
  next
    case CT_GET
    with assms have k: "word_ok (rq_key r)" "rq_value r = []" by simp_all
    have "rq_key r \<noteq> []" using k by (auto simp: word_ok_def)
    then show ?thesis
      using CT_GET k b pp_parse_word [OF _ _ _ k(1), of "''GET''"] pp_trim_word [OF k(1)] by (cases r) simp
  next
    case CT_DELETE
    with assms have k: "word_ok (rq_key r)" "rq_value r = []" by simp_all
    have "rq_key r \<noteq> []" using k by (auto simp: word_ok_def)
    then show ?thesis
      using CT_DELETE k b pp_parse_word [OF _ _ _ k(1), of "''DELETE''"] pp_trim_word [OF k(1)] by (cases r) simp
  qed (use assms p in \<open>(cases r; simp add: find_char_def)+\<close>)
qed

lemma parse_print_request_example:
  "pp_parse ''PUT k two words'' = Some \<lparr>rq_type = CT_PUT, rq_key = ''k'', rq_value = ''two words''\<rparr>"
  using parse_print_request [of "\<lparr>rq_type = CT_PUT, rq_key = ''k'', rq_value = ''two words''\<rparr>"]
  by (simp add: client_request_ok_def word_ok_def blanks_def)

text \<open>
  No line a client sends is parsed as the status command, although the server implements
  it and the documentation lists it.
\<close>

lemma status_never_parsed: "\<forall>line r. pp_parse line = Some r \<longrightarrow> rq_type r \<noteq> CT_STATUS"
proof -
  have "pp_parseCommand w \<noteq> CT_STATUS" for w by (simp add: pp_parseCommand_def Let_def)
  then have "rq_type r \<noteq> CT_STATUS" if "pp_parse line = Some r" for line r
    using that unfolding pp_parse_def Let_def by (auto split: if_split_asm option.split_asm command_type.split_asm)
  then show ?thesis by blast
qed

lemma status_never_parsed_example:
  "pp_parse ''STATUS'' = Some \<lparr>rq_type = CT_UNKNOWN, rq_key = [], rq_value = []\<rparr>
   \<and> rq_type \<lparr>rq_type = CT_UNKNOWN, rq_key = [], rq_value = []\<rparr> \<noteq> CT_STATUS"
proof -
  have "pp_parse ''STATUS'' = Some \<lparr>rq_type = CT_UNKNOWN, rq_key = [], rq_value = []\<rparr>"
    by (simp add: pp_parse_def pp_parseCommand_def pp_trim_def find_first_not_of_def find_last_not_of_def
        blanks_def find_char_def cpp_toupper_def numeral_eq_Suc)
  with status_never_parsed show ?thesis by blast
qed

end
