(* ===== verification/Log_Entries.thy ===== *)
theory Log_Entries
  imports CPP_Strings
begin

text \<open>
  The messages of the replication layer (\<open>distributed/include/replication_types.h\<close>,
  \<open>distributed/replication/log_entry.cpp\<close>): log entries and replication messages, their
  text form and the parser of it.  Positions are \<open>size_t\<close>, so a length read from the
  message can make them wrap around.
\<close>

type_synonym uint16 = "16 word"

datatype node_role = Role_LEADER | Role_FOLLOWER

text \<open>The enumeration has the underlying type \<open>uint8_t\<close>; other values come from a cast.\<close>

datatype replication_op = Rop_PUT | Rop_DELETE | Rop_RAW "8 word"

definition byte_of_rop :: "replication_op \<Rightarrow> 8 word" where
  "byte_of_rop op = (case op of Rop_PUT \<Rightarrow> 1 | Rop_DELETE \<Rightarrow> 2 | Rop_RAW b \<Rightarrow> b)"

definition rop_of_int :: "int \<Rightarrow> replication_op" where
  "rop_of_int i =
     (let b = word_of_int i in if b = 1 then Rop_PUT else if b = 2 then Rop_DELETE else Rop_RAW b)"

record log_entry =
  lg_term :: uint64
  lg_index :: uint64
  lg_op :: replication_op
  lg_key :: string
  lg_value :: string

record replication_message =
  rm_term :: uint64
  rm_leader_commit :: uint64
  rm_entries :: "log_entry list"

record peer_info =
  peer_host :: string
  peer_port :: uint16
  peer_socket_fd :: int
  peer_connected :: bool

record replication_config =
  rc_node_id :: uint32
  rc_role :: node_role
  rc_host :: string
  rc_replication_port :: uint16
  rc_peers :: "peer_info list"

section \<open>Printing\<close>

definition bar :: string where
  "bar = ''|''"

definition log_entry_serialize :: "log_entry \<Rightarrow> string" where
  "log_entry_serialize e =
     to_string (unat (lg_term e)) @ bar @ to_string (unat (lg_index e)) @ bar
     @ to_string (unat (byte_of_rop (lg_op e))) @ bar
     @ to_string (length (lg_key e)) @ bar @ lg_key e @ bar
     @ to_string (length (lg_value e)) @ bar @ lg_value e"

definition message_serialize :: "replication_message \<Rightarrow> string" where
  "message_serialize msg =
     to_string (unat (rm_term msg)) @ bar @ to_string (unat (rm_leader_commit msg)) @ bar
     @ to_string (length (rm_entries msg))
     @ concat (map (\<lambda>e. let serialized = log_entry_serialize e
                         in bar @ to_string (length serialized) @ bar @ serialized) (rm_entries msg))"

section \<open>Parsing\<close>

text \<open>The closure \<open>nextToken\<close>: the token and the new position.\<close>

definition next_token :: "(uint64 \<Rightarrow> string) \<Rightarrow> string \<Rightarrow> uint64 \<Rightarrow> kv_error + string \<times> uint64" where
  "next_token err data pos =
     (case find_char data (CHR ''|'') (unat pos) of
        None \<Rightarrow> Inl (RuntimeError (err pos))
      | Some delim \<Rightarrow>
          sum_bind (substr data (unat pos) (delim - unat pos)) (\<lambda>token. Inr (token, word_of_nat (delim + 1))))"

definition entry_error :: "uint64 \<Rightarrow> string" where
  "entry_error pos = ''Malformed log entry: delimiter not found at pos '' @ to_string (unat pos)"

definition log_entry_deserialize :: "string \<Rightarrow> kv_error + log_entry" where
  "log_entry_deserialize data =
     sum_bind (next_token entry_error data 0) (\<lambda>(termStr, p1).
     sum_bind (next_token entry_error data p1) (\<lambda>(indexStr, p2).
     sum_bind (next_token entry_error data p2) (\<lambda>(opStr, p3).
     sum_bind (stoull termStr) (\<lambda>trm.
     sum_bind (stoull indexStr) (\<lambda>idx.
     sum_bind (stoi opStr) (\<lambda>op.
     sum_bind (next_token entry_error data p3) (\<lambda>(keyLenStr, p4).
     sum_bind (stoull keyLenStr) (\<lambda>keyLen.
     sum_bind (substr data (unat p4) (unat keyLen)) (\<lambda>key.
     sum_bind (next_token entry_error data (p4 + (keyLen + 1))) (\<lambda>(valueLenStr, p5).
     sum_bind (stoull valueLenStr) (\<lambda>valueLen.
     sum_bind (substr data (unat p5) (unat valueLen)) (\<lambda>val.
       Inr \<lparr>lg_term = trm, lg_index = idx, lg_op = rop_of_int op, lg_key = key, lg_value = val\<rparr>))))))))))))"

definition message_error :: "uint64 \<Rightarrow> string" where
  "message_error pos = ''Malformed replication message: delimiter not found''"

text \<open>The loop over the entries; the bound is a \<open>size_t\<close>, the loop ends at the first entry that fails.\<close>

fun read_entries :: "nat \<Rightarrow> string \<Rightarrow> uint64 \<Rightarrow> kv_error + log_entry list" where
  "read_entries 0 data pos = Inr []"
| "read_entries (Suc n) data pos =
     sum_bind (next_token message_error data pos) (\<lambda>(lenStr, p1).
     sum_bind (stoull lenStr) (\<lambda>entryLen.
     sum_bind (substr data (unat p1) (unat entryLen)) (\<lambda>entryData.
     sum_bind (log_entry_deserialize entryData) (\<lambda>entry.
     sum_bind (read_entries n data (p1 + (entryLen + 1))) (\<lambda>entries. Inr (entry # entries))))))"

definition message_deserialize :: "string \<Rightarrow> kv_error + replication_message" where
  "message_deserialize data =
     sum_bind (next_token message_error data 0) (\<lambda>(termStr, p1).
     sum_bind (stoull termStr) (\<lambda>trm.
     sum_bind (next_token message_error data p1) (\<lambda>(commitStr, p2).
     sum_bind (stoull commitStr) (\<lambda>commit.
     sum_bind (next_token message_error data p2) (\<lambda>(numStr, p3).
     sum_bind (stoull numStr) (\<lambda>numEntries.
     sum_bind (read_entries (unat numEntries) data p3) (\<lambda>entries.
       Inr \<lparr>rm_term = trm, rm_leader_commit = commit, rm_entries = entries\<rparr>)))))))"

section \<open>Round trips\<close>

lemma numeral_no_bar: "CHR ''|'' \<notin> set (to_string n)"
  using to_string_digits [of "CHR ''|''" n] by (auto simp: is_digit_def)

lemma numeral_bar_stoull: "n < 2 ^ 64 \<Longrightarrow> stoull (to_string n) = Inr (word_of_nat n)"
  using stoull_to_string [of n "[]"] by simp

text \<open>The state of the parser: the text that is left after the position.\<close>

definition at_rest :: "string \<Rightarrow> uint64 \<Rightarrow> string \<Rightarrow> bool" where
  "at_rest data pos rest \<longleftrightarrow> length data < 2 ^ 64 \<and> unat pos \<le> length data \<and> drop (unat pos) data = rest"

lemma at_rest_start: "length data < 2 ^ 64 \<Longrightarrow> at_rest data 0 data"
  by (simp add: at_rest_def)

lemma at_rest_advance:
  assumes "at_rest data pos (xs @ ys)" "n = word_of_nat (length xs)"
  shows "at_rest data (pos + n) ys"
proof -
  have l: "length data = unat pos + length xs + length ys"
    using assms(1) length_drop [of "unat pos" data] by (auto simp: at_rest_def)
  have "length data < 2 ^ 64" using assms(1) by (simp add: at_rest_def)
  then have u: "unat (pos + n) = unat pos + length xs"
    using l assms(2) by (simp add: unat_word_ariths unat_of_nat)
  have "drop (length xs) (drop (unat pos) data) = ys" using assms(1) by (simp add: at_rest_def)
  then show ?thesis using assms(1) l u by (simp add: at_rest_def add.commute)
qed

lemma at_rest_length: "at_rest data pos xs \<Longrightarrow> length xs < 2 ^ 64"
  by (auto simp: at_rest_def)

lemma next_token_at:
  assumes "at_rest data pos (tok @ bar @ rest)" "CHR ''|'' \<notin> set tok"
  obtains p where "next_token err data pos = Inr (tok, p)" "at_rest data p rest"
proof
  have d: "data = take (unat pos) data @ tok @ CHR ''|'' # rest"
    using assms(1) append_take_drop_id [of "unat pos" data] by (simp add: at_rest_def bar_def)
  have l: "length (take (unat pos) data) = unat pos" using assms(1) by (simp add: at_rest_def)
  have "find_char data (CHR ''|'') (unat pos) = Some (unat pos + length tok)"
    using find_char_append [OF l assms(2)] d by metis
  then show "next_token err data pos = Inr (tok, word_of_nat (unat pos + length tok + 1))"
    using assms(1) by (simp add: next_token_def substr_def at_rest_def)
  have "at_rest data (pos + word_of_nat (length (tok @ bar))) rest"
    using assms(1) by (intro at_rest_advance [of data pos "tok @ bar"]) simp_all
  then show "at_rest data (word_of_nat (unat pos + length tok + 1)) rest" by (simp add: bar_def algebra_simps)
qed

lemma substr_at:
  assumes "at_rest data pos (xs @ rest)" "n = length xs"
  shows "substr data (unat pos) n = Inr xs"
  using assms by (simp add: at_rest_def substr_def)

definition named_rop :: "replication_op \<Rightarrow> bool" where
  "named_rop op \<longleftrightarrow> op = Rop_PUT \<or> op = Rop_DELETE"

lemma rop_roundtrip: "named_rop op \<Longrightarrow> rop_of_int (uint (byte_of_rop op)) = op"
  by (auto simp: named_rop_def rop_of_int_def byte_of_rop_def)

lemma byte_of_rop_small: "unat (byte_of_rop op) < 2 ^ 31"
  using unsigned_less [of "byte_of_rop op", where ?'a = nat] by simp

lemma numeral_bar_stoull64: "stoull (to_string (unat (w :: uint64))) = Inr w"
  by (rule stoull_to_string_u64)

lemma log_entry_roundtrip:
  assumes "named_rop (lg_op e)" "length (log_entry_serialize e) < 2 ^ 64"
  shows "log_entry_deserialize (log_entry_serialize e) = Inr e"
proof -
  let ?d = "log_entry_serialize e"
  have len: "length (lg_key e) < 2 ^ 64" "length (lg_value e) < 2 ^ 64"
    using assms(2) by (simp_all add: log_entry_serialize_def)
  have "at_rest ?d 0 (to_string (unat (lg_term e)) @ bar @ to_string (unat (lg_index e)) @ bar
     @ to_string (unat (byte_of_rop (lg_op e))) @ bar
     @ to_string (length (lg_key e)) @ bar @ lg_key e @ bar
     @ to_string (length (lg_value e)) @ bar @ lg_value e)"
    using at_rest_start [OF assms(2)] by (simp only: log_entry_serialize_def)
  from next_token_at [OF this numeral_no_bar, of entry_error] obtain p1 where
    t1: "next_token entry_error ?d 0 = Inr (to_string (unat (lg_term e)), p1)" and
    r1: "at_rest ?d p1 (to_string (unat (lg_index e)) @ bar @ to_string (unat (byte_of_rop (lg_op e))) @ bar
     @ to_string (length (lg_key e)) @ bar @ lg_key e @ bar @ to_string (length (lg_value e)) @ bar @ lg_value e)" .
  from next_token_at [OF r1 numeral_no_bar, of entry_error] obtain p2 where
    t2: "next_token entry_error ?d p1 = Inr (to_string (unat (lg_index e)), p2)" and
    r2: "at_rest ?d p2 (to_string (unat (byte_of_rop (lg_op e))) @ bar
     @ to_string (length (lg_key e)) @ bar @ lg_key e @ bar @ to_string (length (lg_value e)) @ bar @ lg_value e)" .
  from next_token_at [OF r2 numeral_no_bar, of entry_error] obtain p3 where
    t3: "next_token entry_error ?d p2 = Inr (to_string (unat (byte_of_rop (lg_op e))), p3)" and
    r3: "at_rest ?d p3 (to_string (length (lg_key e)) @ bar @ lg_key e @ bar @ to_string (length (lg_value e)) @ bar @ lg_value e)" .
  from next_token_at [OF r3 numeral_no_bar, of entry_error] obtain p4 where
    t4: "next_token entry_error ?d p3 = Inr (to_string (length (lg_key e)), p4)" and
    r4: "at_rest ?d p4 (lg_key e @ bar @ to_string (length (lg_value e)) @ bar @ lg_value e)" .
  have k: "substr ?d (unat p4) (unat (word_of_nat (length (lg_key e)) :: uint64)) = Inr (lg_key e)"
    using len(1) by (intro substr_at [OF r4]) (simp add: unat_of_nat)
  have r4': "at_rest ?d p4 ((lg_key e @ bar) @ to_string (length (lg_value e)) @ bar @ lg_value e)" using r4 by simp
  have r5: "at_rest ?d (p4 + (word_of_nat (length (lg_key e)) + 1)) (to_string (length (lg_value e)) @ bar @ lg_value e)"
    by (rule at_rest_advance [OF r4']) (simp add: bar_def)
  from next_token_at [OF this numeral_no_bar, of entry_error] obtain p5 where
    t5: "next_token entry_error ?d (p4 + (word_of_nat (length (lg_key e)) + 1)) = Inr (to_string (length (lg_value e)), p5)" and
    r6: "at_rest ?d p5 (lg_value e)" .
  have v: "substr ?d (unat p5) (unat (word_of_nat (length (lg_value e)) :: uint64)) = Inr (lg_value e)"
    using len(2) r6 by (intro substr_at [of _ _ _ "[]"]) (simp_all add: unat_of_nat)
  have "stoi (to_string (unat (byte_of_rop (lg_op e)))) = Inr (int (unat (byte_of_rop (lg_op e))))"
    by (rule stoi_to_string [OF byte_of_rop_small])
  then show ?thesis
    using t1 t2 t3 t4 t5 k v len assms(1)
    by (cases e) (simp add: log_entry_deserialize_def numeral_bar_stoull64 numeral_bar_stoull rop_roundtrip)
qed

definition entries_text :: "log_entry list \<Rightarrow> string" where
  "entries_text es =
     concat (map (\<lambda>e. bar @ to_string (length (log_entry_serialize e)) @ bar @ log_entry_serialize e) es)"

lemma read_entries_back:
  assumes "at_rest data pos (tl (entries_text (e # es)))"
    and "list_all (\<lambda>e. named_rop (lg_op e)) (e # es)"
  shows "read_entries (length (e # es)) data pos = Inr (e # es)"
  using assms
proof (induction es arbitrary: e pos)
  case (Cons f fs)
  let ?s = "log_entry_serialize e"
  have "at_rest data pos (to_string (length ?s) @ bar @ (?s @ bar) @ tl (entries_text (f # fs)))"
    using Cons.prems(1) by (simp add: entries_text_def bar_def)
  from next_token_at [OF this numeral_no_bar, of message_error] obtain p where
    t: "next_token message_error data pos = Inr (to_string (length ?s), p)" and
    r: "at_rest data p ((?s @ bar) @ tl (entries_text (f # fs)))" .
  have len: "length ?s < 2 ^ 64" using at_rest_length [OF r] by simp
  have s: "substr data (unat p) (unat (word_of_nat (length ?s) :: uint64)) = Inr ?s"
    using r len by (intro substr_at [of _ _ _ "bar @ tl (entries_text (f # fs))"]) (simp_all add: unat_of_nat)
  have "at_rest data (p + (word_of_nat (length ?s) + 1)) (tl (entries_text (f # fs)))"
    by (rule at_rest_advance [OF r]) (simp add: bar_def)
  then have "read_entries (length (f # fs)) data (p + (word_of_nat (length ?s) + 1)) = Inr (f # fs)"
    using Cons by simp
  then show ?case
    using t s len Cons.prems(2) log_entry_roundtrip [OF _ len] by (simp add: numeral_bar_stoull)
next
  case Nil
  let ?s = "log_entry_serialize e"
  have "at_rest data pos (to_string (length ?s) @ bar @ ?s)"
    using Nil.prems(1) by (simp add: entries_text_def bar_def)
  from next_token_at [OF this numeral_no_bar, of message_error] obtain p where
    t: "next_token message_error data pos = Inr (to_string (length ?s), p)" and r: "at_rest data p ?s" .
  have len: "length ?s < 2 ^ 64" using at_rest_length [OF r] by simp
  have s: "substr data (unat p) (unat (word_of_nat (length ?s) :: uint64)) = Inr ?s"
    using r len by (intro substr_at [of _ _ _ "[]"]) (simp_all add: unat_of_nat)
  show ?case
    using t s len Nil.prems(2) log_entry_roundtrip [OF _ len] by (simp add: numeral_bar_stoull)
qed

lemma message_prefix:
  assumes "at_rest data 0 (to_string (unat t) @ bar @ to_string (unat c) @ bar @ rest)"
  obtains p where "at_rest data p rest"
    "message_deserialize data =
       sum_bind (next_token message_error data p) (\<lambda>(numStr, p3).
       sum_bind (stoull numStr) (\<lambda>numEntries.
       sum_bind (read_entries (unat numEntries) data p3) (\<lambda>entries.
         Inr \<lparr>rm_term = t, rm_leader_commit = c, rm_entries = entries\<rparr>)))"
proof -
  from next_token_at [OF assms numeral_no_bar, of message_error] obtain p1 where
    t1: "next_token message_error data 0 = Inr (to_string (unat t), p1)" and
    r1: "at_rest data p1 (to_string (unat c) @ bar @ rest)" .
  from next_token_at [OF r1 numeral_no_bar, of message_error] obtain p2 where
    t2: "next_token message_error data p1 = Inr (to_string (unat c), p2)" and r2: "at_rest data p2 rest" .
  show ?thesis using t1 t2 by (intro that [OF r2]) (simp add: message_deserialize_def numeral_bar_stoull64)
qed

lemma message_serialize_eq:
  "message_serialize msg = to_string (unat (rm_term msg)) @ bar @ to_string (unat (rm_leader_commit msg)) @ bar
     @ to_string (length (rm_entries msg)) @ entries_text (rm_entries msg)"
  by (simp add: message_serialize_def entries_text_def Let_def)

lemma message_read_back:
  assumes "rm_entries msg \<noteq> []" "list_all (\<lambda>e. named_rop (lg_op e)) (rm_entries msg)"
    and "length (message_serialize msg) < 2 ^ 64"
  shows "message_deserialize (message_serialize msg) = Inr msg"
proof -
  let ?d = "message_serialize msg" and ?n = "length (rm_entries msg)"
  obtain e es where es: "rm_entries msg = e # es" using assms(1) by (cases "rm_entries msg") auto
  have "entries_text (rm_entries msg) = bar @ tl (entries_text (rm_entries msg))"
    by (simp add: es entries_text_def bar_def)
  then have "at_rest ?d 0 (to_string (unat (rm_term msg)) @ bar @ to_string (unat (rm_leader_commit msg)) @ bar
      @ to_string ?n @ bar @ tl (entries_text (rm_entries msg)))"
    using at_rest_start [OF assms(3)] message_serialize_eq [of msg] by metis
  from message_prefix [OF this] obtain p where
    r: "at_rest ?d p (to_string ?n @ bar @ tl (entries_text (rm_entries msg)))" and
    m: "message_deserialize ?d = sum_bind (next_token message_error ?d p) (\<lambda>(numStr, p3).
       sum_bind (stoull numStr) (\<lambda>numEntries.
       sum_bind (read_entries (unat numEntries) ?d p3) (\<lambda>entries.
         Inr \<lparr>rm_term = rm_term msg, rm_leader_commit = rm_leader_commit msg, rm_entries = entries\<rparr>)))" by blast
  from next_token_at [OF r numeral_no_bar, of message_error] obtain p3 where
    t: "next_token message_error ?d p = Inr (to_string ?n, p3)" and
    r3: "at_rest ?d p3 (tl (entries_text (rm_entries msg)))" .
  have "length xs \<le> length (entries_text xs)" for xs
    by (induction xs) (simp_all add: entries_text_def bar_def)
  from this [of "rm_entries msg"] have n: "?n < 2 ^ 64" using assms(3) by (simp add: message_serialize_eq)
  have "read_entries ?n ?d p3 = Inr (rm_entries msg)"
    using read_entries_back [of ?d p3 e es] r3 assms(2) es by simp
  then show ?thesis
    using m t n by (simp add: numeral_bar_stoull unat_of_nat)
qed

text \<open>
  C37: a replication message arrives as it was sent.  For every message with at least one
  entry, parsing its text form gives back the term, the commit index and all entries, whatever
  bytes the keys and values hold, delimiters included.
\<close>

theorem replication_message_roundtrip:
  assumes "rm_entries msg \<noteq> []" "list_all (\<lambda>e. named_rop (lg_op e)) (rm_entries msg)"
    and "length (message_serialize msg) < 2 ^ 64"
  shows "message_deserialize (message_serialize msg) = Inr msg"
  by (rule message_read_back [OF assms])

definition sample_message :: replication_message where
  "sample_message = \<lparr>rm_term = 0, rm_leader_commit = 2, rm_entries =
     [\<lparr>lg_term = 0, lg_index = 1, lg_op = Rop_PUT, lg_key = ''a|b'', lg_value = ''7|''\<rparr>,
      \<lparr>lg_term = 0, lg_index = 2, lg_op = Rop_DELETE, lg_key = ''k'', lg_value = []\<rparr>]\<rparr>"

theorem replication_message_roundtrip_witness:
  "message_deserialize (message_serialize sample_message) = Inr sample_message"
  by (rule replication_message_roundtrip)
    (simp_all add: sample_message_def named_rop_def message_serialize_def log_entry_serialize_def Let_def bar_def
       to_string.simps byte_of_rop_def)

text \<open>
  A message without entries, which is what a heartbeat of the leader would be, cannot be
  read back: the number of entries is the last field and has no delimiter after it, so the parser
  throws.
\<close>

lemma empty_message_rejected:
  assumes "rm_entries msg = []"
  shows "message_deserialize (message_serialize msg)
    = Inl (RuntimeError ''Malformed replication message: delimiter not found'')"
proof -
  let ?d = "message_serialize msg"
  have d: "?d = to_string (unat (rm_term msg)) @ bar @ to_string (unat (rm_leader_commit msg)) @ bar @ to_string 0"
    using assms by (simp add: message_serialize_eq entries_text_def)
  have "length ?d < 2 ^ 64"
    using to_string_length_u64 [of "rm_term msg"] to_string_length_u64 [of "rm_leader_commit msg"]
      to_string_length_u64 [of 0]
    by (simp add: d bar_def)
  from at_rest_start [OF this] have "at_rest ?d 0 (to_string (unat (rm_term msg)) @ bar @ to_string (unat (rm_leader_commit msg))
      @ bar @ to_string 0)" by (simp only: d)
  from message_prefix [OF this] obtain p where r: "at_rest ?d p (to_string 0)" and
    m: "message_deserialize ?d = sum_bind (next_token message_error ?d p) (\<lambda>(numStr, p3).
       sum_bind (stoull numStr) (\<lambda>numEntries.
       sum_bind (read_entries (unat numEntries) ?d p3) (\<lambda>entries.
         Inr \<lparr>rm_term = rm_term msg, rm_leader_commit = rm_leader_commit msg, rm_entries = entries\<rparr>)))" by blast
  have "find_char ?d (CHR ''|'') (unat p) = None"
    using r numeral_no_bar by (intro find_char_None) (simp add: at_rest_def)
  with m show ?thesis by (simp add: next_token_def message_error_def)
qed

lemma empty_message_rejected_example:
  "message_deserialize (message_serialize \<lparr>rm_term = 3, rm_leader_commit = 17, rm_entries = []\<rparr>)
    = Inl (RuntimeError ''Malformed replication message: delimiter not found'')"
  by (rule empty_message_rejected) simp

end
