(* ===== verification/Server_Config.thy ===== *)
theory Server_Config
  imports Metadata_Files Log_Entries
begin

text \<open>
  The configuration of the server: \<open>ServerConfig\<close> (\<open>server/include/tcp_server.h\<close>), the
  parser of the configuration file (\<open>server/src/config_parser.cpp\<close>) and the command line
  (\<open>server/src/main.cpp\<close>).  Conversions of the numbers truncate to the width of the field, as
  the \<open>static_cast\<close>s do; \<open>std::stoi\<close> throws on text that is not a number.
\<close>

record server_config =
  sc_host :: string
  sc_port :: uint16
  sc_num_threads :: int
  sc_data_dir :: string
  sc_cache_size :: uint64
  sc_accept_timeout_ms :: int
  sc_max_connections :: uint64
  sc_node_id :: uint32
  sc_role :: string
  sc_replication_port :: uint16
  sc_peers :: "(string \<times> uint16) list"

definition default_config :: server_config where
  "default_config =
     \<lparr>sc_host = ''127.0.0.1'', sc_port = 9000, sc_num_threads = 4, sc_data_dir = ''data'', sc_cache_size = 1000,
      sc_accept_timeout_ms = 1000, sc_max_connections = 1000, sc_node_id = 0, sc_role = [],
      sc_replication_port = 0, sc_peers = []\<rparr>"

section \<open>The lines of the configuration file\<close>

definition cfg_blanks :: string where
  "cfg_blanks = [CHR 0x20, CHR 0x09, CHR 0x0D, CHR 0x0A]"

definition cfg_trim :: "string \<Rightarrow> string" where
  "cfg_trim s =
     (case find_first_not_of s cfg_blanks of
        None \<Rightarrow> []
      | Some start \<Rightarrow> (case find_last_not_of s cfg_blanks of
           None \<Rightarrow> [] | Some stop \<Rightarrow> take (stop - start + 1) (drop start s)))"

record cfg_state =
  cs_section :: string
  cs_in_peers :: bool
  cs_in_item :: bool
  cs_peer_host :: string
  cs_peer_port :: uint16
  cs_peers :: "(string \<times> uint16) list"
  cs_values :: "string \<Rightarrow> string option"

definition cfg_start :: cfg_state where
  "cfg_start = \<lparr>cs_section = [], cs_in_peers = False, cs_in_item = False, cs_peer_host = [], cs_peer_port = 0,
     cs_peers = [], cs_values = Map.empty\<rparr>"

text \<open>Key and value of a line that is neither blank nor a comment and has a colon.\<close>

definition split_at_colon :: "string \<Rightarrow> string \<times> string" where
  "split_at_colon s =
     (case find_char s (CHR '':'') 0 of
        None \<Rightarrow> (cfg_trim s, cfg_trim s)
      | Some p \<Rightarrow> (cfg_trim (take p s), cfg_trim (drop (p + 1) s)))"

definition unquote :: "string \<Rightarrow> string" where
  "unquote v =
     (if length v \<ge> 2 \<and> hd v = CHR 0x22 \<and> last v = CHR 0x22 then take (length v - 2) (drop 1 v) else v)"

definition cfg_indent :: "string \<Rightarrow> nat" where
  "cfg_indent line = length (takeWhile (\<lambda>c. c = CHR 0x20 \<or> c = CHR 0x09) line)"

text \<open>The pending peer is saved when both its parts are known.\<close>

definition save_pending :: "cfg_state \<Rightarrow> (string \<times> uint16) list" where
  "save_pending st =
     (if cs_peer_host st \<noteq> [] \<and> cs_peer_port st \<noteq> 0 then cs_peers st @ [(cs_peer_host st, cs_peer_port st)]
      else cs_peers st)"

definition cfg_section_line :: "string \<Rightarrow> cfg_state \<Rightarrow> cfg_state" where
  "cfg_section_line key st =
     (let st1 = (if cs_in_peers st \<and> cs_peer_host st \<noteq> [] \<and> cs_peer_port st \<noteq> 0
                 then st\<lparr>cs_peers := save_pending st, cs_peer_host := [], cs_peer_port := 0\<rparr> else st)
      in st1\<lparr>cs_section := key, cs_in_peers := (key = ''peers''), cs_in_item := False\<rparr>)"

definition cfg_peer_line :: "string \<Rightarrow> string \<Rightarrow> cfg_state \<Rightarrow> kv_error + cfg_state" where
  "cfg_peer_line key val st =
     (if key = ''host'' then
        Inr (st\<lparr>cs_peers := save_pending st, cs_peer_host := val, cs_peer_port := 0\<rparr>)
      else if key = ''port'' then
        sum_bind (stoi val) (\<lambda>n.
          let port = word_of_int n in
          Inr (if cs_peer_host st \<noteq> []
               then st\<lparr>cs_peers := cs_peers st @ [(cs_peer_host st, port)], cs_peer_host := [], cs_peer_port := 0\<rparr>
               else st\<lparr>cs_peer_port := port\<rparr>))
      else Inr st)"

definition cfg_line :: "string \<Rightarrow> cfg_state \<Rightarrow> kv_error + cfg_state" where
  "cfg_line line st =
     (let trimmed = cfg_trim line in
      if trimmed = [] \<or> hd trimmed = CHR ''#'' then Inr st
      else
        let indent = cfg_indent line;
            startsWithDash = (hd trimmed = CHR ''-'') in
        if find_char trimmed (CHR '':'') 0 = None then Inr st
        else
          let st1 = (if startsWithDash then st\<lparr>cs_in_item := True\<rparr> else st);
              (key, val0) = split_at_colon (if startsWithDash then cfg_trim (drop 1 trimmed) else trimmed);
              val = unquote val0 in
          if \<not> startsWithDash \<and> val = [] \<and> indent = 0 then Inr (cfg_section_line key st1)
          else if cs_in_peers st1 \<and> (startsWithDash \<or> cs_in_item st1 \<and> indent > 2) then cfg_peer_line key val st1
          else
            let st2 = (if cs_section st1 \<noteq> [] \<and> \<not> cs_in_peers st1
                       then st1\<lparr>cs_values := (cs_values st1)(cs_section st1 @ ''.'' @ key \<mapsto> val)\<rparr> else st1)
            in Inr (if indent = 0 \<and> \<not> startsWithDash then st2\<lparr>cs_in_item := False\<rparr> else st2))"

fun cfg_lines :: "string list \<Rightarrow> cfg_state \<Rightarrow> kv_error + cfg_state" where
  "cfg_lines [] st = Inr st"
| "cfg_lines (l # ls) st = sum_bind (cfg_line l st) (cfg_lines ls)"

section \<open>The values\<close>

definition cfg_string :: "cfg_state \<Rightarrow> string \<Rightarrow> (string \<Rightarrow> server_config \<Rightarrow> server_config) \<Rightarrow> server_config \<Rightarrow> kv_error + server_config" where
  "cfg_string st k put c = Inr (case cs_values st k of None \<Rightarrow> c | Some v \<Rightarrow> put v c)"

definition cfg_number :: "cfg_state \<Rightarrow> string \<Rightarrow> (int \<Rightarrow> server_config \<Rightarrow> server_config) \<Rightarrow> server_config \<Rightarrow> kv_error + server_config" where
  "cfg_number st k put c =
     (case cs_values st k of None \<Rightarrow> Inr c | Some v \<Rightarrow> sum_bind (stoi v) (\<lambda>n. Inr (put n c)))"

definition cfg_finish :: "cfg_state \<Rightarrow> kv_error + server_config" where
  "cfg_finish st =
     sum_bind (cfg_string st ''server.host'' (\<lambda>v. sc_host_update (\<lambda>_. v)) default_config) (\<lambda>c1.
     sum_bind (cfg_number st ''server.port'' (\<lambda>n. sc_port_update (\<lambda>_. word_of_int n)) c1) (\<lambda>c2.
     sum_bind (cfg_number st ''server.threads'' (\<lambda>n. sc_num_threads_update (\<lambda>_. n)) c2) (\<lambda>c3.
     sum_bind (cfg_string st ''storage.data_dir'' (\<lambda>v. sc_data_dir_update (\<lambda>_. v)) c3) (\<lambda>c4.
     sum_bind (cfg_number st ''storage.cache_size'' (\<lambda>n. sc_cache_size_update (\<lambda>_. word_of_int n)) c4) (\<lambda>c5.
     sum_bind (cfg_number st ''node.id'' (\<lambda>n. sc_node_id_update (\<lambda>_. word_of_int n)) c5) (\<lambda>c6.
     sum_bind (cfg_string st ''node.role'' (\<lambda>v. sc_role_update (\<lambda>_. v)) c6) (\<lambda>c7.
     sum_bind (cfg_number st ''replication.port'' (\<lambda>n. sc_replication_port_update (\<lambda>_. word_of_int n)) c7) (\<lambda>c8.
       Inr (c8\<lparr>sc_peers := save_pending st\<rparr>)))))))))"

definition cfg_parse :: "bytes \<Rightarrow> kv_error + server_config" where
  "cfg_parse content = sum_bind (cfg_lines (getlines content) cfg_start) cfg_finish"

text \<open>\<open>ConfigParser::load\<close>: \<open>Inr None\<close> when the file cannot be opened.\<close>

definition config_load :: "string \<Rightarrow> file_system \<Rightarrow> kv_error + server_config option" where
  "config_load filepath fs =
     (case fs_read filepath fs of
        None \<Rightarrow> Inr None
      | Some content \<Rightarrow> sum_bind (cfg_parse content) (\<lambda>c. Inr (Some c)))"

section \<open>The command line\<close>

datatype main_result =
    Exit int
  | Run server_config

text \<open>The first pass: the last configuration file that is named; \<open>args\<close> are the arguments after the program.\<close>

fun config_arg :: "string list \<Rightarrow> string \<Rightarrow> string" where
  "config_arg (a # v # rest) configFile =
     (if a = ''-f'' \<or> a = ''--config'' then config_arg rest v else config_arg (v # rest) configFile)"
| "config_arg _ configFile = configFile"

definition search_paths :: "string list" where
  "search_paths = [''server.yaml'', ''../server.yaml'', ''../../server.yaml'', ''../server/server.yaml'']"

definition find_config :: "string list \<Rightarrow> file_system \<Rightarrow> string" where
  "find_config args fs =
     (let configFile = config_arg args [] in
      if configFile = [] then (case find (\<lambda>p. fs_exists p fs) search_paths of None \<Rightarrow> [] | Some p \<Rightarrow> p)
      else configFile)"

definition file_config :: "string \<Rightarrow> file_system \<Rightarrow> kv_error + server_config" where
  "file_config configFile fs =
     (if configFile \<noteq> [] \<and> fs_exists configFile fs
      then sum_bind (config_load configFile fs) (\<lambda>loaded.
             Inr (case loaded of Some c \<Rightarrow> c | None \<Rightarrow> default_config))
      else Inr default_config)"

text \<open>The second pass: one option with its argument; \<open>None\<close> when it is not one of them.\<close>

definition with_number :: "string \<Rightarrow> (int \<Rightarrow> server_config) \<Rightarrow> (kv_error + server_config) option" where
  "with_number v put = Some (sum_bind (stoi v) (\<lambda>n. Inr (put n)))"

definition cli_option :: "string \<Rightarrow> string \<Rightarrow> server_config \<Rightarrow> (kv_error + server_config) option" where
  "cli_option arg v c =
     (if arg = ''-f'' \<or> arg = ''--config'' then Some (Inr c)
      else if arg = ''-p'' \<or> arg = ''--port'' then with_number v (\<lambda>n. c\<lparr>sc_port := word_of_int n\<rparr>)
      else if arg = ''-h'' \<or> arg = ''--host'' then Some (Inr (c\<lparr>sc_host := v\<rparr>))
      else if arg = ''-t'' \<or> arg = ''--threads'' then with_number v (\<lambda>n. c\<lparr>sc_num_threads := n\<rparr>)
      else if arg = ''-c'' \<or> arg = ''--cache'' then with_number v (\<lambda>n. c\<lparr>sc_cache_size := word_of_int n\<rparr>)
      else if arg = ''-d'' \<or> arg = ''--data'' then Some (Inr (c\<lparr>sc_data_dir := v\<rparr>))
      else if arg = ''--node-id'' then with_number v (\<lambda>n. c\<lparr>sc_node_id := word_of_int n\<rparr>)
      else if arg = ''--role'' then Some (Inr (c\<lparr>sc_role := v\<rparr>))
      else None)"

fun cli_args :: "string list \<Rightarrow> server_config \<Rightarrow> kv_error + main_result" where
  "cli_args [] c = Inr (Run c)"
| "cli_args [a] c = Inr (Exit (if a = ''--help'' then 0 else 1))"
| "cli_args (a # v # rest) c =
     (if a = ''--help'' then Inr (Exit 0)
      else case cli_option a v c of
             None \<Rightarrow> Inr (Exit 1)
           | Some r \<Rightarrow> sum_bind r (cli_args rest))"

definition server_main :: "string list \<Rightarrow> file_system \<Rightarrow> kv_error + main_result" where
  "server_main args fs = sum_bind (file_config (find_config args fs) fs) (cli_args args)"

section \<open>Reading back a configuration\<close>

lemma cfg_trim_strip: "cfg_trim s = strip cfg_blanks s"
  unfolding cfg_trim_def by (rule find_not_of_strip)

definition trimmed :: "string \<Rightarrow> bool" where
  "trimmed s \<longleftrightarrow> s \<noteq> [] \<and> hd s \<notin> set cfg_blanks \<and> last s \<notin> set cfg_blanks"

lemma cfg_trim_trimmed [simp]: "trimmed s \<Longrightarrow> cfg_trim s = s"
  by (simp add: cfg_trim_strip strip_id trimmed_def)

lemma cfg_trim_space [simp]: "cfg_trim (CHR 0x20 # s) = cfg_trim s"
  by (simp add: cfg_trim_strip strip_def cfg_blanks_def)

lemma trimmed_colon:
  "trimmed k \<Longrightarrow> trimmed v \<Longrightarrow> trimmed (k @ '': '' @ v)"
  by (simp add: trimmed_def)

lemma split_key_value:
  assumes "trimmed k" "trimmed v" "CHR '':'' \<notin> set k"
  shows "split_at_colon (k @ '': '' @ v) = (k, v)" "find_char (k @ '': '' @ v) (CHR '':'') 0 = Some (length k)"
proof -
  have "find_char ([] @ k @ CHR '':'' # ('' '' @ v)) (CHR '':'') 0 = Some (0 + length k)"
    using assms(3) by (intro find_char_append) simp_all
  then show f: "find_char (k @ '': '' @ v) (CHR '':'') 0 = Some (length k)" by simp
  show "split_at_colon (k @ '': '' @ v) = (k, v)" using f assms by (simp add: split_at_colon_def)
qed

text \<open>A key without the characters that have a meaning at the start of a line or in it.\<close>

definition plain_key :: "string \<Rightarrow> bool" where
  "plain_key k \<longleftrightarrow> trimmed k \<and> CHR '':'' \<notin> set k \<and> hd k \<noteq> CHR ''#'' \<and> hd k \<noteq> CHR ''-''"

lemma cfg_line_value:
  assumes "plain_key k" "trimmed v" "cs_section st \<noteq> []" "\<not> cs_in_peers st"
  shows "cfg_line (''  '' @ k @ '': '' @ v) st
    = Inr (st\<lparr>cs_values := (cs_values st)(cs_section st @ ''.'' @ k \<mapsto> unquote v)\<rparr>)"
proof -
  have k: "trimmed k" "CHR '':'' \<notin> set k" "k \<noteq> []" using assms(1) by (auto simp: plain_key_def trimmed_def)
  have t: "cfg_trim (''  '' @ k @ '': '' @ v) = k @ '': '' @ v" using trimmed_colon [OF k(1) assms(2)] by simp
  show ?thesis
    using assms k t split_key_value [OF k(1) assms(2) k(2)]
    by (simp add: cfg_line_def Let_def plain_key_def cfg_indent_def)
qed

lemma cfg_line_section:
  assumes "plain_key k" "cs_peer_host st = []"
  shows "cfg_line (k @ '':'') st = Inr (st\<lparr>cs_section := k, cs_in_peers := (k = ''peers''), cs_in_item := False\<rparr>)"
proof -
  have k: "trimmed k" "CHR '':'' \<notin> set k" "k \<noteq> []" "hd k \<notin> set cfg_blanks"
    using assms(1) by (auto simp: plain_key_def trimmed_def)
  have t: "trimmed (k @ '':'')" using k by (simp add: trimmed_def cfg_blanks_def)
  have "find_char ([] @ k @ CHR '':'' # []) (CHR '':'') 0 = Some (0 + length k)"
    using k by (intro find_char_append) simp_all
  then have f: "find_char (k @ '':'') (CHR '':'') 0 = Some (length k)" by simp
  have "split_at_colon (k @ '':'') = (k, [])" using f k cfg_trim_strip [of "[]"] by (simp add: split_at_colon_def)
  moreover have "cfg_indent (k @ '':'') = 0" using k by (cases k) (auto simp: cfg_indent_def cfg_blanks_def)
  ultimately show ?thesis
    using assms k t f by (simp add: cfg_line_def Let_def plain_key_def unquote_def cfg_section_line_def)
qed

text \<open>A text in quotation marks is read back as it is.\<close>

definition quoted_text :: "string \<Rightarrow> string" where
  "quoted_text s = CHR 0x22 # s @ [CHR 0x22]"

lemma quoted_text_simps [simp]: "trimmed (quoted_text s)" "unquote (quoted_text s) = s"
  by (simp_all add: quoted_text_def trimmed_def unquote_def cfg_blanks_def)

lemma numeral_trimmed [simp]: "trimmed (to_string n)" "unquote (to_string n) = to_string n"
proof -
  have d: "c \<notin> set cfg_blanks \<and> c \<noteq> CHR 0x22" if "c \<in> set (to_string n)" for c
    using to_string_digits [OF that] by (auto simp: cfg_blanks_def is_digit_def)
  then show "trimmed (to_string n)" by (simp add: trimmed_def)
  have "hd (to_string n) \<noteq> CHR 0x22" using d by simp
  then show "unquote (to_string n) = to_string n" by (simp add: unquote_def)
qed

definition peer_lines :: "string \<times> uint16 \<Rightarrow> string list" where
  "peer_lines p = [''  - host: '' @ quoted_text (fst p), ''    port: '' @ to_string (unat (snd p))]"

lemma port_number: "stoi (to_string (unat (w :: uint16))) = Inr (int (unat w))"
proof (rule stoi_to_string)
  have "LENGTH(16) = 16" by simp
  then have "unat w < 2 ^ 16" using unsigned_less [of w, where ?'a = nat] by (simp only:)
  then show "unat w < 2 ^ 31" by simp
qed

lemma cfg_lines_peer:
  assumes "cs_in_peers st" "cs_peer_host st = []" "fst p \<noteq> []"
  shows "cfg_lines (peer_lines p) st = Inr (st\<lparr>cs_in_item := True, cs_peers := cs_peers st @ [p], cs_peer_host := [], cs_peer_port := 0\<rparr>)"
proof -
  let ?h = "''host: '' @ quoted_text (fst p)" and ?p = "''port: '' @ to_string (unat (snd p))"
  have k: "trimmed ''host''" "trimmed ''port''" by (simp_all add: trimmed_def cfg_blanks_def)
  have h: "split_at_colon ?h = (''host'', quoted_text (fst p))"
    using split_key_value(1) [OF k(1), of "quoted_text (fst p)"] by simp
  have q: "split_at_colon ?p = (''port'', to_string (unat (snd p)))" "find_char ?p (CHR '':'') 0 = Some 4"
    using split_key_value [OF k(2), of "to_string (unat (snd p))"] by simp_all
  have "trimmed (''- '' @ ?h)" "trimmed ?h" "trimmed ?p"
    using quoted_text_simps(1) [of "fst p"] numeral_trimmed(1) [of "unat (snd p)"]
    by (simp_all add: trimmed_def cfg_blanks_def quoted_text_def)
  then have t: "cfg_trim (''  - '' @ ?h) = ''- '' @ ?h" "cfg_trim ('' '' @ ?h) = ?h" "cfg_trim (''    '' @ ?p) = ?p"
    using cfg_trim_trimmed [of "''- '' @ ?h"] by simp_all
  have c: "find_char ([] @ ''- host'' @ CHR '':'' # ('' '' @ quoted_text (fst p))) (CHR '':'') 0 = Some (0 + length ''- host'')"
    by (intro find_char_append) simp_all
  have 1: "cfg_line (''  - '' @ ?h) st = Inr (st\<lparr>cs_in_item := True, cs_peer_host := fst p, cs_peer_port := 0\<rparr>)"
    using t h c assms by (simp add: cfg_line_def Let_def cfg_peer_line_def save_pending_def)
  have 2: "cfg_line (''    '' @ ?p) st' = Inr (st'\<lparr>cs_peers := cs_peers st' @ [(cs_peer_host st', snd p)], cs_peer_host := [], cs_peer_port := 0\<rparr>)"
    if "cs_in_peers st'" "cs_in_item st'" "cs_peer_host st' \<noteq> []" for st'
    using t q that by (simp add: cfg_line_def Let_def cfg_peer_line_def cfg_indent_def port_number)
  show ?thesis using 1 2 assms by (simp add: peer_lines_def)
qed

lemma cfg_lines_append: "cfg_lines (xs @ ys) st = sum_bind (cfg_lines xs st) (cfg_lines ys)"
proof (induction xs arbitrary: st)
  case (Cons x xs)
  then show ?case by (cases "cfg_line x st") simp_all
qed simp

lemma cfg_lines_peers:
  assumes "cs_in_peers st" "cs_peer_host st = []" "cs_peer_port st = 0" "\<forall>p\<in>set ps. fst p \<noteq> []"
  shows "cfg_lines (concat (map peer_lines ps)) st
    = Inr (st\<lparr>cs_in_item := (cs_in_item st \<or> ps \<noteq> []), cs_peers := cs_peers st @ ps\<rparr>)"
  using assms
proof (induction ps arbitrary: st)
  case (Cons p ps)
  then show ?case by (simp add: cfg_lines_append cfg_lines_peer)
qed simp

text \<open>A configuration written the way the deployed files are.\<close>

definition config_file_lines :: "server_config \<Rightarrow> string list" where
  "config_file_lines c =
     [''node:'', ''  id: '' @ to_string (unat (sc_node_id c)), ''  role: '' @ quoted_text (sc_role c),
      ''server:'', ''  host: '' @ quoted_text (sc_host c), ''  port: '' @ to_string (unat (sc_port c)),
      ''  threads: '' @ to_string (nat (sc_num_threads c)),
      ''replication:'', ''  port: '' @ to_string (unat (sc_replication_port c)),
      ''peers:''] @ concat (map peer_lines (sc_peers c)) @
     [''storage:'', ''  data_dir: '' @ quoted_text (sc_data_dir c), ''  cache_size: '' @ to_string (unat (sc_cache_size c))]"

definition config_file_text :: "server_config \<Rightarrow> bytes" where
  "config_file_text c = concat (map (\<lambda>l. l @ [newline]) (config_file_lines c))"

text \<open>
  What a file can express: the numbers are within an \<open>int\<close>, texts stay on a line, peers have a
  name, and the two settings without a key have their default.
\<close>

definition config_expressible :: "server_config \<Rightarrow> bool" where
  "config_expressible c \<longleftrightarrow>
     (\<forall>s\<in>{sc_host c, sc_data_dir c, sc_role c} \<union> fst ` set (sc_peers c). newline \<notin> set s)
   \<and> (\<forall>p\<in>set (sc_peers c). fst p \<noteq> [])
   \<and> unat (sc_node_id c) < 2 ^ 31 \<and> unat (sc_cache_size c) < 2 ^ 31
   \<and> 0 \<le> sc_num_threads c \<and> sc_num_threads c < 2 ^ 31
   \<and> sc_accept_timeout_ms c = sc_accept_timeout_ms default_config
   \<and> sc_max_connections c = sc_max_connections default_config"

lemma config_lines_end: "config_expressible c \<Longrightarrow> \<forall>l\<in>set (config_file_lines c). newline \<notin> set l"
  using numeral_no_newline by (auto simp: config_file_lines_def config_expressible_def peer_lines_def quoted_text_def newline_def)

lemma plain_keys:
  "plain_key ''node''" "plain_key ''server''" "plain_key ''replication''" "plain_key ''peers''" "plain_key ''storage''"
  "plain_key ''id''" "plain_key ''role''" "plain_key ''host''" "plain_key ''port''" "plain_key ''threads''"
  "plain_key ''data_dir''" "plain_key ''cache_size''"
  by (simp_all add: plain_key_def trimmed_def cfg_blanks_def)

definition file_values :: "server_config \<Rightarrow> string \<Rightarrow> string option" where
  "file_values c =
     [''node.id'' \<mapsto> to_string (unat (sc_node_id c)), ''node.role'' \<mapsto> sc_role c,
      ''server.host'' \<mapsto> sc_host c, ''server.port'' \<mapsto> to_string (unat (sc_port c)),
      ''server.threads'' \<mapsto> to_string (nat (sc_num_threads c)),
      ''replication.port'' \<mapsto> to_string (unat (sc_replication_port c)),
      ''storage.data_dir'' \<mapsto> sc_data_dir c, ''storage.cache_size'' \<mapsto> to_string (unat (sc_cache_size c))]"

lemmas cfg_literal_lines =
  plain_keys [THEN cfg_line_section, simplified]
  plain_keys [THEN cfg_line_value, simplified]

lemma cfg_lines_file:
  assumes "config_expressible c"
  shows "\<exists>st. cfg_lines (config_file_lines c) cfg_start = Inr st \<and> cs_values st = file_values c
     \<and> cs_peers st = sc_peers c \<and> cs_peer_host st = []"
  using assms
  by (simp add: config_file_lines_def cfg_lines_append cfg_start_def cfg_literal_lines cfg_lines_peers
      config_expressible_def file_values_def)

text \<open>
  C16: the configuration a file describes is the one the server runs with.  Writing out any
  configuration the format can express, quoted texts and several peers included, and loading the
  file gives exactly that configuration.
\<close>

theorem config_file_roundtrip:
  assumes "config_expressible c"
  shows "cfg_parse (config_file_text c) = Inr c"
proof -
  have ls: "getlines (config_file_text c) = config_file_lines c"
    unfolding config_file_text_def using config_lines_end [OF assms] by (rule getlines_lines)
  obtain st where st: "cfg_lines (config_file_lines c) cfg_start = Inr st" "cs_values st = file_values c"
      "cs_peers st = sc_peers c" "cs_peer_host st = []"
    using cfg_lines_file [OF assms] by blast
  have n: "stoi (to_string (unat (sc_node_id c))) = Inr (int (unat (sc_node_id c)))"
    "stoi (to_string (unat (sc_cache_size c))) = Inr (int (unat (sc_cache_size c)))"
    "stoi (to_string (nat (sc_num_threads c))) = Inr (sc_num_threads c)"
    using assms by (auto simp: config_expressible_def intro!: stoi_to_string [THEN trans])
  have "cfg_parse (config_file_text c) = cfg_finish st" by (simp add: cfg_parse_def ls st(1))
  also have "\<dots> = Inr c"
    using assms st(2-4) n port_number [of "sc_port c"] port_number [of "sc_replication_port c"]
    by (cases c) (simp add: cfg_finish_def cfg_string_def cfg_number_def file_values_def
        save_pending_def config_expressible_def default_config_def)
  finally show ?thesis .
qed

definition sample_config :: server_config where
  "sample_config = default_config\<lparr>sc_node_id := 1, sc_role := ''leader'', sc_host := ''0.0.0.0'', sc_replication_port := 9100,
     sc_peers := [(''10.0.1.11'', 9101), (''10.0.1.12'', 9102)], sc_data_dir := ''/app/data''\<rparr>"

theorem config_file_roundtrip_witness: "cfg_parse (config_file_text sample_config) = Inr sample_config"
  by (rule config_file_roundtrip) (simp add: config_expressible_def sample_config_def default_config_def newline_def)

section \<open>A comment after a value\<close>

definition role_text :: string where
  "role_text = ''leader'' @ [CHR 0x22] @ ''  # or '' @ [CHR 0x22] @ ''follower''"

text \<open>
  The example of the documentation puts a comment after the role.  The parser has no such
  comments: the line still starts and ends with a quotation mark, so the role becomes the text
  between them, and the server is neither a leader nor a follower.
\<close>

lemma documented_role_misread:
  "\<exists>c. cfg_parse (''node:'' @ [newline] @ ''  id: 1'' @ [newline] @ ''  role: '' @ quoted_text role_text @ [newline]) = Inr c
     \<and> sc_node_id c = 1 \<and> sc_role c = role_text \<and> sc_role c \<noteq> ''leader'' \<and> sc_role c \<noteq> ''follower''"
proof -
  let ?ls = "[''node:'', ''  id: 1'', ''  role: '' @ quoted_text role_text]"
  have nl: "\<forall>l\<in>set ?ls. newline \<notin> set l" by (simp add: newline_def quoted_text_def role_text_def)
  have eq: "''node:'' @ [newline] @ ''  id: 1'' @ [newline] @ ''  role: '' @ quoted_text role_text @ [newline]
      = concat (map (\<lambda>l. l @ [newline]) ?ls)" by simp
  have one: "to_string (Suc 0) = ''1''" by (simp add: to_string.simps digit_char_def char_of_def bit_iff_odd)
  have "cfg_line (''  id: '' @ to_string 1) st = Inr (st\<lparr>cs_values := (cs_values st)(cs_section st @ ''.id'' \<mapsto> to_string 1)\<rparr>)"
    if "cs_section st \<noteq> []" "\<not> cs_in_peers st" for st
    using cfg_line_value [OF plain_keys(6) numeral_trimmed(1), of st 1] that by simp
  then have id: "cfg_line ''  id: 1'' st = Inr (st\<lparr>cs_values := (cs_values st)(cs_section st @ ''.id'' \<mapsto> ''1'')\<rparr>)"
    if "cs_section st \<noteq> []" "\<not> cs_in_peers st" for st
    using that by (simp add: one)
  have n: "stoi ''1'' = Inr 1" using stoi_to_string [of "Suc 0"] by (simp add: one)
  show ?thesis
    unfolding eq cfg_parse_def getlines_lines [OF nl]
    by (simp add: cfg_start_def cfg_literal_lines id cfg_finish_def cfg_string_def cfg_number_def n role_text_def)
qed

end
