(* ===== verification/Replication.thy ===== *)
theory Replication
  imports Log_Entries
begin

text \<open>
  The replication layer: the leader (\<open>distributed/replication/leader.cpp\<close>), the shipper
  that sends to the peers (\<open>log_shipper.cpp\<close>) and the follower (\<open>follower.cpp\<close>).

  A call into the network is described by its results, which are arguments: for \<open>send\<close> the
  number it returns, for \<open>recv\<close> the number and what the buffer holds afterwards.  The
  functions here are what one thread does between taking and releasing a lock; how the threads
  interleave is the subject of the theory of the cluster.
\<close>

section \<open>The shipper\<close>

datatype connect_result = No_socket | Not_resolved | Not_connected | Connected_fd int

text \<open>\<open>stop\<close> of the shipper closes every open socket.\<close>

definition shipper_stop :: "peer_info list \<Rightarrow> peer_info list" where
  "shipper_stop peers =
     map (\<lambda>p. if peer_socket_fd p \<ge> 0 then p\<lparr>peer_socket_fd := -1, peer_connected := False\<rparr> else p) peers"

definition connect_peer :: "connect_result \<Rightarrow> peer_info \<Rightarrow> peer_info" where
  "connect_peer r p =
     (if peer_connected p \<and> peer_socket_fd p \<ge> 0 then p
      else case r of
        No_socket \<Rightarrow> p
      | Not_resolved \<Rightarrow> p
      | Not_connected \<Rightarrow> p\<lparr>peer_socket_fd := -1, peer_connected := False\<rparr>
      | Connected_fd sock \<Rightarrow> p\<lparr>peer_socket_fd := sock, peer_connected := True\<rparr>)"

text \<open>The results of the calls for the peer at each position of the list are given by \<open>conn\<close>.\<close>

fun connect_from :: "nat \<Rightarrow> (nat \<Rightarrow> connect_result) \<Rightarrow> peer_info list \<Rightarrow> peer_info list" where
  "connect_from i conn [] = []"
| "connect_from i conn (p # ps) = connect_peer (conn i) p # connect_from (Suc i) conn ps"

definition connectToPeers :: "(nat \<Rightarrow> connect_result) \<Rightarrow> peer_info list \<Rightarrow> peer_info list" where
  "connectToPeers conn peers = connect_from 0 conn peers"

record net_call =
  nc_send :: int
  nc_recv :: int
  nc_buf :: bytes

text \<open>
  \<open>sendToPeer\<close>: whether the peer acknowledged, the peer afterwards, and the bytes that went
  out.  A short \<open>send\<close> counts as sent.
\<close>

definition sendToPeer :: "net_call \<Rightarrow> bytes \<Rightarrow> peer_info \<Rightarrow> bool \<times> peer_info \<times> bytes" where
  "sendToPeer net data p =
     (if \<not> peer_connected p \<or> peer_socket_fd p < 0 then (False, p, [])
      else if nc_send net \<le> 0 then (False, p\<lparr>peer_connected := False, peer_socket_fd := -1\<rparr>, [])
      else (nc_recv net > 0 \<and> take 3 (nc_buf net) = ''+OK'', p, take (nat (nc_send net)) data))"

fun ship_from :: "nat \<Rightarrow> (nat \<Rightarrow> net_call) \<Rightarrow> bytes \<Rightarrow> peer_info list \<Rightarrow> nat \<times> peer_info list \<times> bytes list" where
  "ship_from i net data [] = (0, [], [])"
| "ship_from i net data (p # ps) =
     (case sendToPeer (net i) data p of
        (ok, p', wire) \<Rightarrow>
          (case ship_from (Suc i) net data ps of
             (acks, ps', wires) \<Rightarrow> ((if ok then acks + 1 else acks), p' # ps', wire # wires)))"

definition shipEntries :: "(nat \<Rightarrow> net_call) \<Rightarrow> replication_message \<Rightarrow> peer_info list \<Rightarrow>
    nat \<times> peer_info list \<times> bytes list" where
  "shipEntries net msg peers = ship_from 0 net (message_serialize msg @ [CHR 0x0A]) peers"

section \<open>Applying committed entries\<close>

text \<open>
  One turn of the inner loop of \<open>applyLoop\<close>, which leader and follower share: the entry
  handed to the callback and the new \<open>last_applied_\<close>.  \<open>None\<close>: the loop is left.
\<close>

definition apply_next :: "bool \<Rightarrow> log_entry list \<Rightarrow> uint64 \<Rightarrow> uint64 \<Rightarrow> (log_entry \<times> uint64) option" where
  "apply_next callback log commit last_applied =
     (if last_applied < commit then
        let next_index = last_applied + 1 in
        (case find (\<lambda>e. lg_index e = next_index) log of
           Some e \<Rightarrow> if callback then Some (e, next_index) else None
         | None \<Rightarrow> None)
      else None)"

section \<open>The leader\<close>

record leader =
  ld_config :: replication_config
  ld_log :: "log_entry list"
  ld_current_term :: uint64
  ld_commit_index :: uint64
  ld_last_applied :: uint64
  ld_callback :: bool
  ld_shutdown :: bool

definition leader_new :: "replication_config \<Rightarrow> leader" where
  "leader_new config =
     \<lparr>ld_config = config, ld_log = [], ld_current_term = 0, ld_commit_index = 0, ld_last_applied = 0,
      ld_callback = False, ld_shutdown = False\<rparr>"

definition leader_setApplyCallback :: "leader \<Rightarrow> leader" where
  "leader_setApplyCallback l = l\<lparr>ld_callback := True\<rparr>"

definition leader_stop :: "leader \<Rightarrow> leader" where
  "leader_stop l =
     l\<lparr>ld_shutdown := True,
       ld_config := (ld_config l)\<lparr>rc_peers := shipper_stop (rc_peers (ld_config l))\<rparr>\<rparr>"

definition appendLog :: "log_entry \<Rightarrow> leader \<Rightarrow> leader" where
  "appendLog entry l =
     l\<lparr>ld_log := ld_log l @ [entry\<lparr>lg_index := (if ld_log l = [] then 1 else lg_index (last (ld_log l)) + 1),
                                   lg_term := ld_current_term l\<rparr>]\<rparr>"

text \<open>The three parts of \<open>replicate\<close> after \<open>appendLog\<close>: the commit index, the message, the shipping.\<close>

definition leader_commit :: "leader \<Rightarrow> leader" where
  "leader_commit l = l\<lparr>ld_commit_index := lg_index (last (ld_log l))\<rparr>"

definition leader_message :: "uint64 \<Rightarrow> leader \<Rightarrow> replication_message" where
  "leader_message commit l =
     \<lparr>rm_term = ld_current_term l, rm_leader_commit = commit, rm_entries = [last (ld_log l)]\<rparr>"

definition leader_ship :: "(nat \<Rightarrow> net_call) \<Rightarrow> replication_message \<Rightarrow> leader \<Rightarrow> (bool \<times> bytes list) \<times> leader" where
  "leader_ship net msg l =
     (case shipEntries net msg (rc_peers (ld_config l)) of
        (acks, peers, wires) \<Rightarrow>
          ((acks > 0 \<or> rc_peers (ld_config l) = [], wires), l\<lparr>ld_config := (ld_config l)\<lparr>rc_peers := peers\<rparr>\<rparr>))"

text \<open>A call of \<open>replicate\<close> that no other call overlaps.\<close>

definition leader_replicate :: "(nat \<Rightarrow> net_call) \<Rightarrow> log_entry \<Rightarrow> leader \<Rightarrow> (bool \<times> bytes list) \<times> leader" where
  "leader_replicate net entry l =
     (let l1 = leader_commit (appendLog entry l)
      in leader_ship net (leader_message (ld_commit_index l1) l1) l1)"

definition leader_apply_turn :: "leader \<Rightarrow> (log_entry \<times> leader) option" where
  "leader_apply_turn l =
     (if ld_shutdown l then None
      else map_option (\<lambda>(e, n). (e, l\<lparr>ld_last_applied := n\<rparr>))
             (apply_next (ld_callback l) (ld_log l) (ld_commit_index l) (ld_last_applied l)))"

section \<open>The follower\<close>

record follower =
  fo_config :: replication_config
  fo_log :: "log_entry list"
  fo_current_term :: uint64
  fo_commit_index :: uint64
  fo_last_applied :: uint64
  fo_callback :: bool
  fo_shutdown :: bool

definition follower_new :: "replication_config \<Rightarrow> follower" where
  "follower_new config =
     \<lparr>fo_config = config, fo_log = [], fo_current_term = 0, fo_commit_index = 0, fo_last_applied = 0,
      fo_callback = False, fo_shutdown = False\<rparr>"

definition follower_setApplyCallback :: "follower \<Rightarrow> follower" where
  "follower_setApplyCallback f = f\<lparr>fo_callback := True\<rparr>"

definition follower_stop :: "follower \<Rightarrow> follower" where
  "follower_stop f = f\<lparr>fo_shutdown := True\<rparr>"

definition handleReplication :: "replication_message \<Rightarrow> follower \<Rightarrow> follower" where
  "handleReplication msg f =
     f\<lparr>fo_current_term := (if rm_term msg > fo_current_term f then rm_term msg else fo_current_term f),
       fo_log := fo_log f @ rm_entries msg,
       fo_commit_index := (if rm_leader_commit msg > fo_commit_index f then rm_leader_commit msg else fo_commit_index f)\<rparr>"

definition follower_apply_turn :: "follower \<Rightarrow> (log_entry \<times> follower) option" where
  "follower_apply_turn f =
     (if fo_shutdown f then None
      else map_option (\<lambda>(e, n). (e, f\<lparr>fo_last_applied := n\<rparr>))
             (apply_next (fo_callback f) (fo_log f) (fo_commit_index f) (fo_last_applied f)))"

text \<open>
  The inner loop of \<open>handleConnection\<close>: the complete lines of the buffer.  The number of
  acknowledgements sent is part of the result.
\<close>

function follower_lines :: "bytes \<Rightarrow> follower \<Rightarrow> nat \<times> bytes \<times> follower" where
  "follower_lines buffer f =
     (case find_char buffer (CHR 0x0A) 0 of
        None \<Rightarrow> (0, buffer, f)
      | Some pos \<Rightarrow>
          (let line = take pos buffer; buffer' = drop (pos + 1) buffer in
           if line = [] then follower_lines buffer' f
           else case message_deserialize line of
             Inl err \<Rightarrow> follower_lines buffer' f
           | Inr msg \<Rightarrow> (case follower_lines buffer' (handleReplication msg f) of (acks, rest) \<Rightarrow> (acks + 1, rest))))"
  by pat_completeness auto
termination
  by (relation "measure (\<lambda>(buffer, f). length buffer)") (auto dest!: find_char_SomeD(2))

declare follower_lines.simps [simp del]

text \<open>\<open>handleConnection\<close> over what the calls of \<open>recv\<close> deliver; nothing delivered ends the connection.\<close>

fun handleConnection :: "bytes list \<Rightarrow> bytes \<Rightarrow> follower \<Rightarrow> nat \<times> bytes \<times> follower" where
  "handleConnection [] buffer f = (0, buffer, f)"
| "handleConnection (chunk # chunks) buffer f =
     (if fo_shutdown f \<or> chunk = [] then (0, buffer, f)
      else case follower_lines (buffer @ chunk) f of
             (acks, buffer', f') \<Rightarrow>
               (case handleConnection chunks buffer' f' of (acks', rest) \<Rightarrow> (acks + acks', rest)))"

text \<open>
  \<open>listenerLoop\<close> over what the calls of \<open>accept\<close> return: nothing for a failed call, else what the
  connection delivers.  One connection is served after the other, each with an empty buffer; the
  result counts the acknowledgements.
\<close>

fun listenerLoop :: "bytes list option list \<Rightarrow> follower \<Rightarrow> nat \<times> follower" where
  "listenerLoop [] f = (0, f)"
| "listenerLoop (peer # peers) f =
     (if fo_shutdown f then (0, f)
      else case peer of
        None \<Rightarrow> listenerLoop peers f
      | Some chunks \<Rightarrow>
          (case handleConnection chunks [] f of (acks, buffer, f') \<Rightarrow>
             case listenerLoop peers f' of (acks', f'') \<Rightarrow> (acks + acks', f'')))"

text \<open>The inner loop of \<open>applyLoop\<close> while no other thread acts: the entries handed to the callback.\<close>

lemma apply_next_advance:
  "apply_next cb log commit a = Some (e, n) \<Longrightarrow> a < commit \<and> n = a + 1 \<and> unat n = unat a + 1 \<and> unat a < unat commit"
  by (auto simp: apply_next_def Let_def unat_Suc_of_less word_less_nat_alt split: if_splits option.splits)

function leader_apply_loop :: "leader \<Rightarrow> log_entry list \<times> leader" where
  "leader_apply_loop l =
     (case leader_apply_turn l of
        None \<Rightarrow> ([], l)
      | Some (e, l') \<Rightarrow> (case leader_apply_loop l' of (es, l'') \<Rightarrow> (e # es, l'')))"
  by pat_completeness auto
termination
  by (relation "measure (\<lambda>l. unat (ld_commit_index l) - unat (ld_last_applied l))")
    (auto simp: leader_apply_turn_def dest!: apply_next_advance split: if_splits)

function follower_apply_loop :: "follower \<Rightarrow> log_entry list \<times> follower" where
  "follower_apply_loop f =
     (case follower_apply_turn f of
        None \<Rightarrow> ([], f)
      | Some (e, f') \<Rightarrow> (case follower_apply_loop f' of (es, f'') \<Rightarrow> (e # es, f'')))"
  by pat_completeness auto
termination
  by (relation "measure (\<lambda>f. unat (fo_commit_index f) - unat (fo_last_applied f))")
    (auto simp: follower_apply_turn_def dest!: apply_next_advance split: if_splits)

declare leader_apply_loop.simps [simp del] follower_apply_loop.simps [simp del]

section \<open>A node that applies a log\<close>

text \<open>A log whose entries carry the indices 1, 2, 3 and so on.\<close>

definition numbered :: "log_entry list \<Rightarrow> bool" where
  "numbered log \<longleftrightarrow> (\<forall>i<length log. unat (lg_index (log ! i)) = i + 1)"

lemma numbered_Nil [simp]: "numbered []"
  by (simp add: numbered_def)

lemma numbered_find:
  assumes "numbered log" "unat a < length log" "unat (a + 1) = unat a + 1"
  shows "find (\<lambda>x. lg_index x = a + 1) log = Some (log ! unat a)"
proof -
  have "lg_index (log ! i) = a + 1 \<longleftrightarrow> i = unat a" if "i < length log" for i
    using assms that by (metis add_right_cancel numbered_def word_unat_eq_iff)
  then show ?thesis using assms(2) by (auto simp: find_Some_iff)
qed

lemma numbered_index_nth:
  "numbered log \<Longrightarrow> e \<in> set log \<Longrightarrow> \<exists>i<length log. e = log ! i \<and> unat (lg_index e) = i + 1"
  by (auto simp: in_set_conv_nth numbered_def)

text \<open>
  What the two nodes have in common: a log, a commit index, a position, a turn that applies
  the entry with the next index and the loop over such turns.  The lemmas hold for both.
\<close>

locale log_applier =
  fixes log :: "'n \<Rightarrow> log_entry list"
    and commit :: "'n \<Rightarrow> uint64"
    and applied :: "'n \<Rightarrow> uint64"
    and able :: "'n \<Rightarrow> bool"
    and turn :: "'n \<Rightarrow> (log_entry \<times> 'n) option"
    and loop :: "'n \<Rightarrow> log_entry list \<times> 'n"
  assumes turn_someD: "turn n = Some (e, n') \<Longrightarrow>
      applied n < commit n \<and> find (\<lambda>x. lg_index x = applied n + 1) (log n) = Some e
      \<and> log n' = log n \<and> commit n' = commit n \<and> applied n' = applied n + 1 \<and> able n' = able n"
    and turn_enabled: "able n \<Longrightarrow> applied n < commit n \<Longrightarrow>
      find (\<lambda>x. lg_index x = applied n + 1) (log n) \<noteq> None \<Longrightarrow> turn n \<noteq> None"
    and loop_unfold: "loop n = (case turn n of None \<Rightarrow> ([], n) | Some (e, n') \<Rightarrow> (e # fst (loop n'), snd (loop n')))"
begin

lemma applied_advance: "turn n = Some (e, n') \<Longrightarrow> unat (applied n') = unat (applied n) + 1"
  using turn_someD unat_Suc_of_less by metis

text \<open>A turn waits forever at an index the log does not hold.\<close>

lemma turn_gap: "find (\<lambda>x. lg_index x = applied n + 1) (log n) = None \<Longrightarrow> turn n = None"
  using turn_someD by (cases "turn n") fastforce+

lemma turn_numbered:
  assumes "turn n = Some (e, n')" "set (log n) \<subseteq> set ref" "numbered ref"
  shows "unat (applied n) < length ref \<and> e = ref ! unat (applied n)"
proof -
  have e: "lg_index e = applied n + 1" "e \<in> set (log n)" "unat (applied n + 1) = unat (applied n) + 1"
    using turn_someD [OF assms(1)] applied_advance [OF assms(1)] by (auto simp: find_Some_iff)
  with numbered_index_nth [OF assms(3)] assms(2) show ?thesis by fastforce
qed

text \<open>On a log without gaps the loop applies everything that is committed, once and in order.\<close>

lemma loop_applies_all:
  assumes "numbered (log n)" "able n" "unat (commit n) \<le> length (log n)" "applied n \<le> commit n"
  shows "fst (loop n) = drop (unat (applied n)) (take (unat (commit n)) (log n)) \<and> applied (snd (loop n)) = commit n"
  using assms
proof (induction "unat (commit n) - unat (applied n)" arbitrary: n)
  case 0
  then have "applied n = commit n" by (simp add: word_le_nat_alt word_unat_eq_iff)
  moreover from this have "turn n = None" using turn_someD by (cases "turn n") fastforce+
  ultimately show ?case by (simp add: loop_unfold [of n])
next
  case (Suc k)
  then have lt: "unat (applied n) < unat (commit n)" by simp
  then have lt': "applied n < commit n" by (simp add: word_less_nat_alt)
  have f: "find (\<lambda>x. lg_index x = applied n + 1) (log n) = Some (log n ! unat (applied n))"
    using Suc.prems lt unat_Suc_of_less [OF lt'] by (intro numbered_find) simp_all
  obtain e n' where t: "turn n = Some (e, n')" using turn_enabled [OF Suc.prems(2) lt'] f by auto
  note d = turn_someD [OF t] applied_advance [OF t]
  have "fst (loop n') = drop (unat (applied n')) (take (unat (commit n')) (log n')) \<and> applied (snd (loop n')) = commit n'"
    using d Suc lt by (intro Suc.hyps(1)) (simp_all add: word_le_nat_alt)
  moreover have "drop (unat (applied n)) (take (unat (commit n)) (log n))
      = e # drop (unat (applied n')) (take (unat (commit n)) (log n))"
    using d f lt Suc.prems(3) by (simp add: Cons_nth_drop_Suc [symmetric])
  ultimately show ?case using t d by (simp add: loop_unfold [of n])
qed

end

interpretation la: log_applier ld_log ld_commit_index ld_last_applied
  "\<lambda>l. ld_callback l \<and> \<not> ld_shutdown l" leader_apply_turn leader_apply_loop
proof unfold_locales
  show "leader_apply_loop n = (case leader_apply_turn n of None \<Rightarrow> ([], n)
      | Some (e, n') \<Rightarrow> (e # fst (leader_apply_loop n'), snd (leader_apply_loop n')))" for n
    by (simp add: leader_apply_loop.simps [of n] split: option.splits prod.splits)
qed (auto simp: leader_apply_turn_def apply_next_def Let_def split: if_splits option.splits)

interpretation fa: log_applier fo_log fo_commit_index fo_last_applied
  "\<lambda>f. fo_callback f \<and> \<not> fo_shutdown f" follower_apply_turn follower_apply_loop
proof unfold_locales
  show "follower_apply_loop n = (case follower_apply_turn n of None \<Rightarrow> ([], n)
      | Some (e, n') \<Rightarrow> (e # fst (follower_apply_loop n'), snd (follower_apply_loop n')))" for n
    by (simp add: follower_apply_loop.simps [of n] split: option.splits prod.splits)
qed (auto simp: follower_apply_turn_def apply_next_def Let_def split: if_splits option.splits)

section \<open>The connection of a follower\<close>

lemma newline_find: "CHR 0x0A \<notin> set line \<Longrightarrow> find_char (line @ CHR 0x0A # rest) (CHR 0x0A) 0 = Some (length line)"
  using find_char_append [of "[]" 0 "CHR 0x0A" line rest] by simp

lemma follower_lines_append:
  "follower_lines (bs @ ys) f =
     (case follower_lines bs f of (k, r, f') \<Rightarrow>
        (case follower_lines (r @ ys) f' of (k', rest) \<Rightarrow> (k + k', rest)))"
proof (induction bs f rule: follower_lines.induct)
  case (1 bs f)
  show ?case
  proof (cases "find_char bs (CHR 0x0A) 0")
    case None
    then show ?thesis by (simp add: follower_lines.simps [of bs f] split: prod.splits)
  next
    case (Some pos)
    note e = find_char_extend [OF Some, of ys]
    have t: "take pos (bs @ ys) = take pos bs" "drop (pos + 1) (bs @ ys) = drop (pos + 1) bs @ ys"
      using e by simp_all
    show ?thesis
    proof (cases "take pos bs = []")
      case True
      then show ?thesis using "1.IH"(1) [OF Some refl refl] e t Some
        by (simp add: follower_lines.simps [of bs f] follower_lines.simps [of "bs @ ys" f] Let_def)
    next
      case False
      show ?thesis
      proof (cases "message_deserialize (take pos bs)")
        case (Inl err)
        then show ?thesis using "1.IH"(2) [OF Some refl refl False Inl] e t Some False
          by (simp add: follower_lines.simps [of bs f] follower_lines.simps [of "bs @ ys" f] Let_def)
      next
        case (Inr msg)
        then show ?thesis using "1.IH"(3) [OF Some refl refl False Inr] e t Some False
          by (simp add: follower_lines.simps [of bs f] follower_lines.simps [of "bs @ ys" f] Let_def split: prod.splits)
      qed
    qed
  qed
qed

lemma handleReplication_shutdown [simp]: "fo_shutdown (handleReplication msg f) = fo_shutdown f"
  by (simp add: handleReplication_def)

lemma follower_lines_shutdown: "follower_lines bs f = (k, r, f') \<Longrightarrow> fo_shutdown f' = fo_shutdown f"
proof (induction bs f arbitrary: k r f' rule: follower_lines.induct)
  case (1 bs f)
  then show ?case
    by (simp add: follower_lines.simps [of bs f] Let_def split: option.splits if_splits sum.splits prod.splits)
qed

lemma follower_lines_rest: "find_char (fst (snd (follower_lines bs f))) (CHR 0x0A) 0 = None"
proof (induction bs f rule: follower_lines.induct)
  case (1 bs f)
  show ?case
  proof (cases "find_char bs (CHR 0x0A) 0")
    case None
    then show ?thesis by (simp add: follower_lines.simps [of bs f])
  next
    case (Some pos)
    note IH = "1.IH" [OF Some refl refl]
    show ?thesis
    proof (cases "take pos bs = []")
      case True
      then show ?thesis using IH(1) Some by (simp add: follower_lines.simps [of bs f] Let_def)
    next
      case False
      then show ?thesis using IH(2,3) Some
        by (cases "message_deserialize (take pos bs)")
          (auto simp: follower_lines.simps [of bs f] Let_def split: prod.splits)
    qed
  qed
qed

text \<open>How the stream is cut into deliveries does not matter.\<close>

lemma handleConnection_lines:
  assumes "\<not> fo_shutdown f" "[] \<notin> set chunks" "find_char buffer (CHR 0x0A) 0 = None"
  shows "handleConnection chunks buffer f = follower_lines (buffer @ concat chunks) f"
  using assms
proof (induction chunks buffer f rule: handleConnection.induct)
  case (1 buffer f)
  then show ?case by (simp add: follower_lines.simps [of buffer f])
next
  case (2 chunk chunks buffer f)
  obtain k r f' where l: "follower_lines (buffer @ chunk) f = (k, r, f')" by (cases "follower_lines (buffer @ chunk) f") auto
  have "handleConnection chunks r f' = follower_lines (r @ concat chunks) f'"
    using "2.prems" l follower_lines_shutdown [OF l] follower_lines_rest [of "buffer @ chunk" f]
    by (intro "2.IH" [OF _ l [symmetric] refl]) auto
  moreover have "\<not> (fo_shutdown f \<or> chunk = [])" using "2.prems" by auto
  ultimately show ?case
    using l follower_lines_append [of "buffer @ chunk" "concat chunks" f] by simp
qed

text \<open>A message that fits on a line: no line feed in a key or a value.\<close>

definition one_line :: "replication_message \<Rightarrow> bool" where
  "one_line msg \<longleftrightarrow>
     (\<forall>e\<in>set (rm_entries msg). CHR 0x0A \<notin> set (lg_key e) \<and> CHR 0x0A \<notin> set (lg_value e))"

definition sendable :: "replication_message \<Rightarrow> bool" where
  "sendable msg \<longleftrightarrow> rm_entries msg \<noteq> [] \<and> list_all (\<lambda>e. named_rop (lg_op e)) (rm_entries msg)
     \<and> length (message_serialize msg) < 2 ^ 64 \<and> one_line msg"

lemma one_line_text: "one_line msg \<Longrightarrow> CHR 0x0A \<notin> set (message_serialize msg)"
  by (auto simp: message_serialize_def log_entry_serialize_def Let_def bar_def numeral_no_newline one_line_def)

lemma message_serialize_not_Nil: "message_serialize msg \<noteq> []"
  by (simp add: message_serialize_def)

lemma follower_lines_message:
  assumes "sendable msg"
  shows "follower_lines (message_serialize msg @ CHR 0x0A # rest) f
    = (case follower_lines rest (handleReplication msg f) of (k, r) \<Rightarrow> (k + 1, r))"
proof -
  let ?t = "message_serialize msg"
  have "find_char (?t @ CHR 0x0A # rest) (CHR 0x0A) 0 = Some (length ?t)"
    using assms one_line_text by (intro newline_find) (simp add: sendable_def)
  moreover have "message_deserialize ?t = Inr msg"
    using assms by (intro message_read_back) (simp_all add: sendable_def)
  ultimately show ?thesis
    by (simp add: follower_lines.simps [of "?t @ CHR 0x0A # rest"] Let_def message_serialize_not_Nil)
qed

definition wire_text :: "replication_message list \<Rightarrow> bytes" where
  "wire_text msgs = concat (map (\<lambda>m. message_serialize m @ [CHR 0x0A]) msgs)"

lemma follower_lines_messages:
  "list_all sendable msgs \<Longrightarrow> follower_lines (wire_text msgs) f = (length msgs, [], fold handleReplication msgs f)"
proof (induction msgs arbitrary: f)
  case Nil
  then show ?case by (simp add: wire_text_def follower_lines.simps [of "[]"] find_char_def)
next
  case (Cons m ms)
  have "wire_text (m # ms) = message_serialize m @ CHR 0x0A # wire_text ms" by (simp add: wire_text_def)
  then show ?case using Cons follower_lines_message [of m "wire_text ms" f] by simp
qed

text \<open>
  What the leader writes on the wire is what the follower handles.  However the bytes of a
  sequence of messages are cut into deliveries, the follower handles exactly these messages, in
  order, acknowledges each once and keeps nothing in its buffer, as long as no key or value
  contains a line feed.
\<close>

lemma follower_reads_messages:
  assumes "list_all sendable msgs" "concat chunks = wire_text msgs" "[] \<notin> set chunks" "\<not> fo_shutdown f"
  shows "handleConnection chunks [] f = (length msgs, [], fold handleReplication msgs f)"
proof -
  have "find_char [] (CHR 0x0A) 0 = None" by (simp add: find_char_def)
  from handleConnection_lines [OF assms(4,3) this] show ?thesis
    using assms(2) follower_lines_messages [OF assms(1), of f] by simp
qed

text \<open>Messages spread over several connections, with failed calls of \<open>accept\<close> between them, are handled in order.\<close>

lemma fold_handleReplication_shutdown [simp]: "fo_shutdown (fold handleReplication msgs f) = fo_shutdown f"
  by (induction msgs arbitrary: f) simp_all

lemma listener_reads_messages:
  assumes "list_all2 (\<lambda>msgs peer. case peer of None \<Rightarrow> msgs = []
      | Some chunks \<Rightarrow> list_all sendable msgs \<and> concat chunks = wire_text msgs \<and> [] \<notin> set chunks) mss peers"
    and "\<not> fo_shutdown f"
  shows "listenerLoop peers f = (length (concat mss), fold handleReplication (concat mss) f)"
  using assms
proof (induction mss peers arbitrary: f rule: list_all2_induct)
  case (Cons msgs mss peer peers)
  show ?case
  proof (cases peer)
    case None
    then show ?thesis using Cons by simp
  next
    case (Some chunks)
    then have "handleConnection chunks [] f = (length msgs, [], fold handleReplication msgs f)"
      using Cons.hyps(1) Cons.prems by (intro follower_reads_messages) simp_all
    then show ?thesis using Some Cons.IH [of "fold handleReplication msgs f"] Cons.prems by simp
  qed
qed simp

definition blank_config :: replication_config where
  "blank_config = \<lparr>rc_node_id = 2, rc_role = Role_FOLLOWER, rc_host = ''127.0.0.1'', rc_replication_port = 9101, rc_peers = []\<rparr>"

definition put_message :: "uint64 \<Rightarrow> replication_message" where
  "put_message i = \<lparr>rm_term = 0, rm_leader_commit = i,
     rm_entries = [\<lparr>lg_term = 0, lg_index = i, lg_op = Rop_PUT, lg_key = ''k'', lg_value = ''v''\<rparr>]\<rparr>"

lemma follower_reads_messages_example:
  "handleConnection [''0|1|1|13|0|1|1|1|k|1|v'', [CHR 0x0A, CHR ''0''], ''|2|1|13|0|2|1|1|k|1|v'' @ [CHR 0x0A]] []
     (follower_new blank_config)
   = (length [put_message 1, put_message 2], [], fold handleReplication [put_message 1, put_message 2] (follower_new blank_config))"
  by (rule follower_reads_messages)
    (simp_all add: sendable_def one_line_def named_rop_def put_message_def message_serialize_def log_entry_serialize_def
      Let_def bar_def to_string.simps byte_of_rop_def digit_char_def char_of_def bit_iff_odd wire_text_def follower_new_def)

end
