(* ===== verification/TCP_Server.thy ===== *)
theory TCP_Server
  imports Engine_Calls Client_Protocol Server_Config Replication
begin

text \<open>
  The server (\<open>server/src/tcp_server.cpp\<close>): the thread pool, the accounting of connections, the
  construction from a configuration, the execution of a command, and the application of
  replicated entries.  It puts together the engine, the client protocol and the replication
  layer.  Binding and accepting sockets is not modelled beyond what decides about a connection.
\<close>

section \<open>The thread pool\<close>

record 't thread_pool =
  tp_tasks :: "'t list"
  tp_shutdown :: bool

definition pool_new :: "'t thread_pool" where
  "pool_new = \<lparr>tp_tasks = [], tp_shutdown = False\<rparr>"

definition pool_submit :: "'t \<Rightarrow> 't thread_pool \<Rightarrow> 't thread_pool" where
  "pool_submit task p = (if tp_shutdown p then p else p\<lparr>tp_tasks := tp_tasks p @ [task]\<rparr>)"

definition pool_shutdown :: "'t thread_pool \<Rightarrow> 't thread_pool" where
  "pool_shutdown p = p\<lparr>tp_shutdown := True\<rparr>"

definition pool_queueSize :: "'t thread_pool \<Rightarrow> nat" where
  "pool_queueSize p = length (tp_tasks p)"

text \<open>What a worker does when it takes the lock: it waits, ends, or takes the oldest task.\<close>

datatype 't worker_turn = Worker_waits | Worker_ends | Worker_runs 't "'t thread_pool"

definition workerLoop :: "'t thread_pool \<Rightarrow> 't worker_turn" where
  "workerLoop p =
     (case tp_tasks p of
        [] \<Rightarrow> if tp_shutdown p then Worker_ends else Worker_waits
      | task # rest \<Rightarrow> Worker_runs task (p\<lparr>tp_tasks := rest\<rparr>))"

section \<open>The server\<close>

record tcp_server =
  sv_config :: server_config
  sv_engine :: engine
  sv_leader :: "leader option"
  sv_follower :: "follower option"
  sv_running :: bool
  sv_active :: uint64
  sv_pool :: "int thread_pool"

text \<open>The replication configuration; the peers start unconnected.\<close>

definition replication_of :: "server_config \<Rightarrow> node_role \<Rightarrow> replication_config" where
  "replication_of c role =
     \<lparr>rc_node_id = sc_node_id c, rc_role = role, rc_host = sc_host c, rc_replication_port = sc_replication_port c,
      rc_peers = map (\<lambda>(host, port). \<lparr>peer_host = host, peer_port = port, peer_socket_fd = -1, peer_connected = False\<rparr>) (sc_peers c)\<rparr>"

definition server_new :: "crc \<Rightarrow> server_config \<Rightarrow> file_system \<Rightarrow> kv_error + tcp_server" where
  "server_new zcrc c fs =
     sum_bind (engine_open zcrc (sc_data_dir c) (unat (sc_cache_size c)) fs) (\<lambda>e.
       let distributed = (sc_node_id c > 0 \<and> sc_role c \<noteq> []) in
       Inr \<lparr>sv_config = c, sv_engine = e,
            sv_leader = (if distributed \<and> sc_role c = ''leader''
                         then Some (leader_setApplyCallback (leader_new (replication_of c Role_LEADER))) else None),
            sv_follower = (if distributed \<and> sc_role c = ''follower''
                           then Some (follower_setApplyCallback (follower_new (replication_of c Role_FOLLOWER))) else None),
            sv_running = False, sv_active = 0, sv_pool = pool_new\<rparr>)"

section \<open>Connections\<close>

text \<open>One round of \<open>acceptLoop\<close> with an accepted socket: it is refused at the limit.\<close>

definition accept_client :: "int \<Rightarrow> tcp_server \<Rightarrow> tcp_server" where
  "accept_client fd sv =
     (if sv_active sv \<ge> sc_max_connections (sv_config sv) then sv
      else sv\<lparr>sv_active := sv_active sv + 1, sv_pool := pool_submit fd (sv_pool sv)\<rparr>)"

text \<open>The end of the task of a connection.\<close>

definition client_done :: "tcp_server \<Rightarrow> tcp_server" where
  "client_done sv = sv\<lparr>sv_active := sv_active sv - 1\<rparr>"

definition server_shutdown :: "tcp_server \<Rightarrow> tcp_server" where
  "server_shutdown sv =
     (if \<not> sv_running sv then sv
      else sv\<lparr>sv_running := False, sv_leader := map_option leader_stop (sv_leader sv),
              sv_follower := map_option follower_stop (sv_follower sv), sv_pool := pool_shutdown (sv_pool sv)\<rparr>)"

section \<open>Executing a command\<close>

text \<open>
  An exception that is caught: undefined behaviour is not one.  The call of the engine may
  have to wait for another thread; then it is \<open>None\<close>.
\<close>

type_synonym reply = "kv_error + (response \<times> tcp_server) option"

definition guarded :: "tcp_server \<Rightarrow> reply \<Rightarrow> reply" where
  "guarded sv r =
     (case r of
        Inl UndefinedBehaviour \<Rightarrow> Inl UndefinedBehaviour
      | Inl _ \<Rightarrow> Inr (Some (response_error ''INTERNAL_ERROR'', sv))
      | Inr x \<Rightarrow> Inr x)"

definition status_text :: "tcp_server \<Rightarrow> string" where
  "status_text sv =
     ''Node ID: '' @ to_string (unat (sc_node_id (sv_config sv))) @ [newline] @
     (case sv_leader sv of
        Some l \<Rightarrow> ''Role: LEADER'' @ [newline] @ ''Term: '' @ to_string (unat (ld_current_term l)) @ [newline]
                  @ ''Commit Index: '' @ to_string (unat (ld_commit_index l)) @ [newline]
      | None \<Rightarrow> (case sv_follower sv of
          Some f \<Rightarrow> ''Role: FOLLOWER'' @ [newline] @ ''Term: '' @ to_string (unat (fo_current_term f)) @ [newline]
                    @ ''Commit Index: '' @ to_string (unat (fo_commit_index f)) @ [newline]
        | None \<Rightarrow> ''Role: STANDALONE'' @ [newline]))
     @ ''Active Connections: '' @ to_string (unat (sv_active sv))"

text \<open>The switch over the type of the command; \<open>c\<close> names the promise of a write.\<close>

definition execute_locally :: "(string \<Rightarrow> uint64) \<Rightarrow> crc \<Rightarrow> nat \<Rightarrow> request \<Rightarrow> tcp_server \<Rightarrow> reply" where
  "execute_locally hasher zcrc c req sv =
     (case rq_type req of
        CT_PUT \<Rightarrow> Inr (map_option (\<lambda>(success, e). (if success then response_ok ''STORED'' else response_error ''STORE_FAILED'',
                                               sv\<lparr>sv_engine := e\<rparr>))
                     (engine_put zcrc (rq_key req) (rq_value req) c (sv_engine sv)))
      | CT_GET \<Rightarrow> sum_bind (engine_get hasher (rq_key req) (sv_engine sv)) (\<lambda>(r, e).
          Inr (Some (case r of
                       Some x \<Rightarrow> if ent_type x = Et_PUT then okWithValue (ent_value x) else notFound
                     | None \<Rightarrow> notFound, sv\<lparr>sv_engine := e\<rparr>)))
      | CT_DELETE \<Rightarrow> sum_bind (engine_del hasher zcrc (rq_key req) c (sv_engine sv)) (\<lambda>r.
          Inr (map_option (\<lambda>(success, e). (if success then response_ok ''DELETED'' else response_error ''DELETE_FAILED'',
                                            sv\<lparr>sv_engine := e\<rparr>)) r))
      | CT_PING \<Rightarrow> Inr (Some (response_ok ''PONG'', sv))
      | CT_QUIT \<Rightarrow> Inr (Some (response_ok ''BYE'', sv))
      | CT_STATUS \<Rightarrow> Inr (Some (okWithValue (status_text sv), sv))
      | CT_UNKNOWN \<Rightarrow> Inr (Some (response_error ''UNKNOWN_COMMAND'', sv)))"

definition is_write :: "request \<Rightarrow> bool" where
  "is_write req \<longleftrightarrow> rq_type req = CT_PUT \<or> rq_type req = CT_DELETE"

definition write_entry :: "request \<Rightarrow> log_entry" where
  "write_entry req =
     \<lparr>lg_term = 0, lg_index = 0, lg_op = (if rq_type req = CT_PUT then Rop_PUT else Rop_DELETE),
      lg_key = rq_key req, lg_value = rq_value req\<rparr>"

text \<open>\<open>net\<close>: what the network does when the leader ships the write.\<close>

definition executeCommand :: "(string \<Rightarrow> uint64) \<Rightarrow> crc \<Rightarrow> (nat \<Rightarrow> net_call) \<Rightarrow> nat \<Rightarrow> request \<Rightarrow> tcp_server \<Rightarrow> reply" where
  "executeCommand hasher zcrc net c req sv =
     (if sv_follower sv \<noteq> None \<and> is_write req then
        Inr (Some (response_error ''NOT_LEADER - Write to leader at port 9000'', sv))
      else
        let sv1 = (case sv_leader sv of
                     None \<Rightarrow> sv
                   | Some l \<Rightarrow> if is_write req then sv\<lparr>sv_leader := Some (snd (leader_replicate net (write_entry req) l))\<rparr> else sv)
        in guarded sv1 (execute_locally hasher zcrc c req sv1))"

text \<open>\<open>applyLogEntry\<close>: exceptions are caught, \<open>None\<close> is a call that waits.\<close>

definition applyLogEntry :: "(string \<Rightarrow> uint64) \<Rightarrow> crc \<Rightarrow> nat \<Rightarrow> log_entry \<Rightarrow> tcp_server \<Rightarrow> kv_error + tcp_server option" where
  "applyLogEntry hasher zcrc c entry sv =
     (case lg_op entry of
        Rop_PUT \<Rightarrow> Inr (map_option (\<lambda>(_, e). sv\<lparr>sv_engine := e\<rparr>) (engine_put zcrc (lg_key entry) (lg_value entry) c (sv_engine sv)))
      | Rop_DELETE \<Rightarrow>
          (case engine_del hasher zcrc (lg_key entry) c (sv_engine sv) of
             Inl UndefinedBehaviour \<Rightarrow> Inl UndefinedBehaviour
           | Inl _ \<Rightarrow> Inr (Some sv)
           | Inr r \<Rightarrow> Inr (map_option (\<lambda>(_, e). sv\<lparr>sv_engine := e\<rparr>) r))
      | Rop_RAW _ \<Rightarrow> Inr (Some sv))"

text \<open>One turn of the apply thread of the leader or the follower, with its callback.\<close>

definition server_apply_turn :: "(string \<Rightarrow> uint64) \<Rightarrow> crc \<Rightarrow> nat \<Rightarrow> tcp_server \<Rightarrow> kv_error + tcp_server option" where
  "server_apply_turn hasher zcrc c sv =
     (case map_option leader_apply_turn (sv_leader sv) of
        Some (Some (e, l)) \<Rightarrow> sum_bind (applyLogEntry hasher zcrc c e sv) (\<lambda>r. Inr (map_option (\<lambda>sv'. sv'\<lparr>sv_leader := Some l\<rparr>) r))
      | Some None \<Rightarrow> Inr (Some sv)
      | None \<Rightarrow>
          (case map_option follower_apply_turn (sv_follower sv) of
             Some (Some (e, f)) \<Rightarrow> sum_bind (applyLogEntry hasher zcrc c e sv) (\<lambda>r. Inr (map_option (\<lambda>sv'. sv'\<lparr>sv_follower := Some f\<rparr>) r))
           | _ \<Rightarrow> Inr (Some sv)))"

section \<open>A server on its own\<close>

text \<open>The specification of a command on a map from keys to values.\<close>

definition spec_command :: "request \<Rightarrow> (string \<Rightarrow> string option) \<Rightarrow> response \<times> (string \<Rightarrow> string option)" where
  "spec_command req m =
     (case rq_type req of
        CT_PUT \<Rightarrow> (response_ok ''STORED'', m(rq_key req \<mapsto> rq_value req))
      | CT_GET \<Rightarrow> (case m (rq_key req) of Some v \<Rightarrow> okWithValue v | None \<Rightarrow> notFound, m)
      | CT_DELETE \<Rightarrow> (if m (rq_key req) = None then response_error ''DELETE_FAILED'' else response_ok ''DELETED'',
                     m(rq_key req := None))
      | CT_PING \<Rightarrow> (response_ok ''PONG'', m)
      | CT_QUIT \<Rightarrow> (response_ok ''BYE'', m)
      | _ \<Rightarrow> (response_error ''UNKNOWN_COMMAND'', m))"

fun spec_commands :: "request list \<Rightarrow> (string \<Rightarrow> string option) \<Rightarrow> response list \<times> (string \<Rightarrow> string option)" where
  "spec_commands [] m = ([], m)"
| "spec_commands (r # rs) m =
     (case spec_command r m of (a, m1) \<Rightarrow> (case spec_commands rs m1 of (as, m2) \<Rightarrow> (a # as, m2)))"

definition command_ok :: "request \<Rightarrow> bool" where
  "command_ok r \<longleftrightarrow> length (rq_key r) < 2 ^ 32 \<and> length (rq_value r) < 2 ^ 32 \<and> rq_type r \<noteq> CT_STATUS"

definition command_size :: "request \<Rightarrow> nat" where
  "command_size r = 17 + length (rq_key r) + length (rq_value r)"

definition standalone :: "tcp_server \<Rightarrow> bool" where
  "standalone sv \<longleftrightarrow> sv_leader sv = None \<and> sv_follower sv = None"

lemma fits_in_memtable_mono: "fits_in_memtable (k + n) e \<Longrightarrow> fits_in_memtable n e"
  by (simp add: fits_in_memtable_def)

lemma local_command:
  assumes "engine_ready hasher (sv_engine sv)" "command_ok r" "unat (e_seq (sv_engine sv)) + 1 < 2 ^ 64"
    and "fits_in_memtable (command_size r + n) (sv_engine sv)"
  obtains e' where "execute_locally hasher zcrc c r sv
      = Inr (Some (fst (spec_command r (engine_map (sv_engine sv))), sv\<lparr>sv_engine := e'\<rparr>))"
    "engine_map e' = snd (spec_command r (engine_map (sv_engine sv)))"
    "engine_ready hasher e'" "fits_in_memtable n e'" "unat (e_seq e') \<le> unat (e_seq (sv_engine sv)) + 1"
proof (cases "rq_type r")
  case CT_PUT
  obtain e' where "engine_put zcrc (rq_key r) (rq_value r) c (sv_engine sv) = Some (True, e')"
    "engine_map e' = (engine_map (sv_engine sv))(rq_key r \<mapsto> rq_value r)" "unat (e_seq e') = unat (e_seq (sv_engine sv)) + 1"
    "engine_ready hasher e' \<and> fits_in_memtable n e'"
    using engine_put_correct [OF assms(1) _ _ assms(3), of "rq_key r" "rq_value r" zcrc c] assms(2,4)
    unfolding command_ok_def command_size_def by metis
  then show ?thesis using CT_PUT by (intro that [of e']) (simp_all add: execute_locally_def spec_command_def)
next
  case CT_GET
  obtain x ca where "engine_get hasher (rq_key r) (sv_engine sv) = Inr (x, (sv_engine sv)\<lparr>e_cache := ca\<rparr>)"
    "engine_ready hasher ((sv_engine sv)\<lparr>e_cache := ca\<rparr>)"
    "map_option ent_value x = engine_map (sv_engine sv) (rq_key r)" "\<And>y. x = Some y \<Longrightarrow> ent_type y = Et_PUT"
    using engine_get_ready [OF assms(1)] by metis
  moreover from this have "engine_map ((sv_engine sv)\<lparr>e_cache := ca\<rparr>) = engine_map (sv_engine sv)"
    by (intro engine_ready_cache(2) [OF assms(1)]) (simp add: engine_ready_def)
  ultimately show ?thesis using CT_GET fits_in_memtable_mono [OF assms(4)]
    by (intro that [of "(sv_engine sv)\<lparr>e_cache := ca\<rparr>"])
      (auto simp: execute_locally_def spec_command_def map_option_case split: option.splits)
next
  case CT_DELETE
  obtain e' where "engine_del hasher zcrc (rq_key r) c (sv_engine sv)
      = Inr (Some (engine_map (sv_engine sv) (rq_key r) \<noteq> None, e'))"
    "engine_map e' = (engine_map (sv_engine sv))(rq_key r := None)" "unat (e_seq e') = unat (e_seq (sv_engine sv)) + 1"
    "\<And>n. fits_in_memtable (17 + length (rq_key r) + n) (sv_engine sv) \<Longrightarrow> engine_ready hasher e' \<and> fits_in_memtable n e'"
    using engine_del_correct [OF assms(1) _ assms(3), of "rq_key r" zcrc c] assms(2) unfolding command_ok_def by metis
  moreover have "fits_in_memtable (17 + length (rq_key r) + (length (rq_value r) + n)) (sv_engine sv)"
    using assms(4) by (simp add: command_size_def add.assoc)
  ultimately show ?thesis using CT_DELETE fits_in_memtable_mono
    by (intro that [of e']) (auto simp: execute_locally_def spec_command_def)
qed (use assms fits_in_memtable_mono [OF assms(4)] in
    \<open>(intro that [of "sv_engine sv"]; simp add: execute_locally_def spec_command_def command_ok_def)+\<close>)

lemma guarded_Inr [simp]: "guarded sv (Inr x) = Inr x"
  by (simp add: guarded_def)

definition get_request :: "string \<Rightarrow> request" where
  "get_request k = \<lparr>rq_type = CT_GET, rq_key = k, rq_value = []\<rparr>"

definition put_request :: "string \<Rightarrow> string \<Rightarrow> request" where
  "put_request k v = \<lparr>rq_type = CT_PUT, rq_key = k, rq_value = v\<rparr>"

definition small_config :: server_config where
  "small_config = default_config\<lparr>sc_data_dir := ''d'', sc_cache_size := 2\<rparr>"

definition no_net :: "nat \<Rightarrow> net_call" where
  "no_net i = \<lparr>nc_send = 0, nc_recv = 0, nc_buf = []\<rparr>"

text \<open>A server that was just started with an engine; \<open>role\<close> and \<open>n\<close> are its configured role and identifier.\<close>

definition started :: "uint32 \<Rightarrow> string \<Rightarrow> engine \<Rightarrow> tcp_server" where
  "started n role e =
     (let c = small_config\<lparr>sc_node_id := n, sc_role := role\<rparr> in
      \<lparr>sv_config = c, sv_engine = e,
       sv_leader = (if n > 0 \<and> role = ''leader''
                    then Some (leader_setApplyCallback (leader_new (replication_of c Role_LEADER))) else None),
       sv_follower = (if n > 0 \<and> role = ''follower''
                      then Some (follower_setApplyCallback (follower_new (replication_of c Role_FOLLOWER))) else None),
       sv_running = False, sv_active = 0, sv_pool = pool_new\<rparr>)"

lemma fresh_server:
  obtains e where "server_new (\<lambda>c b. c) (small_config\<lparr>sc_node_id := n, sc_role := role\<rparr>) fs_empty = Inr (started n role e)"
    "engine_ready (\<lambda>s. 0) e" "engine_map e = Map.empty" "unat (e_seq e) = 1"
    "\<And>n. n < kMemTableThreshold \<Longrightarrow> fits_in_memtable n e"
proof -
  obtain e where e: "engine_open (\<lambda>c b. c) ''d'' 2 fs_empty = Inr e" "engine_ready (\<lambda>s. 0) e"
    "engine_map e = Map.empty" "unat (e_seq e) = 1" "\<And>n. n < kMemTableThreshold \<Longrightarrow> fits_in_memtable n e"
    by (rule engine_fresh_ready) blast
  have "server_new (\<lambda>c b. c) (small_config\<lparr>sc_node_id := n, sc_role := role\<rparr>) fs_empty = Inr (started n role e)"
    using e(1) by (auto simp: server_new_def started_def small_config_def default_config_def Let_def)
  then show ?thesis using that e(2-5) by blast
qed

section \<open>A leader applies every write twice\<close>

lemma leader_put:
  assumes "engine_ready hasher (sv_engine sv)" "length k < 2 ^ 32" "length v < 2 ^ 32"
    and "unat (e_seq (sv_engine sv)) + 1 < 2 ^ 64" "fits_in_memtable (17 + length k + length v + n) (sv_engine sv)"
    and "sv_leader sv = Some l" "sv_follower sv = None"
  obtains e' where "executeCommand hasher zcrc net c (put_request k v) sv
      = Inr (Some (response_ok ''STORED'', sv\<lparr>sv_leader := Some (snd (leader_replicate net (write_entry (put_request k v)) l)), sv_engine := e'\<rparr>))"
    "engine_map e' = (engine_map (sv_engine sv))(k \<mapsto> v)" "engine_ready hasher e'" "fits_in_memtable n e'"
    "unat (e_seq e') = unat (e_seq (sv_engine sv)) + 1"
proof -
  obtain e' where e': "engine_put zcrc k v c (sv_engine sv) = Some (True, e')"
    "engine_map e' = (engine_map (sv_engine sv))(k \<mapsto> v)" "unat (e_seq e') = unat (e_seq (sv_engine sv)) + 1"
    "engine_ready hasher e' \<and> fits_in_memtable n e'"
    using engine_put_correct [OF assms(1-4), of zcrc c] assms(5) by metis
  have "executeCommand hasher zcrc net c (put_request k v) sv
      = Inr (Some (response_ok ''STORED'', sv\<lparr>sv_leader := Some (snd (leader_replicate net (write_entry (put_request k v)) l)), sv_engine := e'\<rparr>))"
    using assms(6,7) e'(1) by (simp add: executeCommand_def execute_locally_def put_request_def is_write_def)
  then show ?thesis using that e' by blast
qed

lemma replicate_alone:
  assumes "rc_peers (ld_config l) = []"
  shows "snd (leader_replicate net e l) = leader_commit (appendLog e l)"
proof -
  have "ld_config (leader_commit (appendLog e l)) = ld_config l" by (simp add: leader_commit_def appendLog_def)
  then show ?thesis
    using assms by (cases "leader_commit (appendLog e l)") (simp add: leader_replicate_def leader_ship_def shipEntries_def Let_def)
qed

lemma two_writes_apply:
  fixes e1 e2 :: log_entry
  assumes "rc_peers (ld_config l) = []" "ld_log l = []" "ld_last_applied l = 0" "ld_callback l" "\<not> ld_shutdown l"
  shows "\<exists>l'. leader_apply_turn (snd (leader_replicate net e2 (snd (leader_replicate net e1 l))))
     = Some (e1\<lparr>lg_index := 1, lg_term := ld_current_term l\<rparr>, l')"
proof -
  have "ld_config (leader_commit (appendLog e1 l)) = ld_config l" by (simp add: leader_commit_def appendLog_def)
  then show ?thesis
    using assms by (simp add: replicate_alone leader_apply_turn_def apply_next_def leader_commit_def appendLog_def)
qed

lemma server_get:
  assumes "engine_ready hasher (sv_engine sv)" "engine_map (sv_engine sv) k = Some v"
  obtains ca where "executeCommand hasher zcrc net c (get_request k) sv
      = Inr (Some (okWithValue v, sv\<lparr>sv_engine := (sv_engine sv)\<lparr>e_cache := ca\<rparr>\<rparr>))"
    "engine_ready hasher ((sv_engine sv)\<lparr>e_cache := ca\<rparr>)" "engine_map ((sv_engine sv)\<lparr>e_cache := ca\<rparr>) = engine_map (sv_engine sv)"
proof -
  obtain x ca where g: "engine_get hasher k (sv_engine sv) = Inr (x, (sv_engine sv)\<lparr>e_cache := ca\<rparr>)"
    "engine_ready hasher ((sv_engine sv)\<lparr>e_cache := ca\<rparr>)"
    "map_option ent_value x = engine_map (sv_engine sv) k" "\<And>y. x = Some y \<Longrightarrow> ent_type y = Et_PUT"
    using engine_get_ready [OF assms(1)] by metis
  then obtain y where y: "x = Some y" "ent_value y = v" "ent_type y = Et_PUT" using assms(2) by (cases x) auto
  have "sv\<lparr>sv_leader := sv_leader sv\<rparr> = sv" by simp
  then have "executeCommand hasher zcrc net c (get_request k) sv
      = Inr (Some (okWithValue v, sv\<lparr>sv_engine := (sv_engine sv)\<lparr>e_cache := ca\<rparr>\<rparr>))"
    using g(1) y by (simp add: executeCommand_def execute_locally_def get_request_def is_write_def split: option.splits)
  moreover have "engine_map ((sv_engine sv)\<lparr>e_cache := ca\<rparr>) = engine_map (sv_engine sv)"
    by (rule engine_ready_cache(2) [OF assms(1)]) (use g(2) in \<open>simp add: engine_ready_def\<close>)
  ultimately show ?thesis using that g(2) by blast
qed

text \<open>
  C28: a leader can go back to an older value.  The leader executes a write itself and its apply
  thread executes it again from the log.  There is a run in which a client puts two values under
  a key, both are acknowledged and the second one is read, then the apply thread takes the first
  entry of the log, and the same read returns the first value.
\<close>

theorem leader_reads_go_back:
  "\<exists>sv0 sv1 sv2 sv3 sv4 sv5. server_new (\<lambda>c b. c) (small_config\<lparr>sc_node_id := 1, sc_role := ''leader''\<rparr>) fs_empty = Inr sv0
     \<and> executeCommand (\<lambda>s. 0) (\<lambda>c b. c) no_net 0 (put_request ''k'' ''1'') sv0 = Inr (Some (response_ok ''STORED'', sv1))
     \<and> executeCommand (\<lambda>s. 0) (\<lambda>c b. c) no_net 1 (put_request ''k'' ''2'') sv1 = Inr (Some (response_ok ''STORED'', sv2))
     \<and> executeCommand (\<lambda>s. 0) (\<lambda>c b. c) no_net 2 (get_request ''k'') sv2 = Inr (Some (okWithValue ''2'', sv3))
     \<and> server_apply_turn (\<lambda>s. 0) (\<lambda>c b. c) 3 sv3 = Inr (Some sv4)
     \<and> executeCommand (\<lambda>s. 0) (\<lambda>c b. c) no_net 4 (get_request ''k'') sv4 = Inr (Some (okWithValue ''1'', sv5))"
proof -
  let ?h = "\<lambda>s::string. 0::uint64" and ?z = "\<lambda>c b. c"
  obtain e where e: "server_new ?z (small_config\<lparr>sc_node_id := 1, sc_role := ''leader''\<rparr>) fs_empty = Inr (started 1 ''leader'' e)"
    "engine_ready ?h e" "unat (e_seq e) = 1" "\<And>n. n < kMemTableThreshold \<Longrightarrow> fits_in_memtable n e"
    by (rule fresh_server) blast
  let ?sv = "started 1 ''leader'' e"
  obtain l where l: "sv_leader ?sv = Some l" "rc_peers (ld_config l) = []" "ld_log l = []" "ld_last_applied l = 0"
      "ld_callback l" "\<not> ld_shutdown l" and nf: "sv_follower ?sv = None" "sv_engine ?sv = e"
    by (simp add: started_def leader_setApplyCallback_def leader_new_def replication_of_def small_config_def default_config_def Let_def)
  have room: "fits_in_memtable (17 + 1 + 1 + (17 + 1 + 1 + (17 + 1 + 1))) e" by (rule e(4)) (simp add: kMemTableThreshold_def)
  obtain e1 where p1: "executeCommand ?h ?z no_net 0 (put_request ''k'' ''1'') ?sv
      = Inr (Some (response_ok ''STORED'', ?sv\<lparr>sv_leader := Some (snd (leader_replicate no_net (write_entry (put_request ''k'' ''1'')) l)), sv_engine := e1\<rparr>))"
    "engine_ready ?h e1" "fits_in_memtable (17 + 1 + 1 + (17 + 1 + 1)) e1" "unat (e_seq e1) = 2"
    by (rule leader_put [of ?h ?sv "''k''" "''1''" "17 + 1 + 1 + (17 + 1 + 1)" l ?z no_net 0])
      (use e(2,3) room l(1) nf in simp_all)
  define sv1 where "sv1 = ?sv\<lparr>sv_leader := Some (snd (leader_replicate no_net (write_entry (put_request ''k'' ''1'')) l)), sv_engine := e1\<rparr>"
  let ?l1 = "snd (leader_replicate no_net (write_entry (put_request ''k'' ''1'')) l)"
  have f1: "sv_engine sv1 = e1" "sv_leader sv1 = Some ?l1" "sv_follower sv1 = None" using nf by (simp_all add: sv1_def)
  obtain e2 where p2: "executeCommand ?h ?z no_net 1 (put_request ''k'' ''2'') sv1
      = Inr (Some (response_ok ''STORED'', sv1\<lparr>sv_leader := Some (snd (leader_replicate no_net (write_entry (put_request ''k'' ''2'')) ?l1)), sv_engine := e2\<rparr>))"
    "engine_map e2 = (engine_map e1)(''k'' \<mapsto> ''2'')" "engine_ready ?h e2" "fits_in_memtable (17 + 1 + 1) e2" "unat (e_seq e2) = 3"
    by (rule leader_put [of ?h sv1 "''k''" "''2''" "17 + 1 + 1" ?l1 ?z no_net 1])
      (use p1(2-4) f1 in simp_all)
  define sv2 where "sv2 = sv1\<lparr>sv_leader := Some (snd (leader_replicate no_net (write_entry (put_request ''k'' ''2'')) ?l1)), sv_engine := e2\<rparr>"
  obtain ca where g: "executeCommand ?h ?z no_net 2 (get_request ''k'') sv2
      = Inr (Some (okWithValue ''2'', sv2\<lparr>sv_engine := e2\<lparr>e_cache := ca\<rparr>\<rparr>))" "engine_ready ?h (e2\<lparr>e_cache := ca\<rparr>)"
    by (rule server_get [of ?h sv2 "''k''" "''2''" ?z no_net 2]) (use p2 in \<open>simp_all add: sv2_def\<close>)
  define sv3 where "sv3 = sv2\<lparr>sv_engine := e2\<lparr>e_cache := ca\<rparr>\<rparr>"
  obtain l' where t: "leader_apply_turn (snd (leader_replicate no_net (write_entry (put_request ''k'' ''2'')) ?l1))
      = Some ((write_entry (put_request ''k'' ''1''))\<lparr>lg_index := 1, lg_term := ld_current_term l\<rparr>, l')"
    using two_writes_apply [OF l(2-6)] by blast
  obtain e4 where a: "engine_put ?z ''k'' ''1'' 3 (e2\<lparr>e_cache := ca\<rparr>) = Some (True, e4)"
    "engine_map e4 = (engine_map (e2\<lparr>e_cache := ca\<rparr>))(''k'' \<mapsto> ''1'')"
    "\<And>n. fits_in_memtable (17 + 1 + 1 + n) (e2\<lparr>e_cache := ca\<rparr>) \<Longrightarrow> engine_ready ?h e4 \<and> fits_in_memtable n e4"
    by (rule engine_put_correct [OF g(2), of "''k''" "''1''" ?z 3]) (use p2(5) in simp_all)
  have r4: "engine_ready ?h e4" using a(3) [of 0] p2(4) by simp
  define sv4 where "sv4 = sv3\<lparr>sv_engine := e4, sv_leader := Some l'\<rparr>"
  have s4: "server_apply_turn ?h ?z 3 sv3 = Inr (Some sv4)"
    using t a(1) by (simp add: server_apply_turn_def sv3_def sv2_def sv4_def applyLogEntry_def write_entry_def put_request_def)
  obtain sv5 where "executeCommand ?h ?z no_net 4 (get_request ''k'') sv4 = Inr (Some (okWithValue ''1'', sv5))"
    by (rule server_get [of ?h sv4 "''k''" "''1''" ?z no_net 4]) (use r4 a(2) in \<open>simp_all add: sv4_def\<close>)
  then show ?thesis
    using e(1) p1(1) [folded sv1_def] p2(1) [folded sv2_def] g(1) [folded sv3_def] s4 by blast
qed

section \<open>A client's connection\<close>

text \<open>\<open>handleClient\<close>: the handler with \<open>executeCommand\<close> as its executor; the number names the promises.\<close>

definition command_executor :: "(string \<Rightarrow> uint64) \<Rightarrow> crc \<Rightarrow> (nat \<Rightarrow> net_call) \<Rightarrow> (nat \<times> tcp_server) executor" where
  "command_executor hasher zcrc net req st =
     (case executeCommand hasher zcrc net (fst st) req (snd st) of
        Inr (Some (r, sv)) \<Rightarrow> Some (r, fst st + 1, sv)
      | _ \<Rightarrow> None)"

definition handleClient :: "(string \<Rightarrow> uint64) \<Rightarrow> crc \<Rightarrow> (nat \<Rightarrow> net_call) \<Rightarrow> socket \<Rightarrow> nat \<Rightarrow> tcp_server \<Rightarrow>
    (socket \<times> nat \<times> tcp_server) option" where
  "handleClient hasher zcrc net sk c sv = handler_run (command_executor hasher zcrc net) sk (c, sv)"

text \<open>The specification of a session on the lines of its input.\<close>

fun spec_lines :: "bytes list \<Rightarrow> (string \<Rightarrow> string option) \<Rightarrow> response list \<times> (string \<Rightarrow> string option)" where
  "spec_lines [] m = ([], m)"
| "spec_lines (line # lines) m =
     (case pp_parse line of
        None \<Rightarrow> (case spec_lines lines m of (as, m') \<Rightarrow> (response_error ''INVALID_COMMAND'' # as, m'))
      | Some r \<Rightarrow>
          (case spec_command r m of (a, m1) \<Rightarrow>
             if rq_type r = CT_QUIT then ([a], m1)
             else (case spec_lines lines m1 of (as, m') \<Rightarrow> (a # as, m'))))"

definition requests_of :: "bytes list \<Rightarrow> request list" where
  "requests_of lines = List.map_filter pp_parse lines"

lemma requests_of_simps [simp]:
  "requests_of [] = []"
  "requests_of (l # ls) = (case pp_parse l of None \<Rightarrow> requests_of ls | Some r \<Rightarrow> r # requests_of ls)"
  by (simp_all add: requests_of_def List.map_filter_simps split: option.split)

lemma answers_standalone:
  assumes "standalone sv" "engine_ready hasher (sv_engine sv)" "list_all command_ok (requests_of lines)"
    and "unat (e_seq (sv_engine sv)) + length lines < 2 ^ 64"
    and "fits_in_memtable (sum_list (map command_size (requests_of lines))) (sv_engine sv)"
  shows "\<exists>c' sv'. answers (command_executor hasher zcrc net) lines (c, sv)
        = Some (fst (spec_lines lines (engine_map (sv_engine sv))), c', sv')
     \<and> engine_inv hasher (sv_engine sv')
     \<and> engine_map (sv_engine sv') = snd (spec_lines lines (engine_map (sv_engine sv)))"
  using assms
proof (induction lines arbitrary: sv c)
  case Nil
  then show ?case by (simp add: engine_ready_def)
next
  case (Cons line lines)
  show ?case
  proof (cases "pp_parse line")
    case None
    then show ?thesis using Cons.IH [of sv c] Cons.prems
      by (auto simp: handle_line_def split: prod.splits)
  next
    case (Some r)
    obtain e' where e': "execute_locally hasher zcrc c r sv
        = Inr (Some (fst (spec_command r (engine_map (sv_engine sv))), sv\<lparr>sv_engine := e'\<rparr>))"
      "engine_map e' = snd (spec_command r (engine_map (sv_engine sv)))"
      "engine_ready hasher e'" "fits_in_memtable (sum_list (map command_size (requests_of lines))) e'"
      "unat (e_seq e') \<le> unat (e_seq (sv_engine sv)) + 1"
      using Cons.prems Some local_command [of hasher sv r "sum_list (map command_size (requests_of lines))" zcrc c] by auto
    let ?sv = "sv\<lparr>sv_engine := e'\<rparr>"
    have h: "handle_line (command_executor hasher zcrc net) line (c, sv)
        = Some (fst (spec_command r (engine_map (sv_engine sv))), rq_type r = CT_QUIT, c + 1, ?sv)"
      using Cons.prems(1) Some e'(1) by (simp add: handle_line_def command_executor_def executeCommand_def standalone_def)
    have "\<exists>c' sv'. answers (command_executor hasher zcrc net) lines (c + 1, ?sv)
        = Some (fst (spec_lines lines (engine_map (sv_engine ?sv))), c', sv')
     \<and> engine_inv hasher (sv_engine sv') \<and> engine_map (sv_engine sv') = snd (spec_lines lines (engine_map (sv_engine ?sv)))"
      by (rule Cons.IH) (use Cons.prems Some e' in \<open>simp_all add: standalone_def\<close>)
    then show ?thesis
      using h Some e'(2,3) by (auto simp: engine_ready_def split: prod.splits)
  qed
qed


definition torn_session :: socket where
  "torn_session = \<lparr>sk_in = [Recv ''PUT k h'', Recv_eintr, Recv (''i'' @ crlf @ ''BOGUS'' @ crlf @ ''GE''), Recv (''T k'' @ crlf)],
     sk_out = [Send_upto 100, Send_upto 3], sk_sent = []\<rparr>"

lemma torn_session_lines:
  "lines_of (received (sk_in torn_session)) = [''PUT k hi'', ''BOGUS'', ''GET k'']"
  by (simp add: torn_session_def crlf_def lines_of.simps find_char_def take_line_def)

lemma torn_session_parse:
  "pp_parse ''PUT k hi'' = Some (put_request ''k'' ''hi'')"
  "pp_parse ''BOGUS'' = Some \<lparr>rq_type = CT_UNKNOWN, rq_key = [], rq_value = []\<rparr>"
  "pp_parse ''GET k'' = Some (get_request ''k'')"
  by (simp_all add: pp_parse_def pp_parseCommand_def pp_trim_def find_first_not_of_def find_last_not_of_def
      blanks_def find_char_def cpp_toupper_def put_request_def get_request_def numeral_eq_Suc)


end
