(* ===== verification/Replicated_Cluster.thy ===== *)
theory Replicated_Cluster
  imports Replication
begin

text \<open>
  A leader and one of its followers, as a step relation.  Several threads of the server may be
  inside \<open>Leader::replicate\<close> at once, so a call is a sequence of steps: it has appended its
  entry, stored the commit index, read it back for the message, built the message from the last
  entry of the log, and hands the message to the connection or fails to.  A broken connection
  loses a tail of what is in flight.  The follower takes messages in order and its apply thread
  works on its own.  \<open>cl_done\<close> records what the follower handed to its callback.

  Messages are kept as values here: what is on the wire is their text, and that the follower reads
  back exactly the messages is shown in the theory of the replication layer.
\<close>

datatype call_phase =
    Appended
  | Committed
  | Read_commit uint64
  | Built replication_message

record cluster =
  cl_leader :: leader
  cl_calls :: "call_phase list"
  cl_wire :: "replication_message list"
  cl_follower :: follower
  cl_done :: "log_entry list"

definition drop_call :: "nat \<Rightarrow> call_phase list \<Rightarrow> call_phase list" where
  "drop_call i cs = take i cs @ drop (Suc i) cs"

inductive cstep :: "cluster \<Rightarrow> cluster \<Rightarrow> bool" where
  append: "cstep s (s\<lparr>cl_leader := appendLog e (cl_leader s), cl_calls := cl_calls s @ [Appended]\<rparr>)"
| commit: "i < length (cl_calls s) \<Longrightarrow> cl_calls s ! i = Appended \<Longrightarrow>
    cstep s (s\<lparr>cl_leader := leader_commit (cl_leader s), cl_calls := (cl_calls s)[i := Committed]\<rparr>)"
| read_commit: "i < length (cl_calls s) \<Longrightarrow> cl_calls s ! i = Committed \<Longrightarrow>
    cstep s (s\<lparr>cl_calls := (cl_calls s)[i := Read_commit (ld_commit_index (cl_leader s))]\<rparr>)"
| build: "i < length (cl_calls s) \<Longrightarrow> cl_calls s ! i = Read_commit c \<Longrightarrow>
    cstep s (s\<lparr>cl_calls := (cl_calls s)[i := Built (leader_message c (cl_leader s))]\<rparr>)"
| ship: "i < length (cl_calls s) \<Longrightarrow> cl_calls s ! i = Built m \<Longrightarrow>
    cstep s (s\<lparr>cl_calls := drop_call i (cl_calls s), cl_wire := cl_wire s @ [m]\<rparr>)"
| lose: "i < length (cl_calls s) \<Longrightarrow> cl_calls s ! i = Built m \<Longrightarrow>
    cstep s (s\<lparr>cl_calls := drop_call i (cl_calls s)\<rparr>)"
| disconnect: "cl_wire s = ms @ lost \<Longrightarrow> cstep s (s\<lparr>cl_wire := ms\<rparr>)"
| deliver: "cl_wire s = m # ms \<Longrightarrow>
    cstep s (s\<lparr>cl_wire := ms, cl_follower := handleReplication m (cl_follower s)\<rparr>)"
| follower_applies: "follower_apply_turn (cl_follower s) = Some (e, f) \<Longrightarrow>
    cstep s (s\<lparr>cl_follower := f, cl_done := cl_done s @ [e]\<rparr>)"
| leader_applies: "leader_apply_turn (cl_leader s) = Some (e, l) \<Longrightarrow> cstep s (s\<lparr>cl_leader := l\<rparr>)"

inductive_cases cstepE: "cstep s s'"

definition cluster_init :: "replication_config \<Rightarrow> replication_config \<Rightarrow> cluster" where
  "cluster_init lc fc =
     \<lparr>cl_leader = leader_setApplyCallback (leader_new lc), cl_calls = [], cl_wire = [],
      cl_follower = follower_setApplyCallback (follower_new fc), cl_done = []\<rparr>"

section \<open>The invariant\<close>

text \<open>The messages that may still reach the follower.\<close>

definition in_flight :: "cluster \<Rightarrow> replication_message set" where
  "in_flight s = {m. Built m \<in> set (cl_calls s)} \<union> set (cl_wire s)"

definition cluster_inv :: "cluster \<Rightarrow> bool" where
  "cluster_inv s \<longleftrightarrow>
     numbered (ld_log (cl_leader s))
   \<and> (cl_calls s \<noteq> [] \<longrightarrow> ld_log (cl_leader s) \<noteq> [])
   \<and> (\<forall>m\<in>in_flight s. set (rm_entries m) \<subseteq> set (ld_log (cl_leader s)))
   \<and> set (fo_log (cl_follower s)) \<subseteq> set (ld_log (cl_leader s))
   \<and> unat (fo_last_applied (cl_follower s)) \<le> length (ld_log (cl_leader s))
   \<and> cl_done s = take (unat (fo_last_applied (cl_follower s))) (ld_log (cl_leader s))"

lemma numbered_append:
  assumes "numbered log" "length log + 1 < 2 ^ 64"
  shows "numbered (log @ [e\<lparr>lg_index := (if log = [] then 1 else lg_index (last log) + 1), lg_term := t\<rparr>])"
proof -
  have "unat (if log = [] then 1 else lg_index (last log) + 1) = length log + 1"
  proof (cases "log = []")
    case False
    then have "unat (lg_index (last log)) = length log"
      using assms(1) by (cases log rule: rev_cases) (auto simp: numbered_def)
    then show ?thesis using assms(2) False by (simp add: unat_word_ariths)
  qed simp
  with assms(1) show ?thesis by (auto simp: numbered_def nth_append less_Suc_eq)
qed

lemma leader_log_frame [simp]:
  "ld_log (leader_commit l) = ld_log l" "set (rm_entries (leader_message c l)) = {last (ld_log l)}"
  by (simp_all add: leader_commit_def leader_message_def)

lemma appendLog_log:
  "ld_log (appendLog e l) = ld_log l @ [e\<lparr>lg_index := (if ld_log l = [] then 1 else lg_index (last (ld_log l)) + 1),
     lg_term := ld_current_term l\<rparr>]"
  by (simp add: appendLog_def)

lemma set_drop_call: "set (drop_call i cs) \<subseteq> set cs"
  by (auto simp: drop_call_def dest: in_set_takeD in_set_dropD)

lemma drop_call_Nil: "drop_call i cs \<noteq> [] \<Longrightarrow> cs \<noteq> []"
  by (auto simp: drop_call_def)

lemma built_update: "Built m \<in> set (cs[i := c]) \<Longrightarrow> c = Built m \<or> Built m \<in> set cs"
  using set_update_subset_insert by fastforce

lemma handleReplication_frame [simp]:
  "fo_log (handleReplication m f) = fo_log f @ rm_entries m"
  "fo_last_applied (handleReplication m f) = fo_last_applied f"
  by (simp_all add: handleReplication_def)

lemma cstep_log_grows: "cstep s s' \<Longrightarrow> \<exists>es. ld_log (cl_leader s') = ld_log (cl_leader s) @ es"
  by (erule cstepE) (auto simp: appendLog_log dest: la.turn_someD)

lemma in_flight_step:
  assumes "cstep s s'" "m \<in> in_flight s'"
  shows "m \<in> in_flight s \<or> cl_calls s \<noteq> [] \<and> rm_entries m = [last (ld_log (cl_leader s))]"
  using assms
proof (cases rule: cstep.cases)
  case (ship i m')
  then show ?thesis using assms(2) set_drop_call [of i "cl_calls s"] nth_mem [of i "cl_calls s"] by (auto simp: in_flight_def)
next
  case (lose i m')
  then show ?thesis using assms(2) set_drop_call [of i "cl_calls s"] by (auto simp: in_flight_def)
qed (use assms(2) in \<open>auto simp: in_flight_def leader_message_def dest!: built_update\<close>)

lemma cluster_inv_init [simp]: "cluster_inv (cluster_init lc fc)"
  by (simp add: cluster_inv_def cluster_init_def in_flight_def leader_setApplyCallback_def leader_new_def
      follower_setApplyCallback_def follower_new_def)

lemma follower_step:
  assumes "cstep s s'"
  obtains "cl_follower s' = cl_follower s" "cl_done s' = cl_done s"
  | m where "m \<in> in_flight s" "cl_follower s' = handleReplication m (cl_follower s)" "cl_done s' = cl_done s"
  | e where "follower_apply_turn (cl_follower s) = Some (e, cl_follower s')" "cl_done s' = cl_done s @ [e]"
      "cl_leader s' = cl_leader s"
  using assms by (cases rule: cstep.cases) (auto simp: in_flight_def)

lemma numbered_step:
  assumes "cstep s s'" "numbered (ld_log (cl_leader s))" "length (ld_log (cl_leader s')) < 2 ^ 64"
  shows "numbered (ld_log (cl_leader s'))"
  using assms
proof (cases rule: cstep.cases)
  case (append e)
  then show ?thesis using assms numbered_append [of "ld_log (cl_leader s)"] by (simp add: appendLog_log)
qed (use assms la.turn_someD in \<open>simp_all\<close>)

lemma calls_step:
  assumes "cstep s s'" "cl_calls s \<noteq> [] \<longrightarrow> ld_log (cl_leader s) \<noteq> []"
  shows "cl_calls s' \<noteq> [] \<longrightarrow> ld_log (cl_leader s') \<noteq> []"
  using assms by (cases rule: cstep.cases) (auto simp: appendLog_log dest: drop_call_Nil la.turn_someD)

lemma cluster_inv_step:
  assumes "cstep s s'" "cluster_inv s" "length (ld_log (cl_leader s')) < 2 ^ 64"
  shows "cluster_inv s'"
proof -
  obtain es where es: "ld_log (cl_leader s') = ld_log (cl_leader s) @ es" using cstep_log_grows [OF assms(1)] by blast
  note inv = assms(2) [unfolded cluster_inv_def]
  have num: "numbered (ld_log (cl_leader s'))" using numbered_step assms inv by blast
  moreover have "cl_calls s' \<noteq> [] \<longrightarrow> ld_log (cl_leader s') \<noteq> []" using calls_step [OF assms(1)] inv by blast
  moreover have fl: "set (rm_entries m) \<subseteq> set (ld_log (cl_leader s))" if "m \<in> in_flight s'" for m
    using in_flight_step [OF assms(1) that] inv by auto
  moreover have "set (fo_log (cl_follower s')) \<subseteq> set (ld_log (cl_leader s'))
      \<and> unat (fo_last_applied (cl_follower s')) \<le> length (ld_log (cl_leader s'))
      \<and> cl_done s' = take (unat (fo_last_applied (cl_follower s'))) (ld_log (cl_leader s'))"
    using assms(1)
  proof (cases rule: follower_step)
    case 1
    then show ?thesis using inv es by auto
  next
    case (2 m)
    then show ?thesis using inv es by auto
  next
    case (3 e)
    note t = fa.turn_someD [OF 3(1)] fa.applied_advance [OF 3(1)]
    have "unat (fo_last_applied (cl_follower s)) < length (ld_log (cl_leader s)) \<and>
        e = ld_log (cl_leader s) ! unat (fo_last_applied (cl_follower s))"
      using inv by (intro fa.turn_numbered [OF 3(1)]) simp_all
    then show ?thesis using inv 3 t by (simp add: take_Suc_conv_app_nth)
  qed
  ultimately show ?thesis using es by (auto simp: cluster_inv_def)
qed

lemma cstep_length: "cstep\<^sup>*\<^sup>* s s' \<Longrightarrow> length (ld_log (cl_leader s)) \<le> length (ld_log (cl_leader s'))"
  by (induction rule: rtranclp_induct) (auto dest!: cstep_log_grows)

lemma cluster_inv_reachable:
  "cstep\<^sup>*\<^sup>* s s' \<Longrightarrow> cluster_inv s \<Longrightarrow> length (ld_log (cl_leader s')) < 2 ^ 64 \<Longrightarrow> cluster_inv s'"
proof (induction rule: rtranclp_induct)
  case (step t u)
  have "length (ld_log (cl_leader t)) \<le> length (ld_log (cl_leader u))" using cstep_length step.hyps(2) by blast
  then show ?case using step cluster_inv_step by simp
qed


section \<open>A missed entry\<close>

text \<open>Entry number \<open>i\<close> is no longer the last of the log and nothing that carries it is left.\<close>

definition missed :: "nat \<Rightarrow> cluster \<Rightarrow> bool" where
  "missed i s \<longleftrightarrow>
     0 < i \<and> i < length (ld_log (cl_leader s)) \<and> unat (fo_last_applied (cl_follower s)) < i
   \<and> (\<forall>m\<in>in_flight s. \<forall>e\<in>set (rm_entries m). unat (lg_index e) \<noteq> i)
   \<and> (\<forall>e\<in>set (fo_log (cl_follower s)). unat (lg_index e) \<noteq> i)"

lemma missed_step:
  assumes "cstep s s'" "missed i s" "cluster_inv s"
  shows "missed i s'"
proof -
  obtain es where es: "ld_log (cl_leader s') = ld_log (cl_leader s) @ es" using cstep_log_grows [OF assms(1)] by blast
  note m = assms(2) [unfolded missed_def]
  have "unat (lg_index (last (ld_log (cl_leader s)))) = length (ld_log (cl_leader s))" if "ld_log (cl_leader s) \<noteq> []"
    using assms(3) that by (cases "ld_log (cl_leader s)" rule: rev_cases) (auto simp: cluster_inv_def numbered_def)
  then have "\<forall>m\<in>in_flight s'. \<forall>e\<in>set (rm_entries m). unat (lg_index e) \<noteq> i"
    using in_flight_step [OF assms(1)] m by fastforce
  moreover have "(\<forall>e\<in>set (fo_log (cl_follower s')). unat (lg_index e) \<noteq> i) \<and> unat (fo_last_applied (cl_follower s')) < i"
    using assms(1)
  proof (cases rule: follower_step)
    case (3 e)
    note t = fa.turn_someD [OF 3(1)] fa.applied_advance [OF 3(1)]
    have e: "lg_index e = fo_last_applied (cl_follower s) + 1" "e \<in> set (fo_log (cl_follower s))"
      using t by (auto simp: find_Some_iff)
    have "unat (lg_index e) = unat (fo_last_applied (cl_follower s)) + 1" using e(1) t by simp
    moreover have "unat (lg_index e) \<noteq> i" using e(2) m by blast
    ultimately have "unat (fo_last_applied (cl_follower s)) + 1 < i" using m by linarith
    then show ?thesis using m t by simp
  qed (use m in auto)
  ultimately show ?thesis using m es by (simp add: missed_def)
qed

text \<open>
  C27: a missed entry is never made up for.  Once an entry that is not the last of the leader's
  log is neither in the follower's log nor in flight, the follower stays behind it for ever: no
  later step of any thread delivers it, and the follower applies nothing from there on.
\<close>

theorem missed_entry_blocks_follower:
  assumes "cstep\<^sup>*\<^sup>* (cluster_init lc fc) s" "missed i s"
    and "cstep\<^sup>*\<^sup>* s s'" "length (ld_log (cl_leader s')) < 2 ^ 64"
  shows "length (cl_done s') < i"
proof -
  have "missed i s' \<and> cluster_inv s'" using assms(3,4)
  proof (induction rule: rtranclp_induct)
    case base
    then show ?case using assms(1,2) cluster_inv_reachable by simp
  next
    case (step t u)
    have "length (ld_log (cl_leader t)) \<le> length (ld_log (cl_leader u))" using cstep_length step.hyps(2) by blast
    then show ?case using step missed_step cluster_inv_step by simp
  qed
  then show ?thesis by (auto simp: missed_def cluster_inv_def)
qed

section \<open>Two writes at the same time\<close>

definition raw_put :: "string \<Rightarrow> log_entry" where
  "raw_put k = \<lparr>lg_term = 0, lg_index = 0, lg_op = Rop_PUT, lg_key = k, lg_value = ''v''\<rparr>"

definition race_entry :: "uint64 \<Rightarrow> string \<Rightarrow> log_entry" where
  "race_entry i k = (raw_put k)\<lparr>lg_index := i\<rparr>"

text \<open>Two calls that both append before either of them goes on, and that both succeed.\<close>

definition race_state :: "replication_config \<Rightarrow> replication_config \<Rightarrow> cluster" where
  "race_state lc fc =
     \<lparr>cl_leader = (leader_setApplyCallback (leader_new lc))\<lparr>ld_log := [race_entry 1 ''a'', race_entry 2 ''b''], ld_commit_index := 2\<rparr>,
      cl_calls = [], cl_wire = [],
      cl_follower = (follower_setApplyCallback (follower_new fc))\<lparr>fo_log := [race_entry 2 ''b'', race_entry 2 ''b''], fo_commit_index := 2\<rparr>,
      cl_done = []\<rparr>"

lemma race_reachable: "cstep\<^sup>*\<^sup>* (cluster_init lc fc) (race_state lc fc)"
proof -
  let ?l = "(leader_setApplyCallback (leader_new lc))\<lparr>ld_log := [race_entry 1 ''a'', race_entry 2 ''b'']\<rparr>"
  let ?l' = "?l\<lparr>ld_commit_index := 2\<rparr>"
  let ?s0 = "cluster_init lc fc"
  let ?m = "\<lparr>rm_term = 0, rm_leader_commit = 2, rm_entries = [race_entry 2 ''b'']\<rparr>"
  note [simp] = cluster_init_def appendLog_def leader_commit_def leader_message_def leader_setApplyCallback_def
    leader_new_def race_entry_def raw_put_def drop_call_def
  have two: "cstep\<^sup>*\<^sup>* ?s0 (?s0\<lparr>cl_leader := ?l, cl_calls := [Appended, Appended]\<rparr>)"
    using cstep.append [of ?s0 "raw_put ''a''"] cstep.append [of "?s0\<lparr>cl_leader := appendLog (raw_put ''a'') (cl_leader ?s0),
        cl_calls := [Appended]\<rparr>" "raw_put ''b''"] by simp
  have c1: "cstep (?s0\<lparr>cl_leader := ?l, cl_calls := [Appended, Appended]\<rparr>)
      (?s0\<lparr>cl_leader := ?l', cl_calls := [Committed, Appended]\<rparr>)"
    using cstep.commit [of 0 "?s0\<lparr>cl_leader := ?l, cl_calls := [Appended, Appended]\<rparr>"] by simp
  have c2: "cstep (?s0\<lparr>cl_leader := ?l', cl_calls := [Committed, Appended]\<rparr>)
      (?s0\<lparr>cl_leader := ?l', cl_calls := [Committed, Committed], cl_wire := []\<rparr>)"
    using cstep.commit [of 1 "?s0\<lparr>cl_leader := ?l', cl_calls := [Committed, Appended]\<rparr>"] by simp
  have call: "cstep\<^sup>*\<^sup>* (?s0\<lparr>cl_leader := ?l', cl_calls := Committed # cs, cl_wire := ms\<rparr>)
      (?s0\<lparr>cl_leader := ?l', cl_calls := cs, cl_wire := ms @ [?m]\<rparr>)" for cs ms
    using cstep.read_commit [of 0 "?s0\<lparr>cl_leader := ?l', cl_calls := Committed # cs, cl_wire := ms\<rparr>"]
      cstep.build [of 0 "?s0\<lparr>cl_leader := ?l', cl_calls := Read_commit 2 # cs, cl_wire := ms\<rparr>" 2]
      cstep.ship [of 0 "?s0\<lparr>cl_leader := ?l', cl_calls := Built ?m # cs, cl_wire := ms\<rparr>" ?m] by simp
  have d1: "cstep (?s0\<lparr>cl_leader := ?l', cl_calls := [], cl_wire := [?m, ?m]\<rparr>)
      (?s0\<lparr>cl_leader := ?l', cl_calls := [], cl_wire := [?m], cl_follower := handleReplication ?m (cl_follower ?s0)\<rparr>)"
    using cstep.deliver [of "?s0\<lparr>cl_leader := ?l', cl_calls := [], cl_wire := [?m, ?m]\<rparr>" ?m "[?m]"] by simp
  have d2: "cstep (?s0\<lparr>cl_leader := ?l', cl_calls := [], cl_wire := [?m], cl_follower := handleReplication ?m (cl_follower ?s0)\<rparr>)
      (race_state lc fc)"
    using cstep.deliver [of "?s0\<lparr>cl_leader := ?l', cl_calls := [], cl_wire := [?m],
        cl_follower := handleReplication ?m (cl_follower ?s0)\<rparr>" ?m "[]"]
    by (simp add: race_state_def handleReplication_def follower_setApplyCallback_def follower_new_def)
  from two c1 have "cstep\<^sup>*\<^sup>* ?s0 (?s0\<lparr>cl_leader := ?l', cl_calls := [Committed, Appended]\<rparr>)"
    by (rule rtranclp.rtrancl_into_rtrancl)
  from this c2 have "cstep\<^sup>*\<^sup>* ?s0 (?s0\<lparr>cl_leader := ?l', cl_calls := [Committed, Committed], cl_wire := []\<rparr>)"
    by (rule rtranclp.rtrancl_into_rtrancl)
  from this call [where cs = "[Committed]" and ms = "[]"]
  have "cstep\<^sup>*\<^sup>* ?s0 (?s0\<lparr>cl_leader := ?l', cl_calls := [Committed], cl_wire := [] @ [?m]\<rparr>)"
    by (rule rtranclp_trans)
  from this call [where cs = "[]" and ms = "[] @ [?m]"]
  have "cstep\<^sup>*\<^sup>* ?s0 (?s0\<lparr>cl_leader := ?l', cl_calls := [], cl_wire := ([] @ [?m]) @ [?m]\<rparr>)"
    by (rule rtranclp_trans)
  from this d1 [folded append_Cons append_Nil]
  have "cstep\<^sup>*\<^sup>* ?s0 (?s0\<lparr>cl_leader := ?l', cl_calls := [], cl_wire := [?m],
      cl_follower := handleReplication ?m (cl_follower ?s0)\<rparr>)"
    unfolding append_Nil append_Cons by (rule rtranclp.rtrancl_into_rtrancl)
  from this d2 show ?thesis by (rule rtranclp.rtrancl_into_rtrancl)
qed

lemma race_missed: "missed 1 (race_state lc fc)"
  by (simp add: missed_def race_state_def in_flight_def race_entry_def raw_put_def leader_setApplyCallback_def
      leader_new_def follower_setApplyCallback_def follower_new_def)


theorem missed_entry_blocks_follower_witness:
  "length (cl_done (race_state blank_config blank_config)) < 1"
  by (rule missed_entry_blocks_follower [OF race_reachable race_missed rtranclp.rtrancl_refl])
    (simp add: race_state_def leader_setApplyCallback_def leader_new_def)

text \<open>
  C25: two concurrent writes can cost a follower an entry without any failure of the network.
  There is a run in which two calls of \<open>replicate\<close> both finish, every message is delivered, and
  the leader has both entries committed; but both calls sent the second entry, so the follower
  holds that one twice, the first never, and its apply thread cannot move.
\<close>

theorem concurrent_replicate_skips_entry:
  "\<exists>s. cstep\<^sup>*\<^sup>* (cluster_init lc fc) s
     \<and> cl_calls s = [] \<and> cl_wire s = []
     \<and> map lg_key (ld_log (cl_leader s)) = [''a'', ''b''] \<and> ld_commit_index (cl_leader s) = 2
     \<and> map lg_key (fo_log (cl_follower s)) = [''b'', ''b''] \<and> fo_commit_index (cl_follower s) = 2
     \<and> follower_apply_turn (cl_follower s) = None"
proof (intro exI conjI)
  show "cstep\<^sup>*\<^sup>* (cluster_init lc fc) (race_state lc fc)" by (rule race_reachable)
qed (simp_all add: race_state_def race_entry_def raw_put_def follower_apply_turn_def apply_next_def
    follower_setApplyCallback_def follower_new_def)

section \<open>One write after the other\<close>

text \<open>
  A write that no other overlaps, to a single follower over a connection that works: the bytes
  the leader sends are the bytes the follower receives, and the follower's answer comes back.
\<close>

definition working_net :: "bytes \<Rightarrow> nat \<Rightarrow> net_call" where
  "working_net data i = \<lparr>nc_send = int (length data), nc_recv = 4, nc_buf = ''+OK'' @ CHR 0x0A # List.replicate 12 (CHR 0x00)\<rparr>"

definition serial_write :: "log_entry \<Rightarrow> leader \<times> follower \<Rightarrow> leader \<times> follower" where
  "serial_write e = (\<lambda>(l, f).
     let l1 = leader_commit (appendLog e l);
         data = message_serialize (leader_message (ld_commit_index l1) l1) @ [CHR 0x0A]
     in case leader_replicate (working_net data) e l of
          ((acked, wires), l2) \<Rightarrow> (l2, snd (snd (handleConnection wires [] f))))"

text \<open>An entry as the server makes it from a request: bounded in size and on one line.\<close>

definition entry_sendable :: "log_entry \<Rightarrow> bool" where
  "entry_sendable e \<longleftrightarrow> named_rop (lg_op e) \<and> CHR 0x0A \<notin> set (lg_key e) \<and> CHR 0x0A \<notin> set (lg_value e)
     \<and> length (lg_key e) < 2 ^ 62 \<and> length (lg_value e) < 2 ^ 62"

definition in_step :: "leader \<Rightarrow> follower \<Rightarrow> bool" where
  "in_step l f \<longleftrightarrow>
     numbered (ld_log l) \<and> fo_log f = ld_log l \<and> unat (fo_commit_index f) = length (ld_log l)
   \<and> fo_last_applied f = 0 \<and> fo_callback f \<and> \<not> fo_shutdown f
   \<and> (\<exists>p. rc_peers (ld_config l) = [p] \<and> peer_connected p \<and> peer_socket_fd p \<ge> 0)"

lemma numeral_small: "n < 2 ^ 62 \<Longrightarrow> length (to_string n) \<le> 20"
proof -
  assume "n < 2 ^ 62"
  then have "n < 10 ^ Suc 19" by simp
  from to_string_length [OF this] show ?thesis by simp
qed

lemma entry_text_length:
  assumes "entry_sendable e"
  shows "length (log_entry_serialize e) \<le> 200 + length (lg_key e) + length (lg_value e)"
proof -
  have "unat (byte_of_rop (lg_op e)) < 2 ^ 62" using byte_of_rop_small [of "lg_op e"] by simp
  then show ?thesis
    using assms to_string_length_u64 [of "lg_term e"] to_string_length_u64 [of "lg_index e"]
      numeral_small [of "length (lg_key e)"] numeral_small [of "length (lg_value e)"]
      numeral_small [of "unat (byte_of_rop (lg_op e))"]
    by (simp add: log_entry_serialize_def bar_def entry_sendable_def)
qed

lemma leader_message_sendable:
  assumes "entry_sendable (last (ld_log l))"
  shows "sendable (leader_message c l)"
proof -
  let ?e = "last (ld_log l)"
  have le: "length (log_entry_serialize ?e) \<le> 200 + length (lg_key ?e) + length (lg_value ?e)"
    by (rule entry_text_length [OF assms])
  have "length (lg_key ?e) < 2 ^ 62" "length (lg_value ?e) < 2 ^ 62" using assms by (simp_all add: entry_sendable_def)
  with le have "length (log_entry_serialize ?e) < 2 ^ 63 + 200" by simp
  moreover from this have "length (to_string (length (log_entry_serialize ?e))) \<le> 20"
    using to_string_length [of _ 19] by simp
  ultimately have "length (message_serialize (leader_message c l)) < 2 ^ 64"
    using to_string_length_u64 [of "ld_current_term l"] to_string_length_u64 [of c] to_string_length [of 1 0]
    by (simp add: message_serialize_def leader_message_def Let_def bar_def)
  then show ?thesis
    using assms by (simp add: sendable_def one_line_def leader_message_def entry_sendable_def)
qed

lemma ship_working:
  assumes "rc_peers (ld_config l) = [p]" "peer_connected p" "peer_socket_fd p \<ge> 0"
  shows "leader_ship (working_net (message_serialize m @ [CHR 0x0A])) m l
    = ((True, [message_serialize m @ [CHR 0x0A]]), l\<lparr>ld_config := (ld_config l)\<lparr>rc_peers := [p]\<rparr>\<rparr>)"
  using assms by (simp add: leader_ship_def shipEntries_def sendToPeer_def working_net_def)

lemma serial_write_step:
  assumes "in_step l f" "entry_sendable e" "length (ld_log l) + 1 < 2 ^ 64" "serial_write e (l, f) = (l', f')"
  shows "in_step l' f' \<and> ld_log l' = ld_log (appendLog e l)"
proof -
  obtain p where p: "rc_peers (ld_config l) = [p]" "peer_connected p" "peer_socket_fd p \<ge> 0"
    using assms(1) by (auto simp: in_step_def)
  define l1 where "l1 = leader_commit (appendLog e l)"
  define m where "m = leader_message (ld_commit_index l1) l1"
  have log1: "ld_log l1 = ld_log (appendLog e l)" by (simp add: l1_def)
  have cfg: "ld_config l1 = ld_config l" by (simp add: l1_def leader_commit_def appendLog_def)
  have num: "numbered (ld_log (appendLog e l))"
    using numbered_append [of "ld_log l", where e = e] assms(1,3) by (simp add: appendLog_log in_step_def)
  have len: "length (ld_log (appendLog e l)) = length (ld_log l) + 1" by (simp add: appendLog_log)
  have "unat (lg_index (ld_log (appendLog e l) ! length (ld_log l))) = length (ld_log l) + 1"
    using num len unfolding numbered_def by simp
  moreover have "last (ld_log (appendLog e l)) = ld_log (appendLog e l) ! length (ld_log l)"
    by (simp add: appendLog_log)
  ultimately have commit: "unat (ld_commit_index l1) = length (ld_log l) + 1"
    by (simp add: l1_def leader_commit_def)
  have "sendable m"
    unfolding m_def using assms(2) by (intro leader_message_sendable) (simp add: log1 appendLog_log entry_sendable_def)
  then have "handleConnection [message_serialize m @ [CHR 0x0A]] [] f = (1, [], handleReplication m f)"
    using handleConnection_lines [of f "[message_serialize m @ [CHR 0x0A]]" "[]"] assms(1)
      follower_lines_messages [of "[m]" f]
    by (simp add: in_step_def find_char_def wire_text_def)
  then have eq: "l' = l1\<lparr>ld_config := (ld_config l1)\<lparr>rc_peers := [p]\<rparr>\<rparr>" "f' = handleReplication m f"
    using assms(4) ship_working [of l1 p m] p cfg
    by (simp_all add: serial_write_def leader_replicate_def l1_def [symmetric] m_def [symmetric] Let_def)
  have "rm_entries m = [last (ld_log l1)]" "rm_leader_commit m = ld_commit_index l1" by (simp_all add: m_def leader_message_def)
  moreover have "ld_log l1 = ld_log l @ [last (ld_log l1)]" by (simp add: log1 appendLog_log)
  moreover have "ld_commit_index l1 > fo_commit_index f"
    using commit assms(1) by (simp add: in_step_def word_less_nat_alt)
  ultimately show ?thesis
    using assms(1) num len commit log1 p eq
    by (simp add: in_step_def handleReplication_def)
qed

lemma serial_writes_step:
  assumes "in_step l f" "list_all entry_sendable es" "length (ld_log l) + length es < 2 ^ 64"
    and "fold serial_write es (l, f) = (l', f')"
  shows "in_step l' f' \<and> map (\<lambda>e. (lg_op e, lg_key e, lg_value e)) (ld_log l')
    = map (\<lambda>e. (lg_op e, lg_key e, lg_value e)) (ld_log l @ es)"
  using assms
proof (induction es arbitrary: l f)
  case (Cons e es)
  obtain l1 f1 where w: "serial_write e (l, f) = (l1, f1)" by (cases "serial_write e (l, f)") auto
  have s: "in_step l1 f1 \<and> ld_log l1 = ld_log (appendLog e l)"
    using Cons.prems w by (intro serial_write_step [of l f e]) simp_all
  have "in_step l' f' \<and> map (\<lambda>e. (lg_op e, lg_key e, lg_value e)) (ld_log l')
    = map (\<lambda>e. (lg_op e, lg_key e, lg_value e)) (ld_log l1 @ es)"
    using s Cons.prems w by (intro Cons.IH) (simp_all add: appendLog_log)
  then show ?case using s by (simp add: appendLog_log)
qed simp

definition connected_leader :: "leader \<Rightarrow> bool" where
  "connected_leader l \<longleftrightarrow> ld_log l = [] \<and> (\<exists>p. rc_peers (ld_config l) = [p] \<and> peer_connected p \<and> peer_socket_fd p \<ge> 0)"

text \<open>
  A follower that is connected from the start catches up.  When writes are replicated one
  after the other over a working connection, the follower's apply thread then hands to its
  callback every entry the leader logged, each once and in the order of the writes, with the
  operations, keys and values of the writes, and it ends up at the commit index.
\<close>

lemma serial_writes_converge:
  assumes "connected_leader l0" "list_all entry_sendable es" "length es < 2 ^ 64"
    and "fold serial_write es (l0, follower_setApplyCallback (follower_new fc)) = (l, f)"
  shows "fst (follower_apply_loop f) = ld_log l
       \<and> map (\<lambda>e. (lg_op e, lg_key e, lg_value e)) (ld_log l) = map (\<lambda>e. (lg_op e, lg_key e, lg_value e)) es
       \<and> fo_last_applied (snd (follower_apply_loop f)) = fo_commit_index f
       \<and> unat (fo_commit_index f) = length es"
proof -
  have "in_step l0 (follower_setApplyCallback (follower_new fc))"
    using assms(1) by (simp add: in_step_def connected_leader_def follower_setApplyCallback_def follower_new_def)
  from serial_writes_step [OF this assms(2) _ assms(4)]
  have s: "in_step l f" and m: "map (\<lambda>e. (lg_op e, lg_key e, lg_value e)) (ld_log l)
      = map (\<lambda>e. (lg_op e, lg_key e, lg_value e)) es"
    using assms(1,3) by (simp_all add: connected_leader_def)
  have "fst (follower_apply_loop f) = drop (unat (fo_last_applied f)) (take (unat (fo_commit_index f)) (fo_log f))
      \<and> fo_last_applied (snd (follower_apply_loop f)) = fo_commit_index f"
  proof (rule fa.loop_applies_all)
    have z: "fo_last_applied f = 0" "fo_log f = ld_log l" "unat (fo_commit_index f) = length (ld_log l)"
      using s unfolding in_step_def by blast+
    show "numbered (fo_log f)" "fo_callback f \<and> \<not> fo_shutdown f"
      using s unfolding in_step_def by metis+
    show "unat (fo_commit_index f) \<le> length (fo_log f)" unfolding z(2,3) by (rule order_refl)
    show "fo_last_applied f \<le> fo_commit_index f" unfolding z(1) by (rule word_zero_le)
  qed
  moreover have "length (ld_log l) = length es" using arg_cong [OF m, of length] by (simp only: length_map)
  moreover have "fo_last_applied f = 0" "fo_log f = ld_log l" "unat (fo_commit_index f) = length (ld_log l)"
    using s unfolding in_step_def by blast+
  ultimately show ?thesis using m by (simp only: unat_0 drop_0 take_all order_refl)
qed

definition two_node_leader :: leader where
  "two_node_leader = leader_new (blank_config\<lparr>rc_peers :=
     connectToPeers (\<lambda>_. Connected_fd 5) [\<lparr>peer_host = ''n2'', peer_port = 9101, peer_socket_fd = -1, peer_connected = False\<rparr>]\<rparr>)"

lemma two_node_connected: "connected_leader two_node_leader"
  by (simp add: connected_leader_def two_node_leader_def leader_new_def blank_config_def connectToPeers_def connect_peer_def)

end
