(* ===== verification/Replicated_Server.thy ===== *)
theory Replicated_Server
  imports TCP_Server Replicated_Cluster
begin

text \<open>
  A leader's writes on a follower's engine: the messages of the leader, the bytes on the wire,
  the follower's log, its apply thread and the callback that writes into its storage engine, put
  together.
\<close>

text \<open>The apply thread of a server for a number of turns; \<open>c\<close> names the promises of its writes.\<close>

fun server_applies :: "(string \<Rightarrow> uint64) \<Rightarrow> crc \<Rightarrow> nat \<Rightarrow> nat \<Rightarrow> tcp_server \<Rightarrow> kv_error + tcp_server option" where
  "server_applies hasher zcrc 0 c sv = Inr (Some sv)"
| "server_applies hasher zcrc (Suc n) c sv =
     sum_bind (server_apply_turn hasher zcrc c sv) (\<lambda>r.
       case r of None \<Rightarrow> Inr None | Some sv1 \<Rightarrow> server_applies hasher zcrc n (c + 1) sv1)"

text \<open>An entry on the abstract map.\<close>

definition apply_entry :: "log_entry \<Rightarrow> (string \<Rightarrow> string option) \<Rightarrow> string \<Rightarrow> string option" where
  "apply_entry e m =
     (case lg_op e of
        Rop_PUT \<Rightarrow> m(lg_key e \<mapsto> lg_value e) | Rop_DELETE \<Rightarrow> m(lg_key e := None) | Rop_RAW _ \<Rightarrow> m)"

definition entry_storable :: "log_entry \<Rightarrow> bool" where
  "entry_storable e \<longleftrightarrow> named_rop (lg_op e) \<and> length (lg_key e) < 2 ^ 32 \<and> length (lg_value e) < 2 ^ 32"

definition entry_size :: "log_entry \<Rightarrow> nat" where
  "entry_size e = 17 + length (lg_key e) + length (lg_value e)"

lemma applyLogEntry_correct:
  assumes "engine_ready hasher (sv_engine sv)" "entry_storable e" "unat (e_seq (sv_engine sv)) + 1 < 2 ^ 64"
    and "fits_in_memtable (entry_size e + n) (sv_engine sv)"
  obtains e' where "applyLogEntry hasher zcrc c e sv = Inr (Some (sv\<lparr>sv_engine := e'\<rparr>))"
    "engine_map e' = apply_entry e (engine_map (sv_engine sv))" "engine_ready hasher e'" "fits_in_memtable n e'"
    "unat (e_seq e') = unat (e_seq (sv_engine sv)) + 1"
proof (cases "lg_op e = Rop_PUT")
  case True
  obtain e' where "engine_put zcrc (lg_key e) (lg_value e) c (sv_engine sv) = Some (True, e')"
    "engine_map e' = (engine_map (sv_engine sv))(lg_key e \<mapsto> lg_value e)" "unat (e_seq e') = unat (e_seq (sv_engine sv)) + 1"
    "engine_ready hasher e' \<and> fits_in_memtable n e'"
    using engine_put_correct [OF assms(1) _ _ assms(3), of "lg_key e" "lg_value e" zcrc c] assms(2,4)
    unfolding entry_storable_def entry_size_def by metis
  then show ?thesis using True by (intro that [of e']) (simp_all add: applyLogEntry_def apply_entry_def)
next
  case False
  then have del: "lg_op e = Rop_DELETE" using assms(2) by (simp add: entry_storable_def named_rop_def)
  obtain e' where "engine_del hasher zcrc (lg_key e) c (sv_engine sv)
      = Inr (Some (engine_map (sv_engine sv) (lg_key e) \<noteq> None, e'))"
    "engine_map e' = (engine_map (sv_engine sv))(lg_key e := None)" "unat (e_seq e') = unat (e_seq (sv_engine sv)) + 1"
    "\<And>n. fits_in_memtable (17 + length (lg_key e) + n) (sv_engine sv) \<Longrightarrow> engine_ready hasher e' \<and> fits_in_memtable n e'"
    using engine_del_correct [OF assms(1) _ assms(3), of "lg_key e" zcrc c] assms(2) unfolding entry_storable_def by metis
  moreover have "fits_in_memtable (17 + length (lg_key e) + (length (lg_value e) + n)) (sv_engine sv)"
    using assms(4) by (simp add: entry_size_def add.assoc)
  ultimately show ?thesis using del fits_in_memtable_mono
    by (intro that [of e']) (auto simp: applyLogEntry_def apply_entry_def)
qed

lemma server_applies_loop:
  assumes "sv_leader sv = None" "sv_follower sv = Some f" "follower_apply_loop f = (es, f')"
    and "engine_ready hasher (sv_engine sv)" "list_all entry_storable es"
    and "unat (e_seq (sv_engine sv)) + length es < 2 ^ 64"
    and "fits_in_memtable (sum_list (map entry_size es)) (sv_engine sv)"
  shows "\<exists>sv'. server_applies hasher zcrc (length es) c sv = Inr (Some sv') \<and> sv_follower sv' = Some f'
     \<and> engine_ready hasher (sv_engine sv') \<and> engine_map (sv_engine sv') = fold apply_entry es (engine_map (sv_engine sv))"
  using assms
proof (induction es arbitrary: sv f c)
  case Nil
  then have "f' = f" by (simp add: follower_apply_loop.simps [of f] split: option.splits prod.splits)
  with Nil show ?case by simp
next
  case (Cons e es)
  obtain f1 where t: "follower_apply_turn f = Some (e, f1)" "follower_apply_loop f1 = (es, f')"
    using Cons.prems(3) by (auto simp: follower_apply_loop.simps [of f] split: option.splits prod.splits)
  obtain e' where a: "applyLogEntry hasher zcrc c e sv = Inr (Some (sv\<lparr>sv_engine := e'\<rparr>))"
    "engine_map e' = apply_entry e (engine_map (sv_engine sv))" "engine_ready hasher e'"
    "fits_in_memtable (sum_list (map entry_size es)) e'" "unat (e_seq e') = unat (e_seq (sv_engine sv)) + 1"
    by (rule applyLogEntry_correct [of hasher sv e "sum_list (map entry_size es)" zcrc c]) (use Cons.prems in simp_all)
  let ?sv = "sv\<lparr>sv_engine := e', sv_follower := Some f1\<rparr>"
  have "server_apply_turn hasher zcrc c sv = Inr (Some ?sv)"
    using Cons.prems(1,2) t(1) a(1) by (simp add: server_apply_turn_def)
  moreover have "\<exists>sv'. server_applies hasher zcrc (length es) (c + 1) ?sv = Inr (Some sv') \<and> sv_follower sv' = Some f'
     \<and> engine_ready hasher (sv_engine sv') \<and> engine_map (sv_engine sv') = fold apply_entry es (engine_map (sv_engine ?sv))"
    by (rule Cons.IH [where f = f1]) (use Cons.prems t(2) a in simp_all)
  ultimately show ?case using a(2) by simp
qed

lemma apply_entry_cong:
  "(lg_op e, lg_key e, lg_value e) = (lg_op e', lg_key e', lg_value e') \<Longrightarrow> apply_entry e = apply_entry e'"
  by (cases "lg_op e'") (simp_all add: apply_entry_def fun_eq_iff)

lemma fold_apply_entry_cong:
  "map (\<lambda>e. (lg_op e, lg_key e, lg_value e)) es = map (\<lambda>e. (lg_op e, lg_key e, lg_value e)) es' \<Longrightarrow>
   fold apply_entry es m = fold apply_entry es' m"
proof (induction es arbitrary: es' m)
  case (Cons e es)
  then obtain e' es'' where "es' = e' # es''" by (cases es') auto
  with Cons.prems apply_entry_cong [of e e'] Cons.IH [of es''] show ?case by simp
qed simp

lemma list_all_storable_cong:
  "map (\<lambda>e. (lg_op e, lg_key e, lg_value e)) es = map (\<lambda>e. (lg_op e, lg_key e, lg_value e)) es' \<Longrightarrow>
   list_all entry_storable es = list_all entry_storable es' \<and> map entry_size es = map entry_size es'"
proof (induction es arbitrary: es')
  case (Cons e es)
  then obtain e' es'' where "es' = e' # es''" by (cases es') auto
  with Cons.prems Cons.IH [of es''] show ?case by (simp add: entry_storable_def entry_size_def)
qed simp

text \<open>The entries the server makes of write requests.\<close>

lemma fold_write_entries:
  "list_all is_write rs \<Longrightarrow> fold apply_entry (map write_entry rs) m = snd (spec_commands rs m)"
proof (induction rs arbitrary: m)
  case (Cons r rs)
  then show ?case
    by (auto simp: apply_entry_def write_entry_def spec_command_def is_write_def split: prod.splits)
qed simp

lemma write_entries_ok:
  assumes "list_all command_ok rs" "list_all is_write rs"
  shows "list_all entry_storable (map write_entry rs)" "map entry_size (map write_entry rs) = map command_size rs"
  using assms by (induction rs)
    (auto simp: entry_storable_def entry_size_def command_size_def command_ok_def write_entry_def named_rop_def is_write_def)

definition one_line_request :: "request \<Rightarrow> bool" where
  "one_line_request r \<longleftrightarrow> CHR 0x0A \<notin> set (rq_key r) \<and> CHR 0x0A \<notin> set (rq_value r)"

lemma write_entries_sendable:
  "list_all command_ok rs \<Longrightarrow> list_all one_line_request rs \<Longrightarrow> list_all entry_sendable (map write_entry rs)"
  by (induction rs) (auto simp: entry_sendable_def command_ok_def one_line_request_def write_entry_def named_rop_def)



end
