(* ===== verification/Server_Runs.thy ===== *)
theory Server_Runs
  imports TCP_Server
begin

text \<open>
  The server as a process: starting it (\<open>run\<close>, with the results of the socket calls as inputs),
  the accept loop, and the workers of the thread pool as a transition system.  A connection is
  represented by its descriptor.
\<close>

section \<open>Starting\<close>

text \<open>What the system answers to the calls that open a listening socket.\<close>

record listen_calls =
  lc_socket :: int
  lc_reuse :: int
  lc_pton :: int
  lc_bind :: int
  lc_listen :: int

text \<open>\<open>run\<close> up to \<open>listen\<close>; \<open>err\<close> is what \<open>strerror(errno)\<close> says.\<close>

definition server_listen :: "string \<Rightarrow> listen_calls \<Rightarrow> server_config \<Rightarrow> kv_error + int" where
  "server_listen err lc c =
     (if lc_socket lc < 0 then Inl (RuntimeError (''Failed to create socket: '' @ err))
      else if lc_reuse lc < 0 then Inl (RuntimeError (''Failed to set SO_REUSEADDR: '' @ err))
      else if lc_pton lc \<le> 0 then Inl (RuntimeError (''Invalid address: '' @ sc_host c))
      else if lc_bind lc < 0 then Inl (RuntimeError (''Failed to bind: '' @ err))
      else if lc_listen lc < 0 then Inl (RuntimeError (''Failed to listen: '' @ err))
      else Inr (lc_socket lc))"

text \<open>The follower does not look at the result of \<open>inet_pton\<close>.\<close>

definition follower_start :: "listen_calls \<Rightarrow> kv_error + int" where
  "follower_start lc =
     (if lc_socket lc < 0 then Inl (RuntimeError ''Failed to create listener socket'')
      else if lc_bind lc < 0 then Inl (RuntimeError ''Failed to bind replication port'')
      else if lc_listen lc < 0 then Inl (RuntimeError ''Failed to listen'')
      else Inr (lc_socket lc))"

text \<open>The leader's retry thread connects at once; \<open>conn\<close> is what each peer answers.\<close>

definition leader_start :: "(nat \<Rightarrow> connect_result) \<Rightarrow> leader \<Rightarrow> leader" where
  "leader_start conn l = l\<lparr>ld_config := (ld_config l)\<lparr>rc_peers := connectToPeers conn (rc_peers (ld_config l))\<rparr>\<rparr>"

definition server_run :: "string \<Rightarrow> listen_calls \<Rightarrow> listen_calls \<Rightarrow> (nat \<Rightarrow> connect_result) \<Rightarrow> tcp_server \<Rightarrow> kv_error + tcp_server" where
  "server_run err lc flc conn sv =
     sum_bind (server_listen err lc (sv_config sv)) (\<lambda>fd.
       let sv1 = sv\<lparr>sv_running := True, sv_leader := map_option (leader_start conn) (sv_leader sv)\<rparr> in
       case sv_follower sv1 of
         None \<Rightarrow> Inr sv1
       | Some f \<Rightarrow> sum_bind (follower_start flc) (\<lambda>fd2. Inr sv1))"

text \<open>\<open>main\<close> after the configuration: the exit code when the server does not come up.\<close>

definition main_start :: "crc \<Rightarrow> string \<Rightarrow> listen_calls \<Rightarrow> listen_calls \<Rightarrow> (nat \<Rightarrow> connect_result) \<Rightarrow> server_config \<Rightarrow>
    file_system \<Rightarrow> int + tcp_server" where
  "main_start zcrc err lc flc conn c fs =
     (case sum_bind (server_new zcrc c fs) (server_run err lc flc conn) of
        Inl _ \<Rightarrow> Inl 1
      | Inr sv \<Rightarrow> Inr sv)"

section \<open>The accept loop and the workers\<close>

datatype accept_result = Accept_fd int | Accept_again | Accept_failed

text \<open>One round of \<open>acceptLoop\<close>; \<open>None\<close> ends it.\<close>

definition accept_turn :: "accept_result \<Rightarrow> tcp_server \<Rightarrow> tcp_server option" where
  "accept_turn r sv =
     (case r of
        Accept_fd fd \<Rightarrow> Some (accept_client fd sv)
      | _ \<Rightarrow> if sv_running sv then Some sv else None)"

text \<open>
  The server with the connections its workers serve.  Ghosts: the connections put into the
  pool and those that workers took, in order.
\<close>

record server_sys =
  ss_server :: tcp_server
  ss_busy :: "int list"
  ss_pooled :: "int list"
  ss_taken :: "int list"

definition sys_start :: "tcp_server \<Rightarrow> server_sys" where
  "sys_start sv = \<lparr>ss_server = sv, ss_busy = [], ss_pooled = [], ss_taken = []\<rparr>"

text \<open>The connections a round of the accept loop adds to the pool.\<close>

definition pooled_by :: "accept_result \<Rightarrow> tcp_server \<Rightarrow> int list" where
  "pooled_by r sv =
     (case r of
        Accept_fd fd \<Rightarrow> if sv_active sv \<ge> sc_max_connections (sv_config sv) \<or> tp_shutdown (sv_pool sv) then [] else [fd]
      | _ \<Rightarrow> [])"

text \<open>
  A worker that is not busy may take a task; serving a connection may change the engine and the
  replication state in any way, here the state \<open>sv'\<close>, but not the pool.
\<close>

inductive server_step :: "server_sys \<Rightarrow> server_sys \<Rightarrow> bool" where
  accept: "accept_turn r (ss_server s) = Some sv \<Longrightarrow>
     server_step s (s\<lparr>ss_server := sv, ss_pooled := ss_pooled s @ pooled_by r (ss_server s)\<rparr>)"
| take_task: "int (length (ss_busy s)) < sc_num_threads (sv_config (ss_server s)) \<Longrightarrow>
     workerLoop (sv_pool (ss_server s)) = Worker_runs fd p \<Longrightarrow>
     server_step s (s\<lparr>ss_server := (ss_server s)\<lparr>sv_pool := p\<rparr>, ss_busy := fd # ss_busy s, ss_taken := ss_taken s @ [fd]\<rparr>)"
| serve_client: "fd \<in> set (ss_busy s) \<Longrightarrow> sv_pool sv' = sv_pool (ss_server s) \<Longrightarrow> sv_active sv' = sv_active (ss_server s) \<Longrightarrow>
     sv_config sv' = sv_config (ss_server s) \<Longrightarrow> server_step s (s\<lparr>ss_server := sv'\<rparr>)"
| finish: "fd \<in> set (ss_busy s) \<Longrightarrow>
     server_step s (s\<lparr>ss_server := client_done (ss_server s), ss_busy := remove1 fd (ss_busy s)\<rparr>)"
| shut: "server_step s (s\<lparr>ss_server := server_shutdown (ss_server s)\<rparr>)"

inductive_cases server_stepE: "server_step s t"

definition sys_inv :: "server_sys \<Rightarrow> bool" where
  "sys_inv s \<longleftrightarrow>
     (let sv = ss_server s; p = sv_pool sv in
      length (tp_tasks p) + length (ss_busy s) \<le> unat (sv_active sv)
      \<and> (\<not> tp_shutdown p \<longrightarrow> length (tp_tasks p) + length (ss_busy s) = unat (sv_active sv))
      \<and> sv_active sv \<le> sc_max_connections (sv_config sv)
      \<and> int (length (ss_busy s)) \<le> max 0 (sc_num_threads (sv_config sv))
      \<and> ss_taken s @ tp_tasks p = ss_pooled s)"

lemma active_inc: "(x :: uint64) < m \<Longrightarrow> unat (x + 1) = unat x + 1 \<and> x + 1 \<le> m"
proof -
  assume "x < m"
  then have "unat x + 1 \<le> unat m" by (simp add: word_less_nat_alt)
  moreover have "unat m < 2 ^ 64" using unsigned_less [of m, where 'a = nat] by simp
  ultimately have "unat x + 1 < 2 ^ 64" by (rule le_less_trans)
  then show ?thesis using unat_seq_Suc [of x] \<open>unat x + 1 \<le> unat m\<close> by (simp add: word_le_nat_alt)
qed

lemma active_dec: "0 < unat (x :: uint64) \<Longrightarrow> unat (x - 1) = unat x - 1"
  by (metis gr0_conv_Suc unat_0 unat_gt_0 unat_minus_one)

lemma accept_client_inv:
  assumes "sys_inv s"
  shows "sys_inv (s\<lparr>ss_server := accept_client fd (ss_server s), ss_pooled := ss_pooled s @ pooled_by (Accept_fd fd) (ss_server s)\<rparr>)"
proof (cases "sv_active (ss_server s) \<ge> sc_max_connections (sv_config (ss_server s))")
  case True
  then show ?thesis using assms by (auto simp: sys_inv_def accept_client_def pooled_by_def Let_def)
next
  case False
  then have "sv_active (ss_server s) < sc_max_connections (sv_config (ss_server s))" by simp
  from active_inc [OF this] False assms show ?thesis
    by (auto simp: sys_inv_def accept_client_def pooled_by_def pool_submit_def Let_def)
qed

lemma server_step_inv: "server_step s t \<Longrightarrow> sys_inv s \<Longrightarrow> sys_inv t"
proof (induction rule: server_step.induct)
  case (accept r s sv)
  then show ?case
    using accept_client_inv [of s] by (cases r) (auto simp: accept_turn_def pooled_by_def split: if_splits)
next
  case (take_task s fd p)
  then obtain rest where "tp_tasks (sv_pool (ss_server s)) = fd # rest" "p = (sv_pool (ss_server s))\<lparr>tp_tasks := rest\<rparr>"
    by (auto simp: workerLoop_def split: list.splits if_splits)
  with take_task show ?case by (auto simp: sys_inv_def Let_def)
next
  case (serve_client fd s sv')
  then show ?case by (simp add: sys_inv_def Let_def)
next
  case (finish fd s)
  obtain n where n: "length (ss_busy s) = Suc n" "length (remove1 fd (ss_busy s)) = n"
    using finish.hyps by (cases "length (ss_busy s)") (auto simp: length_remove1)
  have "length (ss_busy s) \<le> unat (sv_active (ss_server s))"
    using finish.prems unfolding sys_inv_def Let_def by linarith
  then obtain k where k: "unat (sv_active (ss_server s)) = Suc k" using n(1) by (cases "unat (sv_active (ss_server s))") auto
  then have "unat (sv_active (ss_server s) - 1) = k" using active_dec [of "sv_active (ss_server s)"] by simp
  then show ?case
    using finish.prems by (auto simp: sys_inv_def client_done_def Let_def word_le_nat_alt n k)
next
  case (shut s)
  then show ?case by (simp add: sys_inv_def server_shutdown_def pool_shutdown_def Let_def)
qed

lemma server_steps_inv: "server_step\<^sup>*\<^sup>* s t \<Longrightarrow> sys_inv s \<Longrightarrow> sys_inv t"
  by (induction rule: rtranclp_induct) (auto intro: server_step_inv)

section \<open>Properties\<close>

text \<open>
  C14: the connection limit.  However accepting, taking, serving, finishing and the shutdown
  interleave, the connections waiting and served together are never more than the limit, and the
  counter tells their number until the pool is shut down; no more are served at a time than there
  are workers; and workers take each connection once, in the order in which they were accepted.
\<close>

theorem connection_limit:
  assumes "server_step\<^sup>*\<^sup>* (sys_start sv) s" "sv_active sv = 0" "tp_tasks (sv_pool sv) = []"
  shows "length (tp_tasks (sv_pool (ss_server s))) + length (ss_busy s) \<le> unat (sc_max_connections (sv_config (ss_server s)))
     \<and> (\<not> tp_shutdown (sv_pool (ss_server s)) \<longrightarrow>
          unat (sv_active (ss_server s)) = length (tp_tasks (sv_pool (ss_server s))) + length (ss_busy s))
     \<and> int (length (ss_busy s)) \<le> max 0 (sc_num_threads (sv_config (ss_server s)))
     \<and> ss_taken s @ tp_tasks (sv_pool (ss_server s)) = ss_pooled s"
proof -
  have "sys_inv (sys_start sv)" using assms(2,3) by (simp add: sys_inv_def sys_start_def Let_def)
  from server_steps_inv [OF assms(1) this] show ?thesis
    by (auto simp: sys_inv_def Let_def word_le_nat_alt)
qed

text \<open>A new server that accepts two connections, of which a worker takes the first.\<close>

theorem connection_limit_witness:
  "\<exists>e sv s. server_new (\<lambda>c b. c) (small_config\<lparr>sc_node_id := 0, sc_role := []\<rparr>) fs_empty = Inr (started 0 [] e)
     \<and> sv = started 0 [] e \<and> server_step\<^sup>*\<^sup>* (sys_start sv) s \<and> ss_busy s = [7] \<and> ss_pooled s = [7, 8]
     \<and> unat (sv_active (ss_server s)) = length (tp_tasks (sv_pool (ss_server s))) + length (ss_busy s)"
proof -
  obtain e where e: "server_new (\<lambda>c b. c) (small_config\<lparr>sc_node_id := 0, sc_role := []\<rparr>) fs_empty = Inr (started 0 [] e)"
    by (rule fresh_server) blast
  define sv where "sv = started 0 [] e"
  have f: "sv_active sv = 0" "sv_pool sv = pool_new" "sc_max_connections (sv_config sv) = 1000" "sc_num_threads (sv_config sv) = 4"
    by (simp_all add: sv_def started_def small_config_def default_config_def Let_def)
  have lim: "\<not> (1000 :: uint64) \<le> 1" by (simp add: word_le_nat_alt)
  define s1 where "s1 = (sys_start sv)\<lparr>ss_server := accept_client 7 sv, ss_pooled := [7]\<rparr>"
  define s2 where "s2 = s1\<lparr>ss_server := accept_client 8 (ss_server s1), ss_pooled := [7, 8]\<rparr>"
  define s3 where "s3 = s2\<lparr>ss_server := (ss_server s2)\<lparr>sv_pool := pool_new\<lparr>tp_tasks := [8]\<rparr>\<rparr>, ss_busy := [7], ss_taken := [7]\<rparr>"
  have a1: "server_step (sys_start sv) s1"
    using accept [of "Accept_fd 7" "sys_start sv" "accept_client 7 sv"]
    by (simp add: accept_turn_def pooled_by_def sys_start_def s1_def f pool_new_def)
  have g1: "sv_active (ss_server s1) = 1" "sv_pool (ss_server s1) = pool_new\<lparr>tp_tasks := [7]\<rparr>" "sv_config (ss_server s1) = sv_config sv"
    by (simp_all add: s1_def accept_client_def f pool_submit_def pool_new_def)
  have a2: "server_step s1 s2"
    using accept [of "Accept_fd 8" s1 "accept_client 8 (ss_server s1)"] g1
    by (simp add: accept_turn_def pooled_by_def s2_def f pool_new_def lim) (simp add: s1_def)
  have g2: "sv_active (ss_server s2) = 2" "sv_pool (ss_server s2) = pool_new\<lparr>tp_tasks := [7, 8]\<rparr>" "sv_config (ss_server s2) = sv_config sv"
    using g1 lim by (simp_all add: s2_def accept_client_def f pool_submit_def pool_new_def)
  have a3: "server_step s2 s3"
    using take_task [of s2 7 "pool_new\<lparr>tp_tasks := [8]\<rparr>"] g2
    by (simp add: workerLoop_def pool_new_def s3_def f s2_def s1_def sys_start_def)
  have run: "server_step\<^sup>*\<^sup>* (sys_start sv) s3"
    by (intro converse_rtranclp_into_rtranclp [of server_step, OF a1] converse_rtranclp_into_rtranclp [of server_step, OF a2]
      converse_rtranclp_into_rtranclp [of server_step, OF a3] rtranclp.rtrancl_refl)
  have "\<not> tp_shutdown (sv_pool (ss_server s3))" by (simp add: s3_def pool_new_def)
  with connection_limit [OF run] f
  have "unat (sv_active (ss_server s3)) = length (tp_tasks (sv_pool (ss_server s3))) + length (ss_busy s3)"
    by (simp add: pool_new_def)
  moreover have "ss_busy s3 = [7]" "ss_pooled s3 = [7, 8]" by (simp_all add: s3_def s2_def)
  ultimately show ?thesis using e run sv_def by blast
qed

end
