(* ===== verification/Membership.thy ===== *)
theory Membership
  imports Replication
begin

text \<open>
  The list of peers of a node (\<open>distributed/membership/node_registry.cpp\<close>) and the heartbeat
  (\<open>distributed/failure/heartbeat.cpp\<close>).  Nothing in the server creates either of them.  Every
  method of the registry holds its mutex, so each is one function on the list.
\<close>

section \<open>The registry\<close>

type_synonym node_registry = "peer_info list"

definition registry_new :: node_registry where
  "registry_new = []"

definition addPeer :: "peer_info \<Rightarrow> node_registry \<Rightarrow> node_registry" where
  "addPeer peer peers = peers @ [peer]"

definition getPeers :: "node_registry \<Rightarrow> peer_info list" where
  "getPeers peers = peers"

definition is_peer :: "string \<Rightarrow> uint16 \<Rightarrow> peer_info \<Rightarrow> bool" where
  "is_peer host port peer \<longleftrightarrow> peer_host peer = host \<and> peer_port peer = port"

text \<open>\<open>std::find_if\<close> stops at the first peer with this address.\<close>

fun updatePeerConnection :: "string \<Rightarrow> uint16 \<Rightarrow> bool \<Rightarrow> node_registry \<Rightarrow> node_registry" where
  "updatePeerConnection host port connected [] = []"
| "updatePeerConnection host port connected (peer # peers) =
     (if is_peer host port peer then peer\<lparr>peer_connected := connected\<rparr> # peers
      else peer # updatePeerConnection host port connected peers)"

definition find_peer :: "string \<Rightarrow> uint16 \<Rightarrow> node_registry \<Rightarrow> peer_info option" where
  "find_peer host port peers = find (is_peer host port) peers"

lemma is_peer_connected [simp]: "is_peer host port (peer\<lparr>peer_connected := c\<rparr>) = is_peer host port peer"
  by (simp add: is_peer_def)

lemma is_peer_unique: "is_peer h p peer \<Longrightarrow> is_peer h' p' peer \<longleftrightarrow> h' = h \<and> p' = p"
  by (auto simp: is_peer_def)

lemma find_peer_add:
  "find_peer host port (addPeer peer peers) =
     (case find_peer host port peers of Some x \<Rightarrow> Some x | None \<Rightarrow> if is_peer host port peer then Some peer else None)"
  by (induction peers) (simp_all add: find_peer_def addPeer_def)

text \<open>An update changes the flag of one address, and only of the peer that a lookup finds.\<close>

lemma find_peer_update:
  "find_peer h p (updatePeerConnection host port connected peers) =
     (if h = host \<and> p = port then map_option (\<lambda>x. x\<lparr>peer_connected := connected\<rparr>) (find_peer host port peers)
      else find_peer h p peers)"
proof (induction peers)
  case (Cons peer peers)
  show ?case
  proof (cases "is_peer host port peer")
    case True
    then show ?thesis using is_peer_unique [OF True, of h p] by (simp add: find_peer_def)
  qed (use Cons.IH in \<open>auto simp: find_peer_def\<close>)
qed (simp add: find_peer_def)

lemma addresses_update:
  "map (\<lambda>x. (peer_host x, peer_port x)) (updatePeerConnection host port connected peers)
     = map (\<lambda>x. (peer_host x, peer_port x)) peers"
  by (induction peers) simp_all

section \<open>The heartbeat\<close>

record heartbeat =
  hb_interval_ms :: int
  hb_shutdown :: bool
  hb_callback :: bool

definition heartbeat_new :: "int \<Rightarrow> heartbeat" where
  "heartbeat_new interval_ms = \<lparr>hb_interval_ms = interval_ms, hb_shutdown = False, hb_callback = False\<rparr>"

definition heartbeat_stop :: "heartbeat \<Rightarrow> heartbeat" where
  "heartbeat_stop hb = hb\<lparr>hb_shutdown := True\<rparr>"

definition setSendCallback :: "heartbeat \<Rightarrow> heartbeat" where
  "setSendCallback hb = hb\<lparr>hb_callback := True\<rparr>"

text \<open>
  One round of \<open>heartbeatLoop\<close>: \<open>None\<close> ends the thread, otherwise the result says whether the
  callback was called and how long the round sleeps.
\<close>

definition heartbeat_round :: "heartbeat \<Rightarrow> (bool \<times> int) option" where
  "heartbeat_round hb = (if hb_shutdown hb then None else Some (hb_callback hb, hb_interval_ms hb))"

text \<open>
  The loop against what other threads do between its rounds: the state it finds at the head of
  each round.  The result is the number of calls and whether the loop has ended.
\<close>

fun heartbeatLoop :: "heartbeat list \<Rightarrow> nat \<times> bool" where
  "heartbeatLoop [] = (0, False)"
| "heartbeatLoop (hb # later) =
     (case heartbeat_round hb of
        None \<Rightarrow> (0, True)
      | Some (called, _) \<Rightarrow> (case heartbeatLoop later of (n, ended) \<Rightarrow> ((if called then n + 1 else n), ended)))"

text \<open>The loop calls once per round until it is stopped, and not at all after that.\<close>

lemma heartbeatLoop_stop:
  assumes "\<forall>hb\<in>set before. \<not> hb_shutdown hb \<and> hb_callback hb"
  shows "heartbeatLoop (before @ heartbeat_stop hb # later) = (length before, True)"
  using assms by (induction before) (simp_all add: heartbeat_round_def heartbeat_stop_def)

end
